(* ===== verification/Amaru_Prelude.thy ===== *)
theory Amaru_Prelude
  imports Main "HOL-Library.Word"
begin

text \<open>
  Shared vocabulary of the development: the collections of rewrite rules the
  component proofs use, the result type of fallible Rust functions, the
  arithmetic of unsigned 64-bit integers as the release profile compiles it,
  the standard library's binary search on slices, and facts on lists and
  folds that several components need.
\<close>

section \<open>Rule collections\<close>

named_theorems om_simps \<open>lookups, entries and membership of ordered maps\<close>
named_theorems diff_simps \<open>the lookups of the volatile diffs after each operation\<close>
named_theorems eval_simps \<open>equations that evaluate the model on concrete data\<close>

section \<open>Fallible computations\<close>

text \<open>
  A Rust \<open>Result<A, E>\<close> is the sum \<open>'e + 'a\<close>, the error on the left.  A
  function that can panic (an \<open>assert!\<close>, an \<open>expect\<close>, an \<open>unreachable!\<close>)
  returns an \<open>option\<close> whose \<^term>\<open>None\<close> is the panic.
\<close>

type_synonym ('e, 'a) result = "'e + 'a"

abbreviation Ok :: "'a \<Rightarrow> ('e, 'a) result" where "Ok \<equiv> Inr"

abbreviation Err :: "'e \<Rightarrow> ('e, 'a) result" where "Err \<equiv> Inl"

definition is_ok :: "('e, 'a) result \<Rightarrow> bool" where
  "is_ok r = (case r of Inl e \<Rightarrow> False | Inr a \<Rightarrow> True)"

definition res_bind :: "('e, 'a) result \<Rightarrow> ('a \<Rightarrow> ('e, 'b) result) \<Rightarrow> ('e, 'b) result" where
  "res_bind r f = (case r of Inl e \<Rightarrow> Inl e | Inr a \<Rightarrow> f a)"

lemma res_bind_simps [simp]:
  "res_bind (Inl e) f = Inl e" "res_bind (Inr a) f = f a"
  by (simp_all add: res_bind_def)

lemma is_ok_simps [simp]: "is_ok (Inl e) = False" "is_ok (Inr a) = True"
  by (simp_all add: is_ok_def)

lemma res_bind_ok_iff:
  "res_bind r f = Inr b \<longleftrightarrow> (\<exists>a. r = Inr a \<and> f a = Inr b)"
  by (cases r) auto

text \<open>\<open>Iterator::try_fold\<close>: the first error stops the fold.\<close>

primrec try_fold :: "('x \<Rightarrow> 's \<Rightarrow> ('e, 's) result) \<Rightarrow> 'x list \<Rightarrow> 's \<Rightarrow> ('e, 's) result" where
  "try_fold f [] s = Ok s" |
  "try_fold f (x # xs) s = res_bind (f x s) (try_fold f xs)"

lemma try_fold_append: "try_fold f (xs @ ys) s = res_bind (try_fold f xs s) (try_fold f ys)"
proof (induction xs arbitrary: s)
  case (Cons x xs)
  then show ?case by (cases "f x s") auto
qed simp

lemma try_fold_invariant:
  assumes "\<And>x s s'. x \<in> set xs \<Longrightarrow> P s \<Longrightarrow> f x s = Ok s' \<Longrightarrow> P s'" and "P s" and "try_fold f xs s = Ok s'"
  shows "P s'"
  using assms by (induction xs arbitrary: s) (auto simp: res_bind_ok_iff)

section \<open>Unsigned 64-bit arithmetic\<close>

text \<open>
  Quantities of lovelace, slots and epochs are \<open>u64\<close>.  The release profile
  leaves overflow checks off, so \<open>+\<close> and \<open>-\<close> wrap modulo \<open>2^64\<close>.
\<close>

definition u64_max :: nat where "u64_max = 2 ^ 64 - 1"

definition u64_add :: "nat \<Rightarrow> nat \<Rightarrow> nat" where
  "u64_add a b = (a + b) mod 2 ^ 64"

definition u64_sub :: "nat \<Rightarrow> nat \<Rightarrow> nat" where
  "u64_sub a b = (if b \<le> a then a - b else a + 2 ^ 64 - b)"

definition u64_mul :: "nat \<Rightarrow> nat \<Rightarrow> nat" where
  "u64_mul a b = a * b mod 2 ^ 64"

lemma u64_mul_exact [simp]: "a * b < 2 ^ 64 \<Longrightarrow> u64_mul a b = a * b"
  by (simp add: u64_mul_def)

lemma u64_sub_exact [simp]: "b \<le> a \<Longrightarrow> u64_sub a b = a - b"
  by (simp add: u64_sub_def)

lemma u64_add_exact [simp]: "a + b < 2 ^ 64 \<Longrightarrow> u64_add a b = a + b"
  by (simp add: u64_add_def)

lemma u64_add_less: "u64_add a b < 2 ^ 64"
  by (simp add: u64_add_def)

lemma u64_sub_add_cancel:
  assumes "a < 2 ^ 64" "b < 2 ^ 64"
  shows "u64_sub (u64_add a b) b = a"
proof (cases "a + b < 2 ^ 64")
  case False
  then have "(a + b) mod 2 ^ 64 = a + b - 2 ^ 64"
    using assms by (simp add: mod_if)
  then show ?thesis
    using assms False by (auto simp: u64_sub_def u64_add_def)
qed simp

text \<open>A sum that is subtracted from right away only wraps when the difference does not fit.\<close>

lemma u64_add_sub:
  assumes "a < 2 ^ 64" "b < 2 ^ 64" "c < 2 ^ 64"
  shows "u64_sub (u64_add a b) c =
    (if a + b < c then 2 ^ 64 - (c - (a + b)) else (a + b - c) mod 2 ^ 64)"
proof (cases "a + b < 2 ^ 64")
  case False
  then have "(a + b) mod 2 ^ 64 = a + b - 2 ^ 64"
    using assms by (simp add: mod_if)
  then show ?thesis
    using assms False by (auto simp: u64_sub_def u64_add_def mod_if add.commute)
next
  case True
  then show ?thesis using assms by (auto simp: u64_sub_def)
qed

section \<open>Binary search\<close>

text \<open>
  \<open>slice::binary_search\<close> of the standard library: it halves the remaining
  size until one candidate is left and compares that one last.  The result is
  the index of a match, or as error the index at which the key can be inserted
  so that the slice stays sorted.
\<close>

function bs_base :: "'a::linorder list \<Rightarrow> 'a \<Rightarrow> nat \<Rightarrow> nat \<Rightarrow> nat" where
  "bs_base ks k base sz =
    (if sz \<le> 1 then base
     else let half = sz div 2; mid = base + half
          in bs_base ks k (if k < ks ! mid then base else mid) (sz - half))"
  by pat_completeness auto
termination
  by (relation "measure (\<lambda>(ks, k, base, sz). sz)") auto

declare bs_base.simps [simp del]

definition binary_search :: "'a::linorder list \<Rightarrow> 'a \<Rightarrow> (nat, nat) result" where
  "binary_search ks k =
    (if ks = [] then Err 0
     else let b = bs_base ks k 0 (length ks)
          in if ks ! b = k then Ok b else Err (if ks ! b < k then Suc b else b))"

abbreviation strict_sorted :: "'a::linorder list \<Rightarrow> bool" where
  "strict_sorted \<equiv> sorted_wrt (<)"

lemma strict_sorted_nth_less:
  "strict_sorted ks \<Longrightarrow> i < j \<Longrightarrow> j < length ks \<Longrightarrow> ks ! i < ks ! j"
  by (rule sorted_wrt_nth_less)

lemma strict_sorted_nth_mono:
  "strict_sorted ks \<Longrightarrow> i \<le> j \<Longrightarrow> j < length ks \<Longrightarrow> ks ! i \<le> ks ! j"
  using strict_sorted_nth_less [of ks i j] by (cases "i = j") auto

lemma strict_sorted_distinct: "strict_sorted ks \<Longrightarrow> distinct ks"
  by (simp add: strict_sorted_iff)

lemma bs_base_invariant:
  assumes "strict_sorted ks" "0 < sz" "base + sz \<le> length ks"
    "\<forall>j < base. ks ! j < k" "\<forall>j. base + sz \<le> j \<and> j < length ks \<longrightarrow> k < ks ! j"
  shows "bs_base ks k base sz < length ks \<and>
    (\<forall>j < bs_base ks k base sz. ks ! j < k) \<and>
    (\<forall>j. bs_base ks k base sz < j \<and> j < length ks \<longrightarrow> k < ks ! j)"
  using assms(2-)
proof (induction sz arbitrary: base rule: less_induct)
  case (less sz)
  define half where "half = sz div 2"
  define mid where "mid = base + half"
  show ?case
  proof (cases "sz \<le> 1")
    case True
    then have "sz = 1" using less.prems(1) by simp
    moreover have "bs_base ks k base sz = base"
      using True by (subst bs_base.simps) (simp only: if_True)
    ultimately show ?thesis using less.prems(2-4) by auto
  next
    case False
    define b where "b = (if k < ks ! mid then base else mid)"
    have step: "bs_base ks k base sz = bs_base ks k b (sz - half)"
      using False by (subst bs_base.simps) (simp add: Let_def b_def mid_def half_def)
    have half: "0 < half" "half < sz" using False by (auto simp: half_def)
    have mid: "mid < length ks" "base + sz = mid + (sz - half)" "half \<le> sz - half"
      using less.prems(2) half by (auto simp: mid_def half_def)
    have le: "b + (sz - half) \<le> length ks"
      using less.prems(2) mid by (auto simp: b_def)
    have lo: "\<forall>j < b. ks ! j < k"
    proof (cases "k < ks ! mid")
      case False
      then have "ks ! j < k" if "j < mid" for j
        using strict_sorted_nth_less [OF assms(1) that mid(1)] by simp
      then show ?thesis using False by (simp add: b_def)
    qed (use less.prems(3) in \<open>simp add: b_def\<close>)
    have hi: "\<forall>j. b + (sz - half) \<le> j \<and> j < length ks \<longrightarrow> k < ks ! j"
    proof (cases "k < ks ! mid")
      case True
      then have "k < ks ! j" if "mid \<le> j" "j < length ks" for j
        using strict_sorted_nth_mono [OF assms(1) that] by simp
      moreover have "mid \<le> b + (sz - half)" using True mid(3) by (simp add: b_def mid_def)
      ultimately show ?thesis by (meson order.trans)
    next
      case False
      then show ?thesis using less.prems(4) mid(2) by (simp add: b_def)
    qed
    have "sz - half < sz" "0 < sz - half" using half by simp_all
    from less.IH [OF this le lo hi] show ?thesis unfolding step .
  qed
qed

lemma bs_base_correct:
  assumes "strict_sorted ks" "ks \<noteq> []"
  shows "bs_base ks k 0 (length ks) < length ks"
    and "\<forall>j < bs_base ks k 0 (length ks). ks ! j < k"
    and "\<forall>j. bs_base ks k 0 (length ks) < j \<and> j < length ks \<longrightarrow> k < ks ! j"
proof -
  have "\<forall>j. 0 + length ks \<le> j \<and> j < length ks \<longrightarrow> k < ks ! j" by auto
  from bs_base_invariant [OF assms(1) _ _ _ this] assms(2)
  show "bs_base ks k 0 (length ks) < length ks"
    and "\<forall>j < bs_base ks k 0 (length ks). ks ! j < k"
    and "\<forall>j. bs_base ks k 0 (length ks) < j \<and> j < length ks \<longrightarrow> k < ks ! j"
    by simp_all
qed

lemma binary_search_Ok:
  assumes "strict_sorted ks" "binary_search ks k = Ok i"
  shows "i < length ks \<and> ks ! i = k"
  using assms bs_base_correct(1) [of ks k]
  by (auto simp: binary_search_def Let_def split: if_splits)

lemma binary_search_Err:
  assumes "strict_sorted ks" "binary_search ks k = Err i"
  shows "i \<le> length ks \<and> (\<forall>j < i. ks ! j < k) \<and>
    (\<forall>j. i \<le> j \<and> j < length ks \<longrightarrow> k < ks ! j)"
proof (cases "ks = []")
  case False
  define b where "b = bs_base ks k 0 (length ks)"
  have inv: "b < length ks" "\<forall>j < b. ks ! j < k" "\<forall>j. b < j \<and> j < length ks \<longrightarrow> k < ks ! j"
    using bs_base_correct [OF assms(1) False, of k] by (simp_all add: b_def)
  have i: "ks ! b \<noteq> k" "i = (if ks ! b < k then Suc b else b)"
    using assms(2) False by (auto simp: binary_search_def Let_def b_def split: if_splits)
  show ?thesis
  proof (cases "ks ! b < k")
    case True
    then have "i = Suc b" using i by simp
    then show ?thesis using inv True by (auto simp: less_Suc_eq)
  next
    case False
    then have "i = b" "k < ks ! b" using i by auto
    then show ?thesis using inv by (metis le_eq_less_or_eq)
  qed
qed (use assms in \<open>auto simp: binary_search_def\<close>)

lemma binary_search_iff:
  assumes "strict_sorted ks"
  shows "is_ok (binary_search ks k) \<longleftrightarrow> k \<in> set ks"
proof (cases "binary_search ks k")
  case (Inl i)
  then have "k \<notin> set ks"
    using binary_search_Err [OF assms Inl] by (auto simp: in_set_conv_nth) (meson leI less_irrefl)
  then show ?thesis using Inl by simp
next
  case (Inr i)
  then show ?thesis using binary_search_Ok [OF assms Inr] by auto
qed

section \<open>Lists and folds\<close>

lemma strict_sorted_append_iff:
  "strict_sorted (xs @ ys) \<longleftrightarrow>
    strict_sorted xs \<and> strict_sorted ys \<and> (\<forall>x \<in> set xs. \<forall>y \<in> set ys. x < y)"
  by (simp add: sorted_wrt_append)

lemma map_of_rev_distinct:
  assumes "distinct (map fst xs)"
  shows "map_of (rev xs) = map_of xs"
proof
  fix k
  have "map_of (rev xs) k = Some v \<longleftrightarrow> map_of xs k = Some v" for v
    using assms map_of_eq_Some_iff [of "rev xs"] by (simp add: rev_map [symmetric])
  then show "map_of (rev xs) k = map_of xs k"
    by (metis not_Some_eq)
qed

lemma sum_list_map_add:
  "sum_list (map (\<lambda>x. f x + g x) xs) = sum_list (map f xs) + (sum_list (map g xs) :: nat)"
  by (induction xs) auto

lemma sum_list_map_mono:
  "(\<And>x. x \<in> set xs \<Longrightarrow> f x \<le> (g x :: nat)) \<Longrightarrow> sum_list (map f xs) \<le> sum_list (map g xs)"
  by (induction xs) (auto intro: add_mono)

end
