(* ===== verification/Ordered_Map.thy ===== *)
theory Ordered_Map
  imports Amaru_Prelude
begin

text \<open>
  The ordered associative containers of the Rust standard library.  A
  \<open>BTreeMap<K, V>\<close> is the type \<open>('k, 'v) omap\<close> of association lists with
  strictly increasing keys, so that iteration order is part of the model and
  two maps are equal exactly when they have the same entries; a
  \<open>BTreeSet<T>\<close> is, as in the standard library, a map to the unit type.  The
  locales \<open>insert_map\<close>, \<open>ordered_map\<close> and \<open>ordered_set\<close> state the contract
  every implementation of such a container keeps; they are interpreted here on \<open>omap\<close> and, in
  \<open>Compact_Collections\<close>, on the program's own containers.
\<close>

section \<open>Sorted association lists\<close>

fun al_insert :: "'k::linorder \<Rightarrow> 'v \<Rightarrow> ('k \<times> 'v) list \<Rightarrow> ('k \<times> 'v) list" where
  "al_insert k v [] = [(k, v)]" |
  "al_insert k v ((k', v') # xs) =
    (if k < k' then (k, v) # (k', v') # xs
     else if k = k' then (k, v) # xs
     else (k', v') # al_insert k v xs)"

definition al_remove :: "'k \<Rightarrow> ('k \<times> 'v) list \<Rightarrow> ('k \<times> 'v) list" where
  "al_remove k xs = filter (\<lambda>p. fst p \<noteq> k) xs"

abbreviation al_sorted :: "('k::linorder \<times> 'v) list \<Rightarrow> bool" where
  "al_sorted xs \<equiv> strict_sorted (map fst xs)"

lemma set_al_insert_keys: "fst ` set (al_insert k v xs) = insert k (fst ` set xs)"
  by (induction k v xs rule: al_insert.induct) auto

lemma al_sorted_insert: "al_sorted xs \<Longrightarrow> al_sorted (al_insert k v xs)"
proof (induction k v xs rule: al_insert.induct)
  case (2 k v k' v' xs)
  have "\<forall>x \<in> fst ` set xs. k' < x" using "2.prems" by auto
  moreover have "set (map fst (al_insert k v xs)) = insert k (fst ` set xs)"
    using set_al_insert_keys [of k v xs] by simp
  ultimately show ?case using 2 by (auto dest: order.strict_trans)
qed simp

lemma al_sorted_filter: "al_sorted xs \<Longrightarrow> al_sorted (filter P xs)"
  by (induction xs) auto

lemma al_sorted_remove: "al_sorted xs \<Longrightarrow> al_sorted (al_remove k xs)"
  by (simp add: al_remove_def al_sorted_filter)

lemma map_of_al_insert: "al_sorted xs \<Longrightarrow> map_of (al_insert k v xs) = (map_of xs)(k \<mapsto> v)"
  by (induction k v xs rule: al_insert.induct) (auto simp: fun_eq_iff)

lemma map_of_al_remove: "map_of (al_remove k xs) = (map_of xs)(k := None)"
  by (induction xs) (auto simp: al_remove_def fun_eq_iff)

lemma al_sorted_eqI:
  "al_sorted xs \<Longrightarrow> al_sorted ys \<Longrightarrow> map_of xs = map_of ys \<Longrightarrow> xs = ys"
proof (induction xs arbitrary: ys)
  case Nil
  then show ?case by (cases ys) (auto simp: fun_eq_iff split: if_splits)
next
  case (Cons p xs)
  obtain k v where p: "p = (k, v)" by (cases p)
  have hd_xs: "\<forall>x \<in> set (map fst xs). k < x" using Cons.prems(1) p by auto
  have "map_of ys k = Some v" using Cons.prems(3) p by (metis map_of_Cons_code(2))
  then have ne: "ys \<noteq> []" by auto
  then obtain k' v' zs where ys: "ys = (k', v') # zs" by (cases ys) auto
  have hd_zs: "\<forall>x \<in> set (map fst zs). k' < x" using Cons.prems(2) ys by auto
  have "map_of (p # xs) k' = Some v'"
    using Cons.prems(3) ys by (metis map_of_Cons_code(2))
  then have "k \<le> k'" using p hd_xs by (auto split: if_splits dest!: map_of_SomeD)
  moreover have "k' \<le> k"
    using \<open>map_of ys k = Some v\<close> ys hd_zs by (auto split: if_splits dest!: map_of_SomeD)
  ultimately have k: "k' = k" by simp
  then have v: "v' = v" using \<open>map_of ys k = Some v\<close> ys by simp
  have notin: "map_of xs k = None" "map_of zs k = None"
    using hd_xs hd_zs k by (auto simp: map_of_eq_None_iff)
  have "map_of xs x = map_of zs x" for x
    using fun_cong [OF Cons.prems(3), of x] notin p ys k by (cases "x = k") auto
  then have "xs = zs"
    using Cons.IH [of zs] Cons.prems(1,2) p ys by (auto simp: fun_eq_iff)
  then show ?case using p ys k v by simp
qed

lemma al_insert_append_last:
  "\<forall>x \<in> fst ` set xs. x < k \<Longrightarrow> al_insert k v xs = xs @ [(k, v)]"
  by (induction xs) (auto simp: not_less order.strict_implies_order)

section \<open>Ordered maps\<close>

typedef (overloaded) ('k::linorder, 'v) omap = "{xs :: ('k \<times> 'v) list. al_sorted xs}"
  morphisms om_entries Abs_omap
proof
  show "[] \<in> {xs :: ('k \<times> 'v) list. al_sorted xs}" by simp
qed

setup_lifting type_definition_omap

lemma om_entries_sorted [simp]: "al_sorted (om_entries m)"
  using om_entries [of m] by simp

lemma om_entries_distinct [simp]: "distinct (map fst (om_entries m))"
  by (rule strict_sorted_distinct) simp

lift_definition om_empty :: "('k::linorder, 'v) omap" is "[]" by simp

lift_definition om_lookup :: "('k::linorder, 'v) omap \<Rightarrow> 'k \<Rightarrow> 'v option" is map_of .

lift_definition om_insert :: "'k::linorder \<Rightarrow> 'v \<Rightarrow> ('k, 'v) omap \<Rightarrow> ('k, 'v) omap"
  is al_insert by (rule al_sorted_insert)

lift_definition om_remove :: "'k::linorder \<Rightarrow> ('k, 'v) omap \<Rightarrow> ('k, 'v) omap"
  is al_remove by (rule al_sorted_remove)

lift_definition om_filter :: "('k::linorder \<Rightarrow> 'v \<Rightarrow> bool) \<Rightarrow> ('k, 'v) omap \<Rightarrow> ('k, 'v) omap"
  is "\<lambda>P. filter (\<lambda>(k, v). P k v)" by (rule al_sorted_filter)

lift_definition om_map :: "('k::linorder \<Rightarrow> 'v \<Rightarrow> 'w) \<Rightarrow> ('k, 'v) omap \<Rightarrow> ('k, 'w) omap"
  is "\<lambda>f. map (\<lambda>(k, v). (k, f k v))" by (simp add: comp_def case_prod_unfold)

definition om_keys :: "('k::linorder, 'v) omap \<Rightarrow> 'k list" where
  "om_keys m = map fst (om_entries m)"

definition om_values :: "('k::linorder, 'v) omap \<Rightarrow> 'v list" where
  "om_values m = map snd (om_entries m)"

definition om_contains :: "('k::linorder, 'v) omap \<Rightarrow> 'k \<Rightarrow> bool" where
  "om_contains m k = (om_lookup m k \<noteq> None)"

definition om_len :: "('k::linorder, 'v) omap \<Rightarrow> nat" where
  "om_len m = length (om_entries m)"

definition om_is_empty :: "('k::linorder, 'v) omap \<Rightarrow> bool" where
  "om_is_empty m = (om_entries m = [])"

text \<open>\<open>Extend\<close> and \<open>FromIterator\<close>: entries are inserted in order, later ones win.\<close>

definition om_extend :: "('k::linorder, 'v) omap \<Rightarrow> ('k \<times> 'v) list \<Rightarrow> ('k, 'v) omap" where
  "om_extend m xs = foldl (\<lambda>m (k, v). om_insert k v m) m xs"

definition om_of_list :: "('k::linorder \<times> 'v) list \<Rightarrow> ('k, 'v) omap" where
  "om_of_list xs = om_extend om_empty xs"

text \<open>Removal of a sequence of keys.\<close>

definition om_remove_all :: "'k::linorder list \<Rightarrow> ('k, 'v) omap \<Rightarrow> ('k, 'v) omap" where
  "om_remove_all ks m = foldl (\<lambda>m k. om_remove k m) m ks"

lemma om_lookup_entries: "om_lookup m = map_of (om_entries m)"
  by transfer simp

lemma om_entries_simps [simp]:
  "om_entries om_empty = []"
  "om_entries (om_insert k v m) = al_insert k v (om_entries m)"
  "om_entries (om_remove k m) = al_remove k (om_entries m)"
  "om_entries (om_filter P m) = filter (\<lambda>(k, v). P k v) (om_entries m)"
  "om_entries (om_map f m) = map (\<lambda>(k, v). (k, f k v)) (om_entries m)"
  by (transfer; simp)+

lemma om_lookup_empty [simp]: "om_lookup om_empty k = None"
  by transfer simp

lemma om_lookup_insert: "om_lookup (om_insert k v m) = (om_lookup m)(k \<mapsto> v)"
  by transfer (simp add: map_of_al_insert)

lemma om_lookup_insert_apply [simp]:
  "om_lookup (om_insert k v m) x = (if x = k then Some v else om_lookup m x)"
  by (simp add: om_lookup_insert)

lemma om_lookup_remove: "om_lookup (om_remove k m) = (om_lookup m)(k := None)"
  by transfer (simp add: map_of_al_remove)

lemma om_lookup_remove_apply [simp]:
  "om_lookup (om_remove k m) x = (if x = k then None else om_lookup m x)"
  by (simp add: om_lookup_remove)

lemma map_of_filter_fst:
  "distinct (map fst xs) \<Longrightarrow>
    map_of (filter (\<lambda>(k, v). P k v) xs) x =
      (case map_of xs x of None \<Rightarrow> None | Some v \<Rightarrow> if P x v then Some v else None)"
  by (induction xs) (auto split: option.splits simp: map_of_eq_None_iff image_iff)

lemma om_lookup_filter [simp]:
  "om_lookup (om_filter P m) x =
    (case om_lookup m x of None \<Rightarrow> None | Some v \<Rightarrow> if P x v then Some v else None)"
  by (simp add: om_lookup_entries map_of_filter_fst)

lemma map_of_map_pair:
  "map_of (map (\<lambda>(k, v). (k, f k v)) xs) x = map_option (f x) (map_of xs x)"
  by (induction xs) auto

lemma om_lookup_map [simp]: "om_lookup (om_map f m) x = map_option (f x) (om_lookup m x)"
  by (simp add: om_lookup_entries map_of_map_pair)

section \<open>Sums of values\<close>

definition om_sum :: "('v \<Rightarrow> nat) \<Rightarrow> ('k::linorder, 'v) omap \<Rightarrow> nat" where
  "om_sum f m = sum_list (map (\<lambda>p. f (snd p)) (om_entries m))"

text \<open>\<open>entry(k).and_modify(|x| *x += n).or_insert(n)\<close>.\<close>

definition add_amount :: "'k::linorder \<Rightarrow> nat \<Rightarrow> ('k, nat) omap \<Rightarrow> ('k, nat) omap" where
  "add_amount k n m =
    om_insert k (case om_lookup m k of Some x \<Rightarrow> x + n | None \<Rightarrow> n) m"

text \<open>\<open>get(k).copied().unwrap_or_default()\<close>.\<close>

definition amount_of :: "('k::linorder, nat) omap \<Rightarrow> 'k \<Rightarrow> nat" where
  "amount_of m k = (case om_lookup m k of Some x \<Rightarrow> x | None \<Rightarrow> 0)"

lemma al_sum_insert:
  assumes "al_sorted xs"
  shows "sum_list (map (\<lambda>p. f (snd p)) (al_insert k v xs)) +
      (case map_of xs k of Some w \<Rightarrow> f w | None \<Rightarrow> (0 :: nat)) =
    sum_list (map (\<lambda>p. f (snd p)) xs) + f v"
  using assms
proof (induction k v xs rule: al_insert.induct)
  case (2 k v k' v' xs)
  consider "k < k'" | "k = k'" | "k' < k" by (rule linorder_less_linear [THEN disjE]) auto
  then show ?case
  proof cases
    case 1
    then have "k \<notin> fst ` set xs" using "2.prems" by auto
    then have "map_of xs k = None" by (simp add: map_of_eq_None_iff)
    then show ?thesis using 1 by auto
  qed (use 2 in auto)
qed simp

lemma om_sum_empty [simp]: "om_sum f om_empty = 0"
  by (simp add: om_sum_def)

lemma om_sum_insert:
  "om_sum f (om_insert k v m) + (case om_lookup m k of Some w \<Rightarrow> f w | None \<Rightarrow> 0) = om_sum f m + f v"
  unfolding om_sum_def om_lookup_entries om_entries_simps by (rule al_sum_insert) simp

lemma om_sum_insert_new [simp]: "om_lookup m k = None \<Longrightarrow> om_sum f (om_insert k v m) = om_sum f m + f v"
  using om_sum_insert [of f k v m] by simp

lemma om_sum_map: "om_sum f (om_map g m) = sum_list (map (\<lambda>(k, v). f (g k v)) (om_entries m))"
  by (simp add: om_sum_def comp_def case_prod_unfold)

lemma om_sum_map_same: "(\<And>k v. f (g k v) = f v) \<Longrightarrow> om_sum f (om_map g m) = om_sum f m"
  by (simp add: om_sum_map) (simp add: om_sum_def case_prod_unfold)

lemma om_sum_add_amount [simp]: "om_sum id (add_amount k n m) = om_sum id m + n"
proof (cases "om_lookup m k")
  case (Some x)
  then show ?thesis using om_sum_insert [of id k "x + n" m] by (simp add: add_amount_def)
qed (simp add: add_amount_def)

lemma amount_of_add [simp]:
  "amount_of (add_amount k n m) x = amount_of m x + (if x = k then n else 0)"
  by (auto simp: amount_of_def add_amount_def split: option.splits)

lemma amount_of_empty [simp]: "amount_of om_empty x = 0"
  by (simp add: amount_of_def)

lemma om_sum_member: "om_lookup m k = Some v \<Longrightarrow> f v \<le> om_sum f m"
  unfolding om_sum_def om_lookup_entries
  by (rule member_le_sum_list) (force dest: map_of_SomeD, simp)

lemma om_eqI: "(\<And>k. om_lookup m k = om_lookup n k) \<Longrightarrow> m = n"
  using al_sorted_eqI [OF om_entries_sorted [of m] om_entries_sorted [of n]]
  by (simp add: om_lookup_entries fun_eq_iff om_entries_inject)

lemma om_entries_eq_iff: "om_entries m = om_entries n \<longleftrightarrow> m = n"
  by (rule om_entries_inject)

instantiation omap :: (linorder, equal) equal
begin

definition equal_omap :: "('a, 'b) omap \<Rightarrow> ('a, 'b) omap \<Rightarrow> bool" where
  "equal_omap m n = (om_entries m = om_entries n)"

instance
  by standard (simp add: equal_omap_def om_entries_inject)

end

lemma om_keys_set: "set (om_keys m) = {k. om_lookup m k \<noteq> None}"
  by (auto simp: om_keys_def om_lookup_entries map_of_eq_None_iff)

lemma om_keys_empty [simp]: "om_keys om_empty = []"
  by (simp add: om_keys_def)

lemma om_keys_sorted [simp]: "strict_sorted (om_keys m)"
  by (simp add: om_keys_def)

lemma om_entries_iff: "(k, v) \<in> set (om_entries m) \<longleftrightarrow> om_lookup m k = Some v"
  by (simp add: om_lookup_entries)

lemma om_is_empty_iff: "om_is_empty m \<longleftrightarrow> m = om_empty"
  by (metis om_entries_inject om_entries_simps(1) om_is_empty_def)

lemma om_extend_simps [simp]:
  "om_extend m [] = m"
  "om_extend m ((k, v) # xs) = om_extend (om_insert k v m) xs"
  by (simp_all add: om_extend_def)

lemma om_extend_append: "om_extend m (xs @ ys) = om_extend (om_extend m xs) ys"
  by (simp add: om_extend_def)

lemma om_lookup_extend:
  "om_lookup (om_extend m xs) = om_lookup m ++ map_of (rev xs)"
proof (induction xs arbitrary: m)
  case (Cons p xs)
  obtain k v where "p = (k, v)" by (cases p)
  with Cons show ?case by (simp add: om_lookup_insert map_add_upd_left [symmetric])
      (auto simp: map_add_def fun_eq_iff split: option.splits)
qed simp

lemma om_lookup_extend_entries:
  "om_lookup (om_extend m (om_entries n)) = om_lookup m ++ om_lookup n"
  by (simp add: om_lookup_extend map_of_rev_distinct om_lookup_entries [symmetric])

lemma om_remove_all_simps [simp]:
  "om_remove_all [] m = m"
  "om_remove_all (k # ks) m = om_remove_all ks (om_remove k m)"
  by (simp_all add: om_remove_all_def)

lemma om_lookup_remove_all [simp]:
  "om_lookup (om_remove_all ks m) x = (if x \<in> set ks then None else om_lookup m x)"
  by (induction ks arbitrary: m) auto

section \<open>Ordered sets\<close>

type_synonym 'a oset = "('a, unit) omap"

definition os_insert :: "'a::linorder \<Rightarrow> 'a oset \<Rightarrow> 'a oset" where
  "os_insert x s = om_insert x () s"

definition os_set :: "'a::linorder oset \<Rightarrow> 'a set" where
  "os_set s = {x. om_lookup s x \<noteq> None}"

lemma os_set_simps [simp]:
  "os_set om_empty = {}"
  "os_set (os_insert x s) = insert x (os_set s)"
  "os_set (om_remove x s) = os_set s - {x}"
  by (auto simp: os_set_def os_insert_def)

lemma os_eqI: "os_set s = os_set t \<Longrightarrow> s = t"
  by (rule om_eqI) (simp add: os_set_def set_eq_iff, metis (full_types) not_Some_eq old.unit.exhaust)

lemma om_contains_os_set: "om_contains s x \<longleftrightarrow> x \<in> os_set s"
  by (simp add: om_contains_def os_set_def)

lemma set_om_keys_os: "set (om_keys s) = os_set s"
  by (simp add: om_keys_set os_set_def)

definition os_extend :: "'a::linorder oset \<Rightarrow> 'a list \<Rightarrow> 'a oset" where
  "os_extend s xs = foldl (\<lambda>s x. os_insert x s) s xs"

lemma os_set_extend [simp]: "os_set (os_extend s xs) = os_set s \<union> set xs"
  by (induction xs arbitrary: s) (auto simp: os_extend_def)

section \<open>The contract of an ordered map\<close>

locale insert_map =
  fixes emp :: "'m"
    and get :: "'m \<Rightarrow> 'k::linorder \<Rightarrow> 'v option"
    and ins :: "'k \<Rightarrow> 'v \<Rightarrow> 'm \<Rightarrow> 'm"
    and ents :: "'m \<Rightarrow> ('k \<times> 'v) list"
    and inv :: "'m \<Rightarrow> bool"
  assumes inv_emp: "inv emp"
    and inv_ins: "inv m \<Longrightarrow> inv (ins k v m)"
    and get_emp: "get emp k = None"
    and get_ins: "inv m \<Longrightarrow> get (ins k v m) x = (if x = k then Some v else get m x)"
    and ents_sorted: "inv m \<Longrightarrow> al_sorted (ents m)"
    and ents_get: "inv m \<Longrightarrow> map_of (ents m) = get m"
begin

definition abs :: "'m \<Rightarrow> ('k, 'v) omap" where
  "abs m = om_of_list (ents m)"

lemma get_abs:
  assumes "inv m"
  shows "om_lookup (abs m) k = get m k"
proof -
  have d: "distinct (map fst (ents m))"
    using ents_sorted [OF assms] by (rule strict_sorted_distinct)
  then have "map_of (rev (ents m)) = map_of (ents m)"
    by (rule map_of_rev_distinct)
  then show ?thesis
    using ents_get [OF assms]
    by (simp add: abs_def om_of_list_def om_lookup_extend map_add_def split: option.split)
qed

lemma ents_abs:
  assumes "inv m"
  shows "om_entries (abs m) = ents m"
proof (rule al_sorted_eqI)
  show "map_of (om_entries (abs m)) = map_of (ents m)"
    using get_abs [OF assms] ents_get [OF assms] by (simp add: om_lookup_entries [symmetric] ext)
qed (simp_all add: ents_sorted assms)

lemma abs_emp: "abs emp = om_empty"
  by (rule om_eqI) (simp add: get_abs inv_emp get_emp)

lemma abs_ins: "inv m \<Longrightarrow> abs (ins k v m) = om_insert k v (abs m)"
  by (rule om_eqI) (simp add: get_abs inv_ins get_ins)

lemma ents_canonical:
  assumes "inv m" "inv n" "\<And>k. get m k = get n k"
  shows "ents m = ents n"
  using assms by (intro al_sorted_eqI) (simp_all add: ents_sorted ents_get ext)

lemma fold_ins:
  assumes "inv m"
  shows "inv (foldl (\<lambda>m (k, v). ins k v m) m xs) \<and>
    abs (foldl (\<lambda>m (k, v). ins k v m) m xs) = om_extend (abs m) xs"
  using assms
proof (induction xs arbitrary: m)
  case (Cons p xs)
  obtain k v where "p = (k, v)" by (cases p)
  with Cons show ?case by (simp add: inv_ins abs_ins)
qed simp

end

text \<open>Containers that also remove entries.\<close>

locale ordered_map = insert_map +
  fixes rem :: "'b \<Rightarrow> 'a \<Rightarrow> 'a"
  assumes inv_rem: "inv m \<Longrightarrow> inv (rem k m)"
    and get_rem: "inv m \<Longrightarrow> get (rem k m) x = (if x = k then None else get m x)"
begin

lemma abs_rem: "inv m \<Longrightarrow> abs (rem k m) = om_remove k (abs m)"
  by (rule om_eqI) (simp add: get_abs inv_rem get_rem)

end

interpretation om: ordered_map om_empty om_lookup om_insert om_entries "\<lambda>_. True" om_remove
  by unfold_locales (simp_all add: om_lookup_entries [symmetric])

text \<open>The contract of an ordered set.\<close>

locale ordered_set =
  fixes emp :: "'s"
    and mem :: "'s \<Rightarrow> 'a::linorder \<Rightarrow> bool"
    and ins :: "'a \<Rightarrow> 's \<Rightarrow> 's"
    and rem :: "'a \<Rightarrow> 's \<Rightarrow> 's"
    and elems :: "'s \<Rightarrow> 'a list"
    and inv :: "'s \<Rightarrow> bool"
  assumes inv_emp: "inv emp"
    and inv_ins: "inv s \<Longrightarrow> inv (ins x s)"
    and inv_rem: "inv s \<Longrightarrow> inv (rem x s)"
    and elems_emp: "elems emp = []"
    and mem_elems: "inv s \<Longrightarrow> mem s x \<longleftrightarrow> x \<in> set (elems s)"
    and elems_ins: "inv s \<Longrightarrow> set (elems (ins x s)) = insert x (set (elems s))"
    and elems_rem: "inv s \<Longrightarrow> set (elems (rem x s)) = set (elems s) - {x}"
    and elems_sorted: "inv s \<Longrightarrow> strict_sorted (elems s)"
begin

definition abs :: "'s \<Rightarrow> 'a oset" where
  "abs s = os_extend om_empty (elems s)"

lemma abs_set: "inv s \<Longrightarrow> os_set (abs s) = set (elems s)"
  by (simp add: abs_def)

lemma abs_ins: "inv s \<Longrightarrow> abs (ins x s) = os_insert x (abs s)"
  by (rule os_eqI) (simp add: abs_set inv_ins elems_ins)

lemma abs_rem: "inv s \<Longrightarrow> abs (rem x s) = om_remove x (abs s)"
  by (rule os_eqI) (simp add: abs_set inv_rem elems_rem)

lemma elems_abs:
  assumes "inv s"
  shows "om_keys (abs s) = elems s"
  using strict_sorted_equal [OF om_keys_sorted [of "abs s"] elems_sorted [OF assms]]
  by (simp add: abs_set assms set_om_keys_os)

end

interpretation os: ordered_set om_empty om_contains os_insert om_remove om_keys "\<lambda>_. True"
  by unfold_locales (auto simp: om_contains_os_set set_om_keys_os)

end
