(* ===== verification/Compact_Collections.thy ===== *)
theory Compact_Collections
  imports Ordered_Map
begin

text \<open>
  The program's own ordered containers
  (\<open>amaru-kernel/src/data_structures/compact_collections\<close> and
  \<open>sorted_pairs.rs\<close>): \<open>CompactMap\<close> and \<open>CompactSet\<close>, which keep up to \<open>N\<close>
  entries in a sorted vector searched by bisection and move them to a
  \<open>BTreeMap\<close> for good when a further entry arrives, and \<open>SortedPairs\<close>, a
  sorted vector.  The const parameter \<open>N\<close> is the argument \<open>n\<close>.  Each
  container is proved to implement the contract of an ordered map, which is
  what the volatile state relies on.
\<close>

section \<open>SmallSortedBuffer\<close>

type_synonym 'a small_sorted_buffer = "'a list"

text \<open>\<open>Vec::insert\<close> and \<open>Vec::remove\<close> at an index within bounds.\<close>

definition vec_insert :: "nat \<Rightarrow> 'a \<Rightarrow> 'a list \<Rightarrow> 'a list" where
  "vec_insert i x xs = take i xs @ x # drop i xs"

definition vec_remove :: "nat \<Rightarrow> 'a list \<Rightarrow> 'a list" where
  "vec_remove i xs = take i xs @ drop (Suc i) xs"

definition get_by :: "('a \<Rightarrow> 'k::linorder) \<Rightarrow> 'k \<Rightarrow> 'a small_sorted_buffer \<Rightarrow> 'a option" where
  "get_by key k xs =
    (case binary_search (map key xs) k of Inr i \<Rightarrow> Some (xs ! i) | Inl _ \<Rightarrow> None)"

definition remove_by ::
  "('a \<Rightarrow> 'k::linorder) \<Rightarrow> 'k \<Rightarrow> 'a small_sorted_buffer \<Rightarrow> 'a option \<times> 'a small_sorted_buffer" where
  "remove_by key k xs =
    (case binary_search (map key xs) k of
       Inr i \<Rightarrow> (Some (xs ! i), vec_remove i xs)
     | Inl _ \<Rightarrow> (None, xs))"

section \<open>CompactMap\<close>

text \<open>\<open>MapStorage\<close>: the small buffer or the tree.\<close>

type_synonym ('k, 'v) compact_map = "('k \<times> 'v) small_sorted_buffer + ('k, 'v) omap"

abbreviation Small :: "('k::linorder \<times> 'v) list \<Rightarrow> ('k, 'v) compact_map" where
  "Small \<equiv> Inl"

abbreviation Tree :: "('k::linorder, 'v) omap \<Rightarrow> ('k, 'v) compact_map" where
  "Tree \<equiv> Inr"

datatype cm_entry =
    OccupiedSmall nat
  | OccupiedTree
  | VacantSmall nat
  | VacantTree

definition cm_new :: "('k::linorder, 'v) compact_map" where
  "cm_new = Small []"

fun cm_len :: "('k::linorder, 'v) compact_map \<Rightarrow> nat" where
  "cm_len (Small xs) = length xs" |
  "cm_len (Tree t) = om_len t"

fun cm_get :: "('k::linorder, 'v) compact_map \<Rightarrow> 'k \<Rightarrow> 'v option" where
  "cm_get (Small xs) k = map_option snd (get_by fst k xs)" |
  "cm_get (Tree t) k = om_lookup t k"

definition cm_contains_key :: "('k::linorder, 'v) compact_map \<Rightarrow> 'k \<Rightarrow> bool" where
  "cm_contains_key m k = (cm_get m k \<noteq> None)"

fun entry :: "('k::linorder, 'v) compact_map \<Rightarrow> 'k \<Rightarrow> cm_entry" where
  "entry (Small xs) k =
    (case binary_search (map fst xs) k of Inr i \<Rightarrow> OccupiedSmall i | Inl i \<Rightarrow> VacantSmall i)" |
  "entry (Tree t) k = (if om_contains t k then OccupiedTree else VacantTree)"

text \<open>
  The loop of \<open>promote\<close> replaces a small storage by the collected tree and then
  returns it on its second iteration.
\<close>

fun promote :: "('k::linorder, 'v) compact_map \<Rightarrow> ('k, 'v) omap" where
  "promote (Tree t) = t" |
  "promote (Small xs) = om_of_list xs"

text \<open>\<open>OccupiedEntry::insert\<close>, \<open>OccupiedEntry::remove\<close> and \<open>VacantEntry::insert\<close>.\<close>

fun occupied_insert ::
  "cm_entry \<Rightarrow> 'k::linorder \<Rightarrow> 'v \<Rightarrow> ('k, 'v) compact_map \<Rightarrow> 'v option \<times> ('k, 'v) compact_map" where
  "occupied_insert (OccupiedSmall i) k v (Small xs) =
    (Some (snd (xs ! i)), Small (xs[i := (fst (xs ! i), v)]))" |
  "occupied_insert OccupiedTree k v (Tree t) = (om_lookup t k, Tree (om_insert k v t))" |
  "occupied_insert _ k v m = (None, m)"

fun occupied_remove ::
  "cm_entry \<Rightarrow> 'k::linorder \<Rightarrow> ('k, 'v) compact_map \<Rightarrow> 'v option \<times> ('k, 'v) compact_map" where
  "occupied_remove (OccupiedSmall i) k (Small xs) = (Some (snd (xs ! i)), Small (vec_remove i xs))" |
  "occupied_remove OccupiedTree k (Tree t) = (om_lookup t k, Tree (om_remove k t))" |
  "occupied_remove _ k m = (None, m)"

fun vacant_insert ::
  "nat \<Rightarrow> cm_entry \<Rightarrow> 'k::linorder \<Rightarrow> 'v \<Rightarrow> ('k, 'v) compact_map \<Rightarrow> ('k, 'v) compact_map" where
  "vacant_insert n (VacantSmall i) k v (Small xs) =
    (if n \<le> length xs then Tree (om_insert k v (promote (Small xs)))
     else Small (vec_insert i (k, v) xs))" |
  "vacant_insert n VacantTree k v (Tree t) = Tree (om_insert k v t)" |
  "vacant_insert n _ k v m = m"

definition cm_insert ::
  "nat \<Rightarrow> 'k::linorder \<Rightarrow> 'v \<Rightarrow> ('k, 'v) compact_map \<Rightarrow> 'v option \<times> ('k, 'v) compact_map" where
  "cm_insert n k v m =
    (case entry m k of
       OccupiedSmall i \<Rightarrow> occupied_insert (OccupiedSmall i) k v m
     | OccupiedTree \<Rightarrow> occupied_insert OccupiedTree k v m
     | VacantSmall i \<Rightarrow> (None, vacant_insert n (VacantSmall i) k v m)
     | VacantTree \<Rightarrow> (None, vacant_insert n VacantTree k v m))"

fun cm_remove :: "'k::linorder \<Rightarrow> ('k, 'v) compact_map \<Rightarrow> 'v option \<times> ('k, 'v) compact_map" where
  "cm_remove k (Small xs) =
    (let (r, xs') = remove_by fst k xs in (map_option snd r, Small xs'))" |
  "cm_remove k (Tree t) = (om_lookup t k, Tree (om_remove k t))"

fun cm_iter :: "('k::linorder, 'v) compact_map \<Rightarrow> ('k \<times> 'v) list" where
  "cm_iter (Small xs) = xs" |
  "cm_iter (Tree t) = om_entries t"

definition cm_eq :: "('k::linorder, 'v) compact_map \<Rightarrow> ('k, 'v) compact_map \<Rightarrow> bool" where
  "cm_eq a b = (cm_len a = cm_len b \<and> list_all (\<lambda>(x, y). x = y) (zip (cm_iter a) (cm_iter b)))"

text \<open>\<open>FromIterator\<close>; \<open>lower\<close> is the lower bound of the iterator's size hint.\<close>

definition cm_from_iter ::
  "nat \<Rightarrow> nat \<Rightarrow> ('k::linorder \<times> 'v) list \<Rightarrow> ('k, 'v) compact_map" where
  "cm_from_iter n lower xs =
    (if n < lower then Tree (om_of_list xs)
     else foldl (\<lambda>m (k, v). snd (cm_insert n k v m)) (Small []) xs)"

section \<open>CompactSet\<close>

type_synonym 'a compact_set = "'a small_sorted_buffer + 'a oset"

abbreviation SmallSet :: "'a::linorder list \<Rightarrow> 'a compact_set" where
  "SmallSet \<equiv> Inl"

abbreviation TreeSet :: "'a::linorder oset \<Rightarrow> 'a compact_set" where
  "TreeSet \<equiv> Inr"

fun cs_len :: "'a::linorder compact_set \<Rightarrow> nat" where
  "cs_len (SmallSet xs) = length xs" |
  "cs_len (TreeSet t) = om_len t"

fun cs_contains :: "'a::linorder compact_set \<Rightarrow> 'a \<Rightarrow> bool" where
  "cs_contains (SmallSet xs) x = (get_by id x xs \<noteq> None)" |
  "cs_contains (TreeSet t) x = om_contains t x"

fun cs_promote :: "'a::linorder compact_set \<Rightarrow> 'a oset" where
  "cs_promote (TreeSet t) = t" |
  "cs_promote (SmallSet xs) = os_extend om_empty xs"

fun cs_insert :: "nat \<Rightarrow> 'a::linorder \<Rightarrow> 'a compact_set \<Rightarrow> bool \<times> 'a compact_set" where
  "cs_insert n x (SmallSet xs) =
    (case binary_search (map id xs) x of
       Inr _ \<Rightarrow> (False, SmallSet xs)
     | Inl i \<Rightarrow>
         if length xs < n then (True, SmallSet (vec_insert i x xs))
         else (\<not> om_contains (cs_promote (SmallSet xs)) x,
               TreeSet (os_insert x (cs_promote (SmallSet xs)))))" |
  "cs_insert n x (TreeSet t) = (\<not> om_contains t x, TreeSet (os_insert x t))"

fun cs_remove :: "'a::linorder \<Rightarrow> 'a compact_set \<Rightarrow> bool \<times> 'a compact_set" where
  "cs_remove x (SmallSet xs) =
    (let (r, xs') = remove_by id x xs in (r \<noteq> None, SmallSet xs'))" |
  "cs_remove x (TreeSet t) = (om_contains t x, TreeSet (om_remove x t))"

fun cs_iter :: "'a::linorder compact_set \<Rightarrow> 'a list" where
  "cs_iter (SmallSet xs) = xs" |
  "cs_iter (TreeSet t) = om_keys t"

definition cs_from_iter :: "nat \<Rightarrow> nat \<Rightarrow> 'a::linorder list \<Rightarrow> 'a compact_set" where
  "cs_from_iter n lower xs =
    (if n < lower then TreeSet (os_extend om_empty xs)
     else foldl (\<lambda>s x. snd (cs_insert n x s)) (SmallSet []) xs)"

section \<open>SortedPairs\<close>

type_synonym ('k, 'v) sorted_pairs = "('k \<times> 'v) list"

definition sp_get :: "('k::linorder, 'v) sorted_pairs \<Rightarrow> 'k \<Rightarrow> 'v option" where
  "sp_get xs k =
    (case binary_search (map fst xs) k of Inr i \<Rightarrow> Some (snd (xs ! i)) | Inl _ \<Rightarrow> None)"

definition sp_contains_key :: "('k::linorder, 'v) sorted_pairs \<Rightarrow> 'k \<Rightarrow> bool" where
  "sp_contains_key xs k = is_ok (binary_search (map fst xs) k)"

definition sp_insert :: "'k::linorder \<Rightarrow> 'v \<Rightarrow> ('k, 'v) sorted_pairs \<Rightarrow> ('k, 'v) sorted_pairs" where
  "sp_insert k v xs =
    (case binary_search (map fst xs) k of
       Inr i \<Rightarrow> xs[i := (fst (xs ! i), v)]
     | Inl i \<Rightarrow> vec_insert i (k, v) xs)"

text \<open>\<open>push\<close> panics unless the key is after the last one.\<close>

text \<open>Writing through \<open>get_mut\<close>; a missing key is left alone.\<close>

definition sp_modify ::
  "'k::linorder \<Rightarrow> ('v \<Rightarrow> 'v) \<Rightarrow> ('k, 'v) sorted_pairs \<Rightarrow> ('k, 'v) sorted_pairs" where
  "sp_modify k f xs =
    (case binary_search (map fst xs) k of
       Inr i \<Rightarrow> xs[i := (fst (xs ! i), f (snd (xs ! i)))]
     | Inl _ \<Rightarrow> xs)"

text \<open>The conversion sorts; the order it gives equal keys is not specified.\<close>

definition sp_from :: "('k::linorder \<times> 'v) list \<Rightarrow> ('k, 'v) sorted_pairs" where
  "sp_from xs = sort_key fst xs"

definition sp_push ::
  "'k::linorder \<Rightarrow> 'v \<Rightarrow> ('k, 'v) sorted_pairs \<Rightarrow> ('k, 'v) sorted_pairs option" where
  "sp_push k v xs =
    (if xs \<noteq> [] \<and> \<not> fst (last xs) < k then None else Some (xs @ [(k, v)]))"

section \<open>The sorted buffer implements sorted association lists\<close>

lemma al_insert_split:
  assumes "\<forall>x \<in> fst ` set ys. x < k" "\<forall>x \<in> fst ` set zs. k < x"
  shows "al_insert k v (ys @ zs) = ys @ (k, v) # zs"
  using assms by (induction ys; cases zs) auto

lemma al_insert_split_eq:
  assumes "\<forall>x \<in> fst ` set ys. x < k"
  shows "al_insert k v (ys @ (k, w) # zs) = ys @ (k, v) # zs"
  using assms by (induction ys) auto

lemma bs_Err_split:
  assumes "al_sorted xs" "binary_search (map fst xs) k = Inl i"
  shows "\<forall>x \<in> fst ` set (take i xs). x < k" "\<forall>x \<in> fst ` set (drop i xs). k < x"
proof -
  have b: "i \<le> length xs" "\<And>j. j < i \<Longrightarrow> map fst xs ! j < k"
    "\<And>j. i \<le> j \<Longrightarrow> j < length xs \<Longrightarrow> k < map fst xs ! j"
    using binary_search_Err [OF assms] by auto
  show "\<forall>x \<in> fst ` set (take i xs). x < k"
  proof
    fix x assume "x \<in> fst ` set (take i xs)"
    then obtain j where "j < i" "x = fst (xs ! j)"
      by (auto simp: in_set_conv_nth)
    then show "x < k" using b(1) b(2) [of j] by simp
  qed
  show "\<forall>x \<in> fst ` set (drop i xs). k < x"
  proof
    fix x assume "x \<in> fst ` set (drop i xs)"
    then obtain j where "j < length xs - i" "x = fst (xs ! (i + j))"
      by (auto simp: in_set_conv_nth)
    then show "k < x" using b(3) [of "i + j"] by simp
  qed
qed

lemma bs_Ok_split:
  assumes "al_sorted xs" "binary_search (map fst xs) k = Inr i"
  shows "i < length xs" "fst (xs ! i) = k"
    "xs = take i xs @ (k, snd (xs ! i)) # drop (Suc i) xs"
    "\<forall>x \<in> fst ` set (take i xs). x < k" "k \<notin> fst ` set (drop (Suc i) xs)"
proof -
  show i: "i < length xs" and k: "fst (xs ! i) = k"
    using binary_search_Ok [OF assms] by auto
  show eq: "xs = take i xs @ (k, snd (xs ! i)) # drop (Suc i) xs"
    using id_take_nth_drop [OF i] k by (metis prod.collapse)
  have "al_sorted (take i xs @ (k, snd (xs ! i)) # drop (Suc i) xs)"
    using assms(1) eq by simp
  then show "\<forall>x \<in> fst ` set (take i xs). x < k" "k \<notin> fst ` set (drop (Suc i) xs)"
    by (auto simp: strict_sorted_append_iff)
qed

lemma vec_insert_al_insert:
  assumes "al_sorted xs" "binary_search (map fst xs) k = Inl i"
  shows "vec_insert i (k, v) xs = al_insert k v xs"
  using al_insert_split [OF bs_Err_split [OF assms], of v] by (simp add: vec_insert_def)

lemma vec_update_al_insert:
  assumes "al_sorted xs" "binary_search (map fst xs) k = Inr i"
  shows "xs[i := (fst (xs ! i), v)] = al_insert k v xs"
proof -
  note s = bs_Ok_split [OF assms]
  have "al_insert k v xs = take i xs @ (k, v) # drop (Suc i) xs"
    using al_insert_split_eq [OF s(4), of v "snd (xs ! i)" "drop (Suc i) xs"] s(3) by simp
  then show ?thesis using s(1,2) by (simp add: upd_conv_take_nth_drop)
qed

lemma al_remove_notin: "k \<notin> fst ` set xs \<Longrightarrow> al_remove k xs = xs"
  by (auto simp: al_remove_def filter_id_conv image_iff)

lemma vec_remove_al_remove:
  assumes "al_sorted xs" "binary_search (map fst xs) k = Inr i"
  shows "vec_remove i xs = al_remove k xs"
proof -
  note s = bs_Ok_split [OF assms]
  have "k \<notin> fst ` set (take i xs)" using s(4) by auto
  then have "al_remove k (take i xs @ (k, snd (xs ! i)) # drop (Suc i) xs) = vec_remove i xs"
    using al_remove_notin [of k "take i xs"] al_remove_notin [OF s(5)]
    by (simp add: al_remove_def vec_remove_def)
  then show ?thesis using s(3) by simp
qed

lemma bs_Err_notin:
  assumes "al_sorted xs" "binary_search (map fst xs) k = Inl i"
  shows "k \<notin> fst ` set xs"
  using binary_search_iff [OF assms(1), of k] assms(2) by simp

lemma bs_map_of:
  assumes "al_sorted xs"
  shows "map_of xs k =
    (case binary_search (map fst xs) k of Inr i \<Rightarrow> Some (snd (xs ! i)) | Inl _ \<Rightarrow> None)"
proof (cases "binary_search (map fst xs) k")
  case (Inl i)
  then show ?thesis using bs_Err_notin [OF assms Inl] by (simp add: map_of_eq_None_iff)
next
  case (Inr i)
  note s = bs_Ok_split [OF assms Inr]
  have "(k, snd (xs ! i)) \<in> set xs" using s(1,2) by (metis nth_mem prod.collapse)
  then show ?thesis
    using Inr assms by (simp add: strict_sorted_distinct)
qed

lemma get_by_fst: "al_sorted xs \<Longrightarrow> map_option snd (get_by fst k xs) = map_of xs k"
  by (simp add: get_by_def bs_map_of split: sum.split)

lemma remove_by_fst:
  "al_sorted xs \<Longrightarrow> map_option snd (fst (remove_by fst k xs)) = map_of xs k"
  "al_sorted xs \<Longrightarrow> snd (remove_by fst k xs) = al_remove k xs"
  by (auto simp: remove_by_def bs_map_of vec_remove_al_remove al_remove_notin
      dest: bs_Err_notin split: sum.split)

section \<open>CompactMap implements an ordered map\<close>

fun cm_ok :: "nat \<Rightarrow> ('k::linorder, 'v) compact_map \<Rightarrow> bool" where
  "cm_ok n (Inl xs) = (al_sorted xs \<and> length xs \<le> n)" |
  "cm_ok n (Inr t) = True"

lemma om_of_list_sorted: "al_sorted xs \<Longrightarrow> om_entries (om_of_list xs) = xs"
  by (rule al_sorted_eqI)
    (simp_all add: om_lookup_entries [symmetric] om_of_list_def om_lookup_extend
      map_of_rev_distinct strict_sorted_distinct map_add_def fun_eq_iff split: option.split)

lemma cm_iter_insert:
  assumes "cm_ok n m"
  shows "cm_ok n (snd (cm_insert n k v m)) \<and>
    cm_iter (snd (cm_insert n k v m)) = al_insert k v (cm_iter m)"
proof (cases m)
  case (Inl xs)
  then have s: "al_sorted xs" "length xs \<le> n" using assms by simp_all
  show ?thesis
  proof (cases "binary_search (map fst xs) k")
    case Inr
    then show ?thesis
      using s Inl vec_update_al_insert [OF s(1) Inr, of v] al_sorted_insert [OF s(1), of k v]
      by (simp add: cm_insert_def) (metis length_list_update)
  next
    case (Inl i)
    have "length (vec_insert i (k, v) xs) = Suc (length xs)"
      by (simp add: vec_insert_def)
    then show ?thesis
      using s \<open>m = Small xs\<close> vec_insert_al_insert [OF s(1) Inl, of v] Inl
        al_sorted_insert [OF s(1), of k v]
      by (auto simp: cm_insert_def om_of_list_sorted)
  qed
qed (simp add: cm_insert_def)

lemma cm_iter_remove:
  assumes "cm_ok n m"
  shows "cm_ok n (snd (cm_remove k m)) \<and>
    cm_iter (snd (cm_remove k m)) = al_remove k (cm_iter m)"
  using assms
  by (cases m)
    (auto simp: remove_by_fst al_sorted_remove case_prod_unfold al_remove_def
      intro: le_trans [OF length_filter_le] al_sorted_filter)

lemma cm_get_iter: "cm_ok n m \<Longrightarrow> cm_get m k = map_of (cm_iter m) k"
  by (cases m) (auto simp: get_by_fst om_lookup_entries)

lemma cm_iter_sorted: "cm_ok n m \<Longrightarrow> al_sorted (cm_iter m)"
  by (cases m) auto

lemma cm_len_iter: "cm_len m = length (cm_iter m)"
  by (cases m) (auto simp: om_len_def)

lemma cm_insert_result: "cm_ok n m \<Longrightarrow> fst (cm_insert n k v m) = cm_get m k"
  by (cases m)
    (auto simp: cm_insert_def get_by_def om_contains_def split: sum.split cm_entry.split)

lemma cm_remove_result: "cm_ok n m \<Longrightarrow> fst (cm_remove k m) = cm_get m k"
  by (cases m) (auto simp: case_prod_unfold remove_by_fst get_by_fst)

interpretation cm: ordered_map cm_new cm_get "\<lambda>k v m. snd (cm_insert n k v m)"
  cm_iter "cm_ok n" "\<lambda>k m. snd (cm_remove k m)" for n
proof unfold_locales
  fix m :: "('a, 'b) compact_map" and k x :: 'a and v :: 'b
  assume ok: "cm_ok n m"
  show "cm_get (snd (cm_insert n k v m)) x = (if x = k then Some v else cm_get m x)"
    using cm_iter_insert [OF ok, of k v] cm_iter_sorted [OF ok]
    by (simp add: cm_get_iter [of n] ok map_of_al_insert)
  show "cm_get (snd (cm_remove k m)) x = (if x = k then None else cm_get m x)"
    using cm_iter_remove [OF ok, of k] by (simp add: cm_get_iter [of n] ok map_of_al_remove)
  show "map_of (cm_iter m) = cm_get m"
    using cm_get_iter [OF ok] by (simp add: fun_eq_iff)
qed (auto simp: cm_new_def get_by_def binary_search_def cm_iter_insert cm_iter_remove cm_iter_sorted)

section \<open>CompactSet implements an ordered set\<close>

fun cs_ok :: "nat \<Rightarrow> 'a::linorder compact_set \<Rightarrow> bool" where
  "cs_ok n (Inl xs) = (strict_sorted xs \<and> length xs \<le> n)" |
  "cs_ok n (Inr t) = True"

lemma vec_insert_sorted:
  assumes "strict_sorted xs" "binary_search xs x = Inl i"
  shows "strict_sorted (vec_insert i x xs)" "set (vec_insert i x xs) = insert x (set xs)"
    "length (vec_insert i x xs) = Suc (length xs)" "x \<notin> set xs"
proof -
  let ?ys = "map (\<lambda>x. (x, ())) xs"
  have ys: "map fst ?ys = xs" by (simp add: comp_def)
  have "vec_insert i (x, ()) ?ys = al_insert x () ?ys"
    using vec_insert_al_insert [of ?ys x i "()"] assms ys by simp
  moreover have "map fst (vec_insert i (x, ()) ?ys) = vec_insert i x xs"
    by (simp add: vec_insert_def take_map drop_map comp_def)
  ultimately have eq: "vec_insert i x xs = map fst (al_insert x () ?ys)" by simp
  show "strict_sorted (vec_insert i x xs)"
    using al_sorted_insert [of ?ys x "()"] assms(1) ys eq by simp
  show "set (vec_insert i x xs) = insert x (set xs)"
    using set_al_insert_keys [of x "()" ?ys] eq by (simp add: image_image)
  show "length (vec_insert i x xs) = Suc (length xs)"
    by (simp add: vec_insert_def)
  show "x \<notin> set xs"
    using binary_search_iff [OF assms(1), of x] assms(2) by simp
qed

lemma vec_remove_sorted:
  assumes "strict_sorted xs" "binary_search xs x = Inr i"
  shows "strict_sorted (vec_remove i xs)" "set (vec_remove i xs) = set xs - {x}"
    "length (vec_remove i xs) \<le> length xs"
proof -
  let ?ys = "map (\<lambda>x. (x, ())) xs"
  have ys: "map fst ?ys = xs" by (simp add: comp_def)
  have "vec_remove i ?ys = al_remove x ?ys"
    using vec_remove_al_remove [of ?ys x i] assms ys by simp
  moreover have "map fst (vec_remove i ?ys) = vec_remove i xs"
    by (simp add: vec_remove_def take_map drop_map comp_def)
  ultimately have eq: "vec_remove i xs = map fst (al_remove x ?ys)" by simp
  show "strict_sorted (vec_remove i xs)"
    using al_sorted_remove [of ?ys x] assms(1) ys eq by simp
  show "set (vec_remove i xs) = set xs - {x}"
    using eq by (auto simp: al_remove_def image_def)
  show "length (vec_remove i xs) \<le> length xs"
    by (simp add: vec_remove_def)
qed

lemma get_by_id: "strict_sorted xs \<Longrightarrow> get_by id x xs \<noteq> None \<longleftrightarrow> x \<in> set xs"
  using binary_search_iff [of xs x] by (auto simp: get_by_def split: sum.splits)

lemma cs_insert_correct:
  assumes "cs_ok n s"
  shows "cs_ok n (snd (cs_insert n x s)) \<and>
    set (cs_iter (snd (cs_insert n x s))) = insert x (set (cs_iter s)) \<and>
    (fst (cs_insert n x s) \<longleftrightarrow> x \<notin> set (cs_iter s))"
proof (cases s)
  case (Inl xs)
  then have xs: "strict_sorted xs" "length xs \<le> n" "s = SmallSet xs" using assms by simp_all
  show ?thesis
  proof (cases "binary_search xs x")
    case (Inl i)
    then show ?thesis using xs vec_insert_sorted [OF xs(1) Inl] by (simp add: om_contains_os_set set_om_keys_os)
  next
    case (Inr i)
    then show ?thesis using xs binary_search_Ok [OF xs(1) Inr] by (auto simp: insert_absorb)
  qed
qed (auto simp: om_contains_os_set set_om_keys_os)

lemma cs_remove_correct:
  assumes "cs_ok n s"
  shows "cs_ok n (snd (cs_remove x s)) \<and>
    set (cs_iter (snd (cs_remove x s))) = set (cs_iter s) - {x} \<and>
    (fst (cs_remove x s) \<longleftrightarrow> x \<in> set (cs_iter s))"
proof (cases s)
  case (Inl xs)
  then have xs: "strict_sorted xs" "length xs \<le> n" "s = SmallSet xs" using assms by simp_all
  show ?thesis
  proof (cases "binary_search xs x")
    case (Inl i)
    then show ?thesis
      using xs binary_search_iff [OF xs(1), of x] by (simp add: remove_by_def)
  next
    case (Inr i)
    then show ?thesis
      using xs binary_search_iff [OF xs(1), of x] vec_remove_sorted [OF xs(1) Inr]
      by (simp add: remove_by_def)
  qed
qed (auto simp: om_contains_os_set set_om_keys_os)

interpretation cs: ordered_set "SmallSet []" cs_contains "\<lambda>x s. snd (cs_insert n x s)"
  "\<lambda>x s. snd (cs_remove x s)" cs_iter "cs_ok n" for n
proof unfold_locales
  fix s :: "'a compact_set" and x :: 'a
  assume "cs_ok n s"
  then show "cs_contains s x \<longleftrightarrow> x \<in> set (cs_iter s)" "strict_sorted (cs_iter s)"
    using get_by_id [of _ x] by (cases s; simp add: om_contains_os_set set_om_keys_os)+
qed (simp_all add: cs_insert_correct cs_remove_correct del: cs_insert.simps cs_remove.simps)

section \<open>SortedPairs implements an insertion map\<close>

lemma sp_insert_al_insert: "al_sorted xs \<Longrightarrow> sp_insert k v xs = al_insert k v xs"
  by (simp add: sp_insert_def vec_insert_al_insert vec_update_al_insert split: sum.split)

lemma sp_get_map_of: "al_sorted xs \<Longrightarrow> sp_get xs k = map_of xs k"
  by (simp add: sp_get_def bs_map_of)

lemma sp_modify_map:
  assumes "al_sorted xs"
  shows "sp_modify k f xs = map (\<lambda>(x, v). (x, if x = k then f v else v)) xs"
proof (cases "binary_search (map fst xs) k")
  case (Inl i)
  then have "k \<notin> fst ` set xs" using binary_search_iff [OF assms, of k] by simp
  then have "map (\<lambda>(x, v). (x, if x = k then f v else v)) xs = xs"
    by (intro map_idI) force
  then show ?thesis using Inl by (simp add: sp_modify_def)
next
  case (Inr i)
  then have i: "i < length xs" "fst (xs ! i) = k" using binary_search_Ok [OF assms Inr] by auto
  have "fst (xs ! j) = k \<longleftrightarrow> j = i" if "j < length xs" for j
    using i that strict_sorted_nth_less [OF assms, of i j] strict_sorted_nth_less [OF assms, of j i]
    by (metis length_map less_irrefl linorder_neqE_nat nth_map)
  then show ?thesis using i Inr
    by (intro nth_equalityI) (auto simp: sp_modify_def nth_list_update case_prod_beta)
qed

lemma al_sorted_sp_modify [simp]: "al_sorted xs \<Longrightarrow> al_sorted (sp_modify k f xs)"
  by (simp add: sp_modify_map comp_def case_prod_beta)

lemma al_sorted_sp_from:
  assumes "distinct (map fst xs)"
  shows "al_sorted (sp_from xs)"
proof -
  have "sorted (map fst (sp_from xs))" by (simp add: sp_from_def)
  moreover have "distinct (map fst (sp_from xs))"
    using assms by (simp add: sp_from_def distinct_map)
  ultimately show ?thesis by (simp add: strict_sorted_iff)
qed

lemma sp_from_entries [simp]: "set (sp_from xs) = set xs" "length (sp_from xs) = length xs"
  by (simp_all add: sp_from_def)

section \<open>VecSet\<close>

text \<open>A set as a strictly sorted vector, checked on the way in and searched by bisection.\<close>

definition vs_contains :: "'a::linorder list \<Rightarrow> 'a \<Rightarrow> bool" where
  "vs_contains xs x = is_ok (binary_search xs x)"

definition vs_try_from :: "'a::linorder list \<Rightarrow> 'a list option" where
  "vs_try_from xs =
    (let ys = sort xs
     in if list_ex (\<lambda>(a, b). a = b) (zip ys (tl ys)) then None else Some ys)"

lemma vs_contains_iff: "strict_sorted xs \<Longrightarrow> vs_contains xs x \<longleftrightarrow> x \<in> set xs"
  by (simp add: vs_contains_def binary_search_iff)

lemma sorted_adjacent_distinct:
  fixes ys :: "'a::linorder list"
  assumes "sorted ys"
  shows "\<not> list_ex (\<lambda>(a, b). a = b) (zip ys (tl ys)) \<longleftrightarrow> strict_sorted ys"
  using assms
proof (induction ys)
  case (Cons y ys)
  show ?case
  proof (cases ys)
    case (Cons z zs)
    then have "\<not> list_ex (\<lambda>(a, b). a = b) (zip (y # ys) (tl (y # ys))) \<longleftrightarrow> y \<noteq> z \<and> strict_sorted ys"
      using Cons.IH Cons.prems by simp
    also have "\<dots> \<longleftrightarrow> strict_sorted (y # ys)"
      using Cons.prems Cons by (auto simp: strict_sorted_iff)
    finally show ?thesis .
  qed simp
qed simp

lemma vs_try_from_spec:
  "vs_try_from xs = (if distinct xs then Some (sort xs) else None)"
  using sorted_adjacent_distinct [of "sort xs"]
  by (auto simp: vs_try_from_def Let_def strict_sorted_iff)

interpretation sp: insert_map "[]" sp_get sp_insert "\<lambda>xs. xs" al_sorted
  by unfold_locales
    (simp_all add: sp_insert_al_insert sp_get_map_of al_sorted_insert map_of_al_insert fun_eq_iff)

section \<open>Observational equivalence\<close>

text \<open>
  A client that inserts and removes sees the results of each call and the
  entries it iterates over; it cannot tell a compact container from the tree.
\<close>

datatype ('k, 'v) map_op = MInsert 'k 'v | MRemove 'k

fun cm_run ::
  "nat \<Rightarrow> ('k::linorder, 'v) map_op list \<Rightarrow> ('k, 'v) compact_map \<Rightarrow>
    'v option list \<times> ('k, 'v) compact_map" where
  "cm_run n [] m = ([], m)" |
  "cm_run n (MInsert k v # ops) m =
    (let (r, m') = cm_insert n k v m; (rs, m'') = cm_run n ops m' in (r # rs, m''))" |
  "cm_run n (MRemove k # ops) m =
    (let (r, m') = cm_remove k m; (rs, m'') = cm_run n ops m' in (r # rs, m''))"

fun om_run ::
  "('k::linorder, 'v) map_op list \<Rightarrow> ('k, 'v) omap \<Rightarrow> 'v option list \<times> ('k, 'v) omap" where
  "om_run [] m = ([], m)" |
  "om_run (MInsert k v # ops) m =
    (let (rs, m') = om_run ops (om_insert k v m) in (om_lookup m k # rs, m'))" |
  "om_run (MRemove k # ops) m =
    (let (rs, m') = om_run ops (om_remove k m) in (om_lookup m k # rs, m'))"

datatype 'a set_op = SInsert 'a | SRemove 'a

fun cs_run ::
  "nat \<Rightarrow> 'a::linorder set_op list \<Rightarrow> 'a compact_set \<Rightarrow> bool list \<times> 'a compact_set" where
  "cs_run n [] s = ([], s)" |
  "cs_run n (SInsert x # ops) s =
    (let (r, s') = cs_insert n x s; (rs, s'') = cs_run n ops s' in (r # rs, s''))" |
  "cs_run n (SRemove x # ops) s =
    (let (r, s') = cs_remove x s; (rs, s'') = cs_run n ops s' in (r # rs, s''))"

fun os_run :: "'a::linorder set_op list \<Rightarrow> 'a oset \<Rightarrow> bool list \<times> 'a oset" where
  "os_run [] s = ([], s)" |
  "os_run (SInsert x # ops) s =
    (let (rs, s') = os_run ops (os_insert x s) in ((\<not> om_contains s x) # rs, s'))" |
  "os_run (SRemove x # ops) s =
    (let (rs, s') = os_run ops (om_remove x s) in (om_contains s x # rs, s'))"

lemma cm_run_simulates:
  assumes "cm_ok n m"
  shows "cm_ok n (snd (cm_run n ops m)) \<and>
    fst (cm_run n ops m) = fst (om_run ops (cm.abs m)) \<and>
    cm.abs (snd (cm_run n ops m)) = snd (om_run ops (cm.abs m))"
  using assms
proof (induction n ops m rule: cm_run.induct)
  case (2 n k v ops m)
  have IH: "cm_ok n (snd (cm_run n ops (snd (cm_insert n k v m)))) \<and>
    fst (cm_run n ops (snd (cm_insert n k v m))) = fst (om_run ops (om_insert k v (cm.abs m))) \<and>
    cm.abs (snd (cm_run n ops (snd (cm_insert n k v m)))) =
      snd (om_run ops (om_insert k v (cm.abs m)))"
    using "2.IH" [OF refl prod.collapse] cm.inv_ins [OF "2.prems", of k v]
      cm.abs_ins [OF "2.prems", of k v] by simp
  then show ?case
    using cm_insert_result [OF "2.prems", of k v] cm.get_abs [OF "2.prems", of k]
    by (simp add: case_prod_unfold Let_def)
next
  case (3 n k ops m)
  have IH: "cm_ok n (snd (cm_run n ops (snd (cm_remove k m)))) \<and>
    fst (cm_run n ops (snd (cm_remove k m))) = fst (om_run ops (om_remove k (cm.abs m))) \<and>
    cm.abs (snd (cm_run n ops (snd (cm_remove k m)))) = snd (om_run ops (om_remove k (cm.abs m)))"
    using "3.IH" [OF refl prod.collapse] cm.inv_rem [OF "3.prems", of k]
      cm.abs_rem [OF "3.prems", of k] by simp
  then show ?case
    using cm_remove_result [OF "3.prems", of k] cm.get_abs [OF "3.prems", of k]
    by (simp add: case_prod_unfold Let_def)
qed simp

lemma cs_run_simulates:
  assumes "cs_ok n s"
  shows "cs_ok n (snd (cs_run n ops s)) \<and>
    fst (cs_run n ops s) = fst (os_run ops (cs.abs s)) \<and>
    cs.abs (snd (cs_run n ops s)) = snd (os_run ops (cs.abs s))"
  using assms
proof (induction n ops s rule: cs_run.induct)
  case (2 n x ops s)
  then show ?case
    using cs_insert_correct [OF "2.prems", of x] cs.abs_ins [OF "2.prems", of x]
      cs.abs_set [OF "2.prems"] "2.IH" [OF refl prod.collapse]
    by (simp add: case_prod_unfold Let_def om_contains_os_set set_om_keys_os)
next
  case (3 n x ops s)
  then show ?case
    using cs_remove_correct [OF "3.prems", of x] cs.abs_rem [OF "3.prems", of x]
      cs.abs_set [OF "3.prems"] "3.IH" [OF refl prod.collapse]
    by (simp add: case_prod_unfold Let_def om_contains_os_set set_om_keys_os)
qed simp

lemma cs_abs_new: "cs.abs (SmallSet []) = om_empty"
  by (simp add: cs.abs_def os_extend_def)

lemma list_all_zip_eq_iff:
  "length xs = length ys \<Longrightarrow> list_all (\<lambda>(x, y). x = y) (zip xs ys) \<longleftrightarrow> xs = ys"
  by (induction xs ys rule: list_induct2) auto

lemma cm_eq_iff: "cm_eq a b \<longleftrightarrow> cm_iter a = cm_iter b"
  using list_all_zip_eq_iff [of "cm_iter a" "cm_iter b"] by (auto simp: cm_eq_def cm_len_iter)

text \<open>
  C10. Any sequence of insertions and removals on a new \<open>CompactMap\<close> of any
  threshold \<open>N\<close> returns, call by call, what the same sequence returns on a
  \<open>BTreeMap\<close>, ends with the same entries in the same order, and answers every
  lookup alike; the flat buffer never holds more than \<open>N\<close> entries.
\<close>
theorem compact_map_refines_btree_map:
  "fst (cm_run n ops cm_new) = fst (om_run ops om_empty) \<and>
   cm_iter (snd (cm_run n ops cm_new)) = om_entries (snd (om_run ops om_empty)) \<and>
   cm_get (snd (cm_run n ops cm_new)) k = om_lookup (snd (om_run ops om_empty)) k \<and>
   cm_ok n (snd (cm_run n ops cm_new))"
  using cm_run_simulates [OF cm.inv_emp, of n ops]
    cm.ents_abs [of n "snd (cm_run n ops cm_new)"]
    cm.get_abs [of n "snd (cm_run n ops cm_new)" k] by (simp add: cm.abs_emp)

text \<open>
  Any sequence of insertions and removals on a new \<open>CompactSet\<close> returns,
  call by call, what it returns on a \<open>BTreeSet\<close> and ends with the same elements
  in the same order.
\<close>
theorem compact_set_refines_btree_set:
  "fst (cs_run n ops (SmallSet [])) = fst (os_run ops om_empty) \<and>
   cs_iter (snd (cs_run n ops (SmallSet []))) = om_keys (snd (os_run ops om_empty)) \<and>
   cs_ok n (snd (cs_run n ops (SmallSet [])))"
  using cs_run_simulates [OF cs.inv_emp, of n ops]
    cs.elems_abs [of n "snd (cs_run n ops (SmallSet []))"] by (simp add: cs_abs_new)

text \<open>
  Collecting an iterator into a \<open>CompactMap\<close> (\<open>from_iter\<close>) gives the map
  with the last value of every key whichever storage is chosen, and equality of
  compact maps compares contents, not storage: a collected map equals the map
  the same entries are inserted into one by one, promoted or not.
\<close>
theorem compact_map_from_iter_content:
  "cm_get (cm_from_iter n lower xs) k = map_of (rev xs) k \<and>
   cm_eq (cm_from_iter n lower xs) (foldl (\<lambda>m (k, v). snd (cm_insert n' k v m)) cm_new xs)"
proof -
  have fold: "cm_ok a (foldl (\<lambda>m (k, v). snd (cm_insert a k v m)) cm_new xs)"
    "cm_get (foldl (\<lambda>m (k, v). snd (cm_insert a k v m)) cm_new xs) x = map_of (rev xs) x" for a x
    using cm.fold_ins [OF cm.inv_emp, of a xs]
      cm.get_abs [of a "foldl (\<lambda>m (k, v). snd (cm_insert a k v m)) cm_new xs" x]
    by (simp_all add: cm.abs_emp om_lookup_extend map_add_def split: option.splits)
  have get: "cm_get (cm_from_iter n lower xs) x = map_of (rev xs) x" for x
    using fold(2) [of n x]
    by (simp add: cm_from_iter_def om_of_list_def om_lookup_extend map_add_def cm_new_def
        split: option.split)
  have ok: "\<exists>a. cm_ok a (cm_from_iter n lower xs)"
    using fold(1) [of n] by (auto simp: cm_from_iter_def cm_new_def)
  have "cm_iter (cm_from_iter n lower xs) =
    cm_iter (foldl (\<lambda>m (k, v). snd (cm_insert n' k v m)) cm_new xs)"
    using ok fold(1) [of n'] get fold(2) [of n']
    by (auto intro!: al_sorted_eqI simp: cm_iter_sorted cm.ents_get ext)
  then show ?thesis using get by (simp add: cm_eq_iff)
qed

end
