(* ===== verification/Kernel_Types.thy ===== *)
theory Kernel_Types
  imports Ordered_Map Complex_Main "HOL-Library.Product_Lexorder"
begin

text \<open>
  The identifiers and small values the ledger components share
  (\<open>amaru-kernel/src/cardano\<close>).  Hashes are natural numbers, since the code only
  compares them, and with a fixed width their byte order is the order of
  numbers.  Every type used as a key of an ordered container carries the order
  that Rust derives for it: first the position of the variant, then its fields
  from left to right.  \<open>RationalNumber\<close>, with its normalising constructor and
  its comparison by cross multiplication, and \<open>TreasuryDelta\<close> are modelled with
  their operations.
\<close>

section \<open>Identifiers\<close>

type_synonym hash = nat
type_synonym lovelace = nat
type_synonym slot = nat
type_synonym epoch = nat
type_synonym pool_id = hash
type_synonym tx_input = "hash \<times> nat"
type_synonym proposal_id = "hash \<times> nat"
type_synonym tx_pointer = "slot \<times> nat"
type_synonym cert_pointer = "tx_pointer \<times> nat"
type_synonym proposal_pointer = "tx_pointer \<times> nat"

datatype credential = ScriptHash hash | KeyHash hash

fun credential_rank :: "credential \<Rightarrow> nat \<times> hash" where
  "credential_rank (ScriptHash h) = (0, h)" |
  "credential_rank (KeyHash h) = (1, h)"

datatype drep = DRepKey hash | DRepScript hash | DRepAbstain | DRepNoConfidence

fun drep_rank :: "drep \<Rightarrow> nat \<times> hash" where
  "drep_rank (DRepKey h) = (0, h)" |
  "drep_rank (DRepScript h) = (1, h)" |
  "drep_rank DRepAbstain = (2, 0)" |
  "drep_rank DRepNoConfidence = (3, 0)"

datatype voter =
    VoterCCScript hash
  | VoterCCKey hash
  | VoterDRepScript hash
  | VoterDRepKey hash
  | VoterStakePool pool_id

fun voter_rank :: "voter \<Rightarrow> nat \<times> hash" where
  "voter_rank (VoterCCScript h) = (0, h)" |
  "voter_rank (VoterCCKey h) = (1, h)" |
  "voter_rank (VoterDRepScript h) = (2, h)" |
  "voter_rank (VoterDRepKey h) = (3, h)" |
  "voter_rank (VoterStakePool h) = (4, h)"

text \<open>A point of the chain: the origin, or a slot, a header hash and a height.\<close>

datatype point = Origin | Specific slot hash nat

fun point_rank :: "point \<Rightarrow> nat \<times> slot \<times> hash \<times> nat" where
  "point_rank Origin = (0, 0, 0, 0)" |
  "point_rank (Specific s h b) = (1, s, h, b)"

fun point_slot :: "point \<Rightarrow> slot" where
  "point_slot Origin = 0" |
  "point_slot (Specific s h b) = s"

datatype vote = VoteNo | VoteYes | VoteAbstain

type_synonym ballot_id = "proposal_id \<times> voter"

datatype ratification_status = Ratified | NotRatified

datatype cc_status = CCStatusNoConfidence | Trusted rat

datatype cc_member_status = DelegatedToHotCredential credential | Resigned

record drep_registration =
  dr_deposit :: lovelace
  dr_registered_at :: cert_pointer
  dr_valid_until :: epoch

text \<open>A network tag (\<open>False\<close> is a test network, which sorts first) and a credential.\<close>

type_synonym reward_account = "bool \<times> credential"

type_synonym anchor = "hash \<times> string"

type_synonym ballot = "vote \<times> anchor option"

text \<open>
  The parameters of a stake pool that the ledger reads.  Relays and metadata are
  carried along by the code and never consulted, so they are left out.
\<close>

record pool_params =
  pool_id :: pool_id
  pool_vrf :: hash
  pool_pledge :: lovelace
  pool_cost :: lovelace
  pool_margin :: rat
  pool_reward_account :: reward_account
  pool_owners :: "hash list"

lemma credential_rank_inj: "credential_rank a = credential_rank b \<longleftrightarrow> a = b"
  by (cases a; cases b) auto

lemma drep_rank_inj: "drep_rank a = drep_rank b \<longleftrightarrow> a = b"
  by (cases a; cases b) auto

lemma voter_rank_inj: "voter_rank a = voter_rank b \<longleftrightarrow> a = b"
  by (cases a; cases b) auto

lemma point_rank_inj: "point_rank a = point_rank b \<longleftrightarrow> a = b"
  by (cases a; cases b) auto

instantiation credential :: linorder
begin

definition less_eq_credential :: "credential \<Rightarrow> credential \<Rightarrow> bool" where
  "less_eq_credential a b = (credential_rank a \<le> credential_rank b)"

definition less_credential :: "credential \<Rightarrow> credential \<Rightarrow> bool" where
  "less_credential a b = (credential_rank a < credential_rank b)"

instance
  by standard
    (unfold less_eq_credential_def less_credential_def, auto intro: order_trans dest: order_antisym simp: credential_rank_inj)

end

instantiation drep :: linorder
begin

definition less_eq_drep :: "drep \<Rightarrow> drep \<Rightarrow> bool" where
  "less_eq_drep a b = (drep_rank a \<le> drep_rank b)"

definition less_drep :: "drep \<Rightarrow> drep \<Rightarrow> bool" where
  "less_drep a b = (drep_rank a < drep_rank b)"

instance
  by standard
    (unfold less_eq_drep_def less_drep_def, auto intro: order_trans dest: order_antisym simp: drep_rank_inj)

end

instantiation voter :: linorder
begin

definition less_eq_voter :: "voter \<Rightarrow> voter \<Rightarrow> bool" where
  "less_eq_voter a b = (voter_rank a \<le> voter_rank b)"

definition less_voter :: "voter \<Rightarrow> voter \<Rightarrow> bool" where
  "less_voter a b = (voter_rank a < voter_rank b)"

instance
  by standard
    (unfold less_eq_voter_def less_voter_def, auto intro: order_trans dest: order_antisym simp: voter_rank_inj)

end

instantiation point :: linorder
begin

definition less_eq_point :: "point \<Rightarrow> point \<Rightarrow> bool" where
  "less_eq_point a b = (point_rank a \<le> point_rank b)"

definition less_point :: "point \<Rightarrow> point \<Rightarrow> bool" where
  "less_point a b = (point_rank a < point_rank b)"

instance
  by standard
    (unfold less_eq_point_def less_point_def, auto intro: order_trans dest: order_antisym simp: point_rank_inj)

end

section \<open>RationalNumber\<close>

text \<open>
  \<open>RationalNumber\<close> and \<open>UnitRationalNumber\<close> are pairs of \<open>u64\<close> in lowest terms;
  the constructor reads unbounded integers.  The value the rest of the model
  works with is the rational they denote.
\<close>

definition rn_new :: "int \<Rightarrow> int \<Rightarrow> (string, nat \<times> nat) result" where
  "rn_new numerator denominator =
    (if denominator = 0 then Err ''rational denominator cannot be zero''
     else
       let negative = ((numerator < 0) \<noteq> (denominator < 0));
           n = nat \<bar>numerator\<bar>; d = nat \<bar>denominator\<bar>; g = gcd n d
       in if n div g \<le> u64_max \<and> d div g \<le> u64_max \<and> (\<not> negative \<or> n div g = 0)
          then Ok (n div g, d div g)
          else Err ''rational value must be non-negative and fit in 64 bits once reduced'')"

definition unit_rn_new :: "nat \<Rightarrow> nat \<Rightarrow> (string, nat \<times> nat) result" where
  "unit_rn_new numerator denominator =
    (case rn_new (int numerator) (int denominator) of
       Inl e \<Rightarrow> Inl e
     | Inr r \<Rightarrow>
         if denominator < numerator
         then Err ''the rational value must belong to the interval [0, 1]'' else Ok r)"

text \<open>The comparison multiplies in 128 bits.\<close>

definition rn_less :: "nat \<times> nat \<Rightarrow> nat \<times> nat \<Rightarrow> bool" where
  "rn_less a b = ((fst a * snd b) mod 2 ^ 128 < (fst b * snd a) mod 2 ^ 128)"

definition rn_rat :: "nat \<times> nat \<Rightarrow> rat" where
  "rn_rat r = of_nat (fst r) / of_nat (snd r)"

section \<open>TreasuryDelta\<close>

datatype treasury_delta = Zero | Credit lovelace | Debit lovelace

fun td_add :: "treasury_delta \<Rightarrow> lovelace \<Rightarrow> treasury_delta" where
  "td_add Zero rhs = Credit rhs" |
  "td_add (Credit lhs) rhs = Credit (lhs + rhs)" |
  "td_add (Debit lhs) rhs =
    (if rhs < lhs then Debit (lhs - rhs) else if lhs < rhs then Credit (rhs - lhs) else Zero)"

fun td_sub :: "treasury_delta \<Rightarrow> lovelace \<Rightarrow> treasury_delta" where
  "td_sub Zero rhs = Debit rhs" |
  "td_sub (Debit lhs) rhs = Debit (lhs + rhs)" |
  "td_sub (Credit lhs) rhs =
    (if rhs < lhs then Credit (lhs - rhs) else if lhs < rhs then Debit (rhs - lhs) else Zero)"

fun as_credit :: "treasury_delta \<Rightarrow> lovelace option" where
  "as_credit Zero = Some 0" |
  "as_credit (Credit c) = Some c" |
  "as_credit (Debit _) = None"

fun td_int :: "treasury_delta \<Rightarrow> int" where
  "td_int Zero = 0" |
  "td_int (Credit c) = int c" |
  "td_int (Debit d) = - int d"

lemma td_int_add [simp]: "td_int (td_add d x) = td_int d + int x"
  by (cases d) auto

lemma td_int_sub [simp]: "td_int (td_sub d x) = td_int d - int x"
  by (cases d) auto

lemma as_credit_iff:
  "as_credit d = Some c \<Longrightarrow> td_int d = int c"
  by (cases d) auto

lemma as_credit_nonneg:
  assumes "0 \<le> td_int d" "d \<noteq> Debit 0"
  shows "as_credit d = Some (nat (td_int d))"
  using assms by (cases d) auto

lemma td_add_not_Debit0: "td_add d x \<noteq> Debit 0"
  by (cases d) auto

section \<open>Rational numbers denote their value\<close>

lemma nat_reduce:
  fixes n d :: nat
  assumes "0 < d"
  shows "0 < d div gcd n d" "coprime (n div gcd n d) (d div gcd n d)"
    "(of_nat (n div gcd n d) :: rat) / of_nat (d div gcd n d) = of_nat n / of_nat d"
    "n div gcd n d = 0 \<longleftrightarrow> n = 0"
proof -
  define g where "g = gcd n d"
  obtain k l where kl: "n = g * k" "d = g * l" by (metis dvd_def g_def gcd_dvd1 gcd_dvd2)
  have g: "0 < g" using assms kl by (cases "g = 0") auto
  have div: "n div g = k" "d div g = l" using kl g by simp_all
  show "0 < d div gcd n d"
    unfolding g_def [symmetric] div using kl(2) assms by (cases l) auto
  show "coprime (n div gcd n d) (d div gcd n d)" using assms by (simp add: div_gcd_coprime)
  have "(of_nat k :: rat) / of_nat l = of_nat (g * k) / of_nat (g * l)"
    using g by simp
  then show "(of_nat (n div gcd n d) :: rat) / of_nat (d div gcd n d) = of_nat n / of_nat d"
    unfolding g_def [symmetric] div kl [symmetric] .
  show "n div gcd n d = 0 \<longleftrightarrow> n = 0"
    unfolding g_def [symmetric] div using kl(1) g by simp
qed

lemma rn_new_Ok:
  assumes "rn_new n d = Ok r"
  shows "0 < snd r" "coprime (fst r) (snd r)" "fst r \<le> u64_max" "snd r \<le> u64_max"
    "rn_rat r = of_int n / of_int d"
proof -
  obtain n' d' where nd: "n' = nat \<bar>n\<bar>" "d' = nat \<bar>d\<bar>" by simp
  have d: "d \<noteq> 0" and sign: "(n < 0) = (d < 0) \<or> n' div gcd n' d' = 0"
    and r: "r = (n' div gcd n' d', d' div gcd n' d')"
    and le: "n' div gcd n' d' \<le> u64_max" "d' div gcd n' d' \<le> u64_max"
    using assms by (auto simp only: rn_new_def Let_def nd split: if_splits)
  have d': "0 < d'" using d nd by simp
  note red = nat_reduce [OF d', of n']
  show "0 < snd r" "coprime (fst r) (snd r)" "fst r \<le> u64_max" "snd r \<le> u64_max"
    using r le red by simp_all
  have "(of_nat n' / of_nat d' :: rat) = of_int n / of_int d"
  proof (cases "n = 0")
    case False
    then have "(n < 0) = (d < 0)" using sign red(4) nd by simp
    then show ?thesis using nd by (cases "n < 0") (auto simp: of_nat_nat)
  qed (simp add: nd)
  then show "rn_rat r = of_int n / of_int d" using r red(3) by (simp add: rn_rat_def)
qed

lemma rn_less_rat:
  assumes "0 < snd a" "0 < snd b" "fst a \<le> u64_max" "snd a \<le> u64_max" "fst b \<le> u64_max" "snd b \<le> u64_max"
  shows "rn_less a b \<longleftrightarrow> rn_rat a < rn_rat b"
proof -
  have bound: "x * y < 2 ^ 128" if "x \<le> u64_max" "y \<le> u64_max" for x y :: nat
  proof -
    have "x * y \<le> u64_max * u64_max" using that by (rule mult_le_mono)
    then show ?thesis by (simp add: u64_max_def)
  qed
  have "rn_less a b \<longleftrightarrow> fst a * snd b < fst b * snd a"
    using bound [of "fst a" "snd b"] bound [of "fst b" "snd a"] assms by (simp add: rn_less_def)
  also have "\<dots> \<longleftrightarrow> (of_nat (fst a * snd b) :: rat) < of_nat (fst b * snd a)"
    by (simp only: of_nat_less_iff)
  also have "\<dots> \<longleftrightarrow> rn_rat a < rn_rat b"
    using assms by (simp add: rn_rat_def divide_simps mult.commute)
  finally show ?thesis .
qed

lemma coprime_cross_eq:
  assumes "coprime a b" "coprime c d" "0 < b" "0 < d" "a * d = c * b"
  shows "a = c \<and> b = (d :: nat)"
proof -
  have "b dvd d" using assms(1,5) by (metis coprime_commute coprime_dvd_mult_right_iff dvd_triv_right)
  moreover have "d dvd b" using assms(2,5) by (metis coprime_commute coprime_dvd_mult_right_iff dvd_triv_right)
  ultimately have "b = d" by (rule dvd_antisym)
  then show ?thesis using assms(4,5) by simp
qed

text \<open>
  The rational numbers of protocol parameters and thresholds behave as the
  rationals they were read from: two results of the normalising constructor are
  equal exactly when their values are, and the comparison by cross
  multiplication in 128 bits never overflows and orders them by value.
\<close>
theorem rational_number_denotes_value:
  assumes "rn_new a b = Ok x" "rn_new c d = Ok y"
  shows "(x = y \<longleftrightarrow> (of_int a / of_int b :: rat) = of_int c / of_int d) \<and>
    (rn_less x y \<longleftrightarrow> (of_int a / of_int b :: rat) < of_int c / of_int d) \<and>
    fst x * snd y < 2 ^ 128"
proof (intro conjI)
  note x = rn_new_Ok [OF assms(1)] and y = rn_new_Ok [OF assms(2)]
  show "rn_less x y \<longleftrightarrow> (of_int a / of_int b :: rat) < of_int c / of_int d"
    using rn_less_rat [OF x(1) y(1) x(3,4) y(3,4)] x(5) y(5) by simp
  have "fst x * snd y \<le> u64_max * u64_max" using x(3) y(4) by (rule mult_le_mono)
  then show "fst x * snd y < 2 ^ 128" by (simp add: u64_max_def)
  have "x = y" if "rn_rat x = rn_rat y"
  proof -
    have "(of_nat (fst x * snd y) :: rat) = of_nat (fst y * snd x)"
      using that x(1) y(1) by (simp add: rn_rat_def divide_simps mult.commute)
    then have "fst x * snd y = fst y * snd x" by (simp only: of_nat_eq_iff)
    then show ?thesis
      using coprime_cross_eq [OF x(2) y(2) x(1) y(1)] by (simp add: prod_eq_iff)
  qed
  then show "x = y \<longleftrightarrow> (of_int a / of_int b :: rat) = of_int c / of_int d"
    using x(5) y(5) by auto
qed

theorem rational_number_denotes_value_witness:
  "rn_new (- 1) (- 2) = Ok (1, 2) \<and> rn_new 3 6 = Ok (1, 2) \<and>
   (of_int (- 1) / of_int (- 2) :: rat) = of_int 3 / of_int 6"
proof -
  have "rn_new (- 1) (- 2) = Ok (1, 2)" "rn_new 3 6 = Ok (1, 2)"
    by (simp_all add: rn_new_def u64_max_def gcd_nat.absorb1 Let_def)
  then show ?thesis
    using rational_number_denotes_value [of "- 1" "- 2" "(1, 2)" "3" "6" "(1, 2)"] by blast
qed

end
