(* ===== verification/Protocol_Parameters.thy ===== *)
theory Protocol_Parameters
  imports Kernel_Types
begin

text \<open>
  Protocol parameters, their updates and the governance actions that carry them
  (\<open>amaru-kernel/src/cardano/{protocol_parameters,protocol_parameters_update,
  cost_models,governance_action,proposal_enum,proposal_slim,proposals_roots}.rs\<close>):
  which fields an update touches, which voting group each field belongs to,
  and the priority and lineage of proposals.  Rational parameters are the values
  they denote.
\<close>

section \<open>Versions, prices and cost models\<close>

type_synonym protocol_version = "nat \<times> nat"

definition can_follow :: "protocol_version \<Rightarrow> protocol_version \<Rightarrow> bool" where
  "can_follow v other =
    ((fst v = fst other + 1 \<and> snd v = 0) \<or> (fst v = fst other \<and> snd v = snd other + 1))"

record ex_units =
  mem :: nat
  steps :: nat

record ex_unit_prices =
  mem_price :: rat
  step_price :: rat

type_synonym cost_model = "int list"

record cost_models =
  plutus_v1 :: "cost_model option"
  plutus_v2 :: "cost_model option"
  plutus_v3 :: "cost_model option"
  unknown :: "(nat, cost_model) omap"

definition set_opt :: "'a option \<Rightarrow> 'a option \<Rightarrow> 'a option" where
  "set_opt field new = (case new of Some m \<Rightarrow> Some m | None \<Rightarrow> field)"

definition update_cost_models :: "cost_models \<Rightarrow> cost_models \<Rightarrow> cost_models" where
  "update_cost_models cm u =
    (let v1 = set_opt (plutus_v1 cm) (plutus_v1 u);
         v2 = set_opt (plutus_v2 cm) (plutus_v2 u);
         v3 = set_opt (plutus_v3 cm) (plutus_v3 u);
         known = foldl (\<lambda>m (language, cost_model).
             if cost_model \<noteq> None then om_remove language m else m)
           (om_extend (unknown cm) (om_entries (unknown u))) [(0, v1), (1, v2), (2, v3)]
     in \<lparr>plutus_v1 = v1, plutus_v2 = v2, plutus_v3 = v3, unknown = known\<rparr>)"

section \<open>Voting thresholds\<close>

record pool_voting_thresholds =
  pvt_motion_no_confidence :: rat
  pvt_committee_normal :: rat
  pvt_committee_no_confidence :: rat
  pvt_hard_fork_initiation :: rat
  pvt_security_voting_threshold :: rat

record drep_voting_thresholds =
  dvt_motion_no_confidence :: rat
  dvt_committee_normal :: rat
  dvt_committee_no_confidence :: rat
  dvt_update_constitution :: rat
  dvt_hard_fork_initiation :: rat
  dvt_pp_network_group :: rat
  dvt_pp_economic_group :: rat
  dvt_pp_technical_group :: rat
  dvt_pp_governance_group :: rat
  dvt_treasury_withdrawal :: rat

section \<open>Parameter updates\<close>

record protocol_param_update =
  u_minfee_a :: "nat option"
  u_minfee_b :: "nat option"
  u_max_block_body_size :: "nat option"
  u_max_transaction_size :: "nat option"
  u_max_block_header_size :: "nat option"
  u_key_deposit :: "lovelace option"
  u_pool_deposit :: "lovelace option"
  u_maximum_epoch :: "nat option"
  u_desired_number_of_stake_pools :: "nat option"
  u_pool_pledge_influence :: "rat option"
  u_expansion_rate :: "rat option"
  u_treasury_growth_rate :: "rat option"
  u_min_pool_cost :: "lovelace option"
  u_ada_per_utxo_byte :: "lovelace option"
  u_cost_models_for_script_languages :: "cost_models option"
  u_execution_costs :: "ex_unit_prices option"
  u_max_tx_ex_units :: "ex_units option"
  u_max_block_ex_units :: "ex_units option"
  u_max_value_size :: "nat option"
  u_collateral_percentage :: "nat option"
  u_max_collateral_inputs :: "nat option"
  u_pool_voting_thresholds :: "pool_voting_thresholds option"
  u_drep_voting_thresholds :: "drep_voting_thresholds option"
  u_min_committee_size :: "nat option"
  u_committee_term_limit :: "nat option"
  u_governance_action_validity_period :: "nat option"
  u_governance_action_deposit :: "lovelace option"
  u_drep_deposit :: "lovelace option"
  u_drep_inactivity_period :: "nat option"
  u_minfee_refscript_cost_per_byte :: "rat option"

definition no_update :: protocol_param_update where
  "no_update =
    \<lparr>u_minfee_a = None, u_minfee_b = None, u_max_block_body_size = None,
     u_max_transaction_size = None, u_max_block_header_size = None, u_key_deposit = None,
     u_pool_deposit = None, u_maximum_epoch = None, u_desired_number_of_stake_pools = None,
     u_pool_pledge_influence = None, u_expansion_rate = None, u_treasury_growth_rate = None,
     u_min_pool_cost = None, u_ada_per_utxo_byte = None,
     u_cost_models_for_script_languages = None, u_execution_costs = None,
     u_max_tx_ex_units = None, u_max_block_ex_units = None, u_max_value_size = None,
     u_collateral_percentage = None, u_max_collateral_inputs = None,
     u_pool_voting_thresholds = None, u_drep_voting_thresholds = None,
     u_min_committee_size = None, u_committee_term_limit = None,
     u_governance_action_validity_period = None, u_governance_action_deposit = None,
     u_drep_deposit = None, u_drep_inactivity_period = None,
     u_minfee_refscript_cost_per_byte = None\<rparr>"

definition any_in_security_group :: "protocol_param_update \<Rightarrow> bool" where
  "any_in_security_group u =
    (u_minfee_a u \<noteq> None \<or> u_minfee_b u \<noteq> None \<or> u_max_block_body_size u \<noteq> None \<or>
     u_max_block_header_size u \<noteq> None \<or> u_max_transaction_size u \<noteq> None \<or>
     u_ada_per_utxo_byte u \<noteq> None \<or> u_max_block_ex_units u \<noteq> None \<or>
     u_max_value_size u \<noteq> None \<or> u_governance_action_deposit u \<noteq> None \<or>
     u_minfee_refscript_cost_per_byte u \<noteq> None)"

definition any_update_in_network_group ::
  "drep_voting_thresholds \<Rightarrow> protocol_param_update \<Rightarrow> rat option" where
  "any_update_in_network_group t u =
    (if u_max_block_body_size u \<noteq> None \<or> u_max_transaction_size u \<noteq> None \<or>
        u_max_block_header_size u \<noteq> None \<or> u_max_tx_ex_units u \<noteq> None \<or>
        u_max_block_ex_units u \<noteq> None \<or> u_max_value_size u \<noteq> None \<or>
        u_max_collateral_inputs u \<noteq> None
     then Some (dvt_pp_network_group t) else None)"

definition any_update_in_economic_group ::
  "drep_voting_thresholds \<Rightarrow> protocol_param_update \<Rightarrow> rat option" where
  "any_update_in_economic_group t u =
    (if u_minfee_a u \<noteq> None \<or> u_minfee_b u \<noteq> None \<or> u_key_deposit u \<noteq> None \<or>
        u_pool_deposit u \<noteq> None \<or> u_expansion_rate u \<noteq> None \<or>
        u_treasury_growth_rate u \<noteq> None \<or> u_min_pool_cost u \<noteq> None \<or>
        u_ada_per_utxo_byte u \<noteq> None \<or> u_execution_costs u \<noteq> None \<or>
        u_minfee_refscript_cost_per_byte u \<noteq> None
     then Some (dvt_pp_economic_group t) else None)"

definition any_update_in_technical_group ::
  "drep_voting_thresholds \<Rightarrow> protocol_param_update \<Rightarrow> rat option" where
  "any_update_in_technical_group t u =
    (if u_maximum_epoch u \<noteq> None \<or> u_desired_number_of_stake_pools u \<noteq> None \<or>
        u_pool_pledge_influence u \<noteq> None \<or> u_cost_models_for_script_languages u \<noteq> None \<or>
        u_collateral_percentage u \<noteq> None
     then Some (dvt_pp_technical_group t) else None)"

definition any_update_in_governance_group ::
  "drep_voting_thresholds \<Rightarrow> protocol_param_update \<Rightarrow> rat option" where
  "any_update_in_governance_group t u =
    (if u_pool_voting_thresholds u \<noteq> None \<or> u_drep_voting_thresholds u \<noteq> None \<or>
        u_min_committee_size u \<noteq> None \<or> u_committee_term_limit u \<noteq> None \<or>
        u_governance_action_validity_period u \<noteq> None \<or>
        u_governance_action_deposit u \<noteq> None \<or> u_drep_deposit u \<noteq> None \<or>
        u_drep_inactivity_period u \<noteq> None
     then Some (dvt_pp_governance_group t) else None)"

section \<open>Protocol parameters\<close>

record protocol_parameters =
  protocol_version :: protocol_version
  max_block_body_size :: nat
  max_transaction_size :: nat
  max_block_header_size :: nat
  max_tx_ex_units :: ex_units
  max_block_ex_units :: ex_units
  max_value_size :: nat
  max_collateral_inputs :: nat
  min_fee_a :: lovelace
  min_fee_b :: nat
  stake_credential_deposit :: lovelace
  stake_pool_deposit :: lovelace
  monetary_expansion_rate :: rat
  treasury_expansion_rate :: rat
  min_pool_cost :: nat
  lovelace_per_utxo_byte :: lovelace
  prices :: ex_unit_prices
  min_fee_ref_script_lovelace_per_byte :: rat
  max_ref_script_size_per_tx :: nat
  max_ref_script_size_per_block :: nat
  ref_script_cost_stride :: nat
  ref_script_cost_multiplier :: rat
  stake_pool_max_retirement_epoch :: nat
  optimal_stake_pools_count :: nat
  pledge_influence :: rat
  collateral_percentage :: nat
  cost_models :: cost_models
  pool_voting_thresholds :: pool_voting_thresholds
  drep_voting_thresholds :: drep_voting_thresholds
  min_committee_size :: nat
  max_committee_term_length :: nat
  gov_action_lifetime :: nat
  gov_action_deposit :: lovelace
  drep_deposit :: lovelace
  drep_expiry :: nat

definition set_field :: "'a \<Rightarrow> 'a option \<Rightarrow> 'a" where
  "set_field field new = (case new of Some x \<Rightarrow> x | None \<Rightarrow> field)"

definition pp_update :: "protocol_parameters \<Rightarrow> protocol_param_update \<Rightarrow> protocol_parameters" where
  "pp_update p u =
    \<lparr>protocol_version = protocol_version p,
     max_block_body_size = set_field (max_block_body_size p) (u_max_block_body_size u),
     max_transaction_size = set_field (max_transaction_size p) (u_max_transaction_size u),
     max_block_header_size = set_field (max_block_header_size p) (u_max_block_header_size u),
     max_tx_ex_units = set_field (max_tx_ex_units p) (u_max_tx_ex_units u),
     max_block_ex_units = set_field (max_block_ex_units p) (u_max_block_ex_units u),
     max_value_size = set_field (max_value_size p) (u_max_value_size u),
     max_collateral_inputs = set_field (max_collateral_inputs p) (u_max_collateral_inputs u),
     min_fee_a = set_field (min_fee_a p) (u_minfee_a u),
     min_fee_b = set_field (min_fee_b p) (u_minfee_b u),
     stake_credential_deposit = set_field (stake_credential_deposit p) (u_key_deposit u),
     stake_pool_deposit = set_field (stake_pool_deposit p) (u_pool_deposit u),
     monetary_expansion_rate = set_field (monetary_expansion_rate p) (u_treasury_growth_rate u),
     treasury_expansion_rate = set_field (treasury_expansion_rate p) (u_expansion_rate u),
     min_pool_cost = set_field (min_pool_cost p) (u_min_pool_cost u),
     lovelace_per_utxo_byte = set_field (lovelace_per_utxo_byte p) (u_ada_per_utxo_byte u),
     prices = set_field (prices p) (u_execution_costs u),
     min_fee_ref_script_lovelace_per_byte =
       set_field (min_fee_ref_script_lovelace_per_byte p) (u_minfee_refscript_cost_per_byte u),
     max_ref_script_size_per_tx = max_ref_script_size_per_tx p,
     max_ref_script_size_per_block = max_ref_script_size_per_block p,
     ref_script_cost_stride = ref_script_cost_stride p,
     ref_script_cost_multiplier = ref_script_cost_multiplier p,
     stake_pool_max_retirement_epoch =
       set_field (stake_pool_max_retirement_epoch p) (u_maximum_epoch u),
     optimal_stake_pools_count =
       set_field (optimal_stake_pools_count p) (u_desired_number_of_stake_pools u),
     pledge_influence = set_field (pledge_influence p) (u_pool_pledge_influence u),
     collateral_percentage = set_field (collateral_percentage p) (u_collateral_percentage u),
     cost_models =
       (case u_cost_models_for_script_languages u of
          Some cm \<Rightarrow> update_cost_models (cost_models p) cm
        | None \<Rightarrow> cost_models p),
     pool_voting_thresholds = set_field (pool_voting_thresholds p) (u_pool_voting_thresholds u),
     drep_voting_thresholds = set_field (drep_voting_thresholds p) (u_drep_voting_thresholds u),
     min_committee_size = set_field (min_committee_size p) (u_min_committee_size u),
     max_committee_term_length = set_field (max_committee_term_length p) (u_committee_term_limit u),
     gov_action_lifetime =
       set_field (gov_action_lifetime p) (u_governance_action_validity_period u),
     gov_action_deposit = set_field (gov_action_deposit p) (u_governance_action_deposit u),
     drep_deposit = set_field (drep_deposit p) (u_drep_deposit u),
     drep_expiry = set_field (drep_expiry p) (u_drep_inactivity_period u)\<rparr>"

section \<open>Governance actions\<close>

record constitution =
  con_anchor :: anchor
  con_guardrail_script :: "hash option"

datatype governance_action =
    ParameterChange "proposal_id option" protocol_param_update "hash option"
  | HardForkInitiation "proposal_id option" protocol_version
  | TreasuryWithdrawals "(reward_account, lovelace) omap" "hash option"
  | NoConfidence "proposal_id option"
  | UpdateCommittee "proposal_id option" "credential list" "(credential \<times> epoch) list" rat
  | NewConstitution "proposal_id option" constitution
  | Information

record proposal =
  prop_deposit :: lovelace
  prop_reward_account :: reward_account
  prop_gov_action :: governance_action
  prop_anchor :: anchor

datatype cc_update =
    CCNoConfidence
  | ChangeMembers "credential oset" "(credential, epoch) omap" rat

datatype orphan_proposal = TreasuryWithdrawal "(credential, lovelace) omap" | NicePoll

datatype proposal_enum =
    PParams protocol_param_update "proposal_id option"
  | PHardFork protocol_version "proposal_id option"
  | PCommittee cc_update "proposal_id option"
  | PConstitution constitution "proposal_id option"
  | POrphan orphan_proposal

fun proposal_enum_of :: "governance_action \<Rightarrow> proposal_enum" where
  "proposal_enum_of (ParameterChange parent update _) = PParams update parent" |
  "proposal_enum_of (HardForkInitiation parent v) = PHardFork v parent" |
  "proposal_enum_of (TreasuryWithdrawals ws _) =
    POrphan (TreasuryWithdrawal
      (foldl (\<lambda>acc (account, amount). om_insert (snd account) amount acc) om_empty (om_entries ws)))" |
  "proposal_enum_of (UpdateCommittee parent removed added threshold) =
    PCommittee (ChangeMembers (os_extend om_empty removed) (om_of_list added) threshold) parent" |
  "proposal_enum_of (NoConfidence parent) = PCommittee CCNoConfidence parent" |
  "proposal_enum_of (NewConstitution parent c) = PConstitution c parent" |
  "proposal_enum_of Information = POrphan NicePoll"

fun pe_parent :: "proposal_enum \<Rightarrow> proposal_id option" where
  "pe_parent (PParams _ parent) = parent" |
  "pe_parent (PHardFork _ parent) = parent" |
  "pe_parent (PCommittee _ parent) = parent" |
  "pe_parent (PConstitution _ parent) = parent" |
  "pe_parent (POrphan _) = None"

definition is_hardfork :: "proposal_enum \<Rightarrow> bool" where
  "is_hardfork p = (case p of PHardFork _ _ \<Rightarrow> True | _ \<Rightarrow> False)"

definition is_orphan :: "proposal_enum \<Rightarrow> bool" where
  "is_orphan p = (case p of POrphan _ \<Rightarrow> True | _ \<Rightarrow> False)"

definition is_no_confidence :: "proposal_enum \<Rightarrow> bool" where
  "is_no_confidence p = (case p of PCommittee CCNoConfidence _ \<Rightarrow> True | _ \<Rightarrow> False)"

definition is_committee_member_update :: "proposal_enum \<Rightarrow> bool" where
  "is_committee_member_update p =
    (case p of PCommittee (ChangeMembers _ _ _) _ \<Rightarrow> True | _ \<Rightarrow> False)"

definition is_nice_poll :: "proposal_enum \<Rightarrow> bool" where
  "is_nice_poll p = (case p of POrphan NicePoll \<Rightarrow> True | _ \<Rightarrow> False)"

datatype ordering = Less | Equal | Greater

fun cmp_priority :: "proposal_enum \<Rightarrow> proposal_enum \<Rightarrow> ordering" where
  "cmp_priority (PCommittee CCNoConfidence _) (PCommittee CCNoConfidence _) = Equal" |
  "cmp_priority (PCommittee CCNoConfidence _) _ = Greater" |
  "cmp_priority _ (PCommittee CCNoConfidence _) = Less" |
  "cmp_priority (PCommittee _ _) (PCommittee _ _) = Equal" |
  "cmp_priority (PCommittee _ _) _ = Greater" |
  "cmp_priority _ (PCommittee _ _) = Less" |
  "cmp_priority (PConstitution _ _) (PConstitution _ _) = Equal" |
  "cmp_priority (PConstitution _ _) _ = Greater" |
  "cmp_priority _ (PConstitution _ _) = Less" |
  "cmp_priority (PHardFork _ _) (PHardFork _ _) = Equal" |
  "cmp_priority (PHardFork _ _) _ = Greater" |
  "cmp_priority _ (PHardFork _ _) = Less" |
  "cmp_priority (PParams _ _) (PParams _ _) = Equal" |
  "cmp_priority (PParams _ _) _ = Greater" |
  "cmp_priority _ (PParams _ _) = Less" |
  "cmp_priority (POrphan (TreasuryWithdrawal _)) (POrphan (TreasuryWithdrawal _)) = Equal" |
  "cmp_priority (POrphan (TreasuryWithdrawal _)) _ = Greater" |
  "cmp_priority _ (POrphan (TreasuryWithdrawal _)) = Less" |
  "cmp_priority (POrphan NicePoll) (POrphan NicePoll) = Equal"

datatype proposal_slim =
    SlimParams bool
  | SlimHardFork protocol_version
  | SlimConstitution
  | SlimCommittee
  | SlimOrphan bool

fun proposal_slim_of :: "governance_action \<Rightarrow> proposal_slim" where
  "proposal_slim_of (ParameterChange _ u _) = SlimParams (any_in_security_group u)" |
  "proposal_slim_of (HardForkInitiation _ v) = SlimHardFork v" |
  "proposal_slim_of (TreasuryWithdrawals _ _) = SlimOrphan True" |
  "proposal_slim_of Information = SlimOrphan False" |
  "proposal_slim_of (NoConfidence _) = SlimCommittee" |
  "proposal_slim_of (UpdateCommittee _ _ _ _) = SlimCommittee" |
  "proposal_slim_of (NewConstitution _ _) = SlimConstitution"

record proposals_roots =
  root_protocol_parameters :: "proposal_id option"
  root_hard_fork :: "proposal_id option"
  root_constitutional_committee :: "proposal_id option"
  root_constitution :: "proposal_id option"

fun root_of :: "proposals_roots \<Rightarrow> proposal_slim \<Rightarrow> proposal_id option" where
  "root_of r (SlimParams _) = root_protocol_parameters r" |
  "root_of r (SlimHardFork _) = root_hard_fork r" |
  "root_of r SlimCommittee = root_constitutional_committee r" |
  "root_of r SlimConstitution = root_constitution r" |
  "root_of r (SlimOrphan _) = None"

text \<open>A set of parameters for examples.\<close>

definition example_parameters :: protocol_parameters where
  "example_parameters =
    \<lparr>protocol_version = (10, 0), max_block_body_size = 90, max_transaction_size = 16,
     max_block_header_size = 1, max_tx_ex_units = \<lparr>mem = 14, steps = 10\<rparr>,
     max_block_ex_units = \<lparr>mem = 62, steps = 20\<rparr>, max_value_size = 5, max_collateral_inputs = 3,
     min_fee_a = 44, min_fee_b = 155, stake_credential_deposit = 2, stake_pool_deposit = 5,
     monetary_expansion_rate = 1 / 2, treasury_expansion_rate = 1 / 5, min_pool_cost = 1,
     lovelace_per_utxo_byte = 4, prices = \<lparr>mem_price = 1 / 2, step_price = 1 / 3\<rparr>,
     min_fee_ref_script_lovelace_per_byte = 15, max_ref_script_size_per_tx = 20,
     max_ref_script_size_per_block = 100, ref_script_cost_stride = 25,
     ref_script_cost_multiplier = 6 / 5, stake_pool_max_retirement_epoch = 18,
     optimal_stake_pools_count = 2, pledge_influence = 1 / 2, collateral_percentage = 150,
     cost_models = \<lparr>plutus_v1 = None, plutus_v2 = None, plutus_v3 = None, unknown = om_empty\<rparr>,
     pool_voting_thresholds =
       \<lparr>pvt_motion_no_confidence = 1 / 2, pvt_committee_normal = 1 / 2,
        pvt_committee_no_confidence = 1 / 2, pvt_hard_fork_initiation = 1 / 2,
        pvt_security_voting_threshold = 1 / 2\<rparr>,
     drep_voting_thresholds =
       \<lparr>dvt_motion_no_confidence = 1 / 2, dvt_committee_normal = 1 / 2,
        dvt_committee_no_confidence = 1 / 2, dvt_update_constitution = 1 / 2,
        dvt_hard_fork_initiation = 1 / 2, dvt_pp_network_group = 1 / 2,
        dvt_pp_economic_group = 1 / 2, dvt_pp_technical_group = 1 / 2,
        dvt_pp_governance_group = 1 / 2, dvt_treasury_withdrawal = 1 / 2\<rparr>,
     min_committee_size = 1, max_committee_term_length = 146, gov_action_lifetime = 6,
     gov_action_deposit = 100, drep_deposit = 5, drep_expiry = 20\<rparr>"

section \<open>Properties of updates and priorities\<close>

lemma set_field_simps [simp]: "set_field x None = x" "set_field x (Some y) = y"
  by (simp_all add: set_field_def)

fun priority_rank :: "proposal_enum \<Rightarrow> nat" where
  "priority_rank (PCommittee CCNoConfidence _) = 6" |
  "priority_rank (PCommittee (ChangeMembers _ _ _) _) = 5" |
  "priority_rank (PConstitution _ _) = 4" |
  "priority_rank (PHardFork _ _) = 3" |
  "priority_rank (PParams _ _) = 2" |
  "priority_rank (POrphan (TreasuryWithdrawal _)) = 1" |
  "priority_rank (POrphan NicePoll) = 0"

lemma cmp_priority_rank:
  "cmp_priority a b =
    (if priority_rank a < priority_rank b then Less
     else if priority_rank a = priority_rank b then Equal else Greater)"
  by (cases a rule: priority_rank.cases; cases b rule: priority_rank.cases) simp_all

lemma update_cost_models_unknown:
  "om_lookup (unknown (update_cost_models cm u)) language =
    (if (language = 0 \<and> plutus_v1 (update_cost_models cm u) \<noteq> None) \<or>
        (language = 1 \<and> plutus_v2 (update_cost_models cm u) \<noteq> None) \<or>
        (language = 2 \<and> plutus_v3 (update_cost_models cm u) \<noteq> None) then None
     else (om_lookup (unknown cm) ++ om_lookup (unknown u)) language)"
  by (auto simp: update_cost_models_def Let_def om_lookup_extend_entries)

lemma no_update_iff:
  "u = no_update \<longleftrightarrow>
    (u_minfee_a u = None \<and> u_minfee_b u = None \<and> u_max_block_body_size u = None \<and>
     u_max_transaction_size u = None \<and> u_max_block_header_size u = None \<and> u_key_deposit u = None \<and>
     u_pool_deposit u = None \<and> u_maximum_epoch u = None \<and>
     u_desired_number_of_stake_pools u = None \<and> u_pool_pledge_influence u = None \<and>
     u_expansion_rate u = None \<and> u_treasury_growth_rate u = None \<and> u_min_pool_cost u = None \<and>
     u_ada_per_utxo_byte u = None \<and> u_cost_models_for_script_languages u = None \<and>
     u_execution_costs u = None \<and> u_max_tx_ex_units u = None \<and> u_max_block_ex_units u = None \<and>
     u_max_value_size u = None \<and> u_collateral_percentage u = None \<and>
     u_max_collateral_inputs u = None \<and> u_pool_voting_thresholds u = None \<and>
     u_drep_voting_thresholds u = None \<and> u_min_committee_size u = None \<and>
     u_committee_term_limit u = None \<and> u_governance_action_validity_period u = None \<and>
     u_governance_action_deposit u = None \<and> u_drep_deposit u = None \<and>
     u_drep_inactivity_period u = None \<and> u_minfee_refscript_cost_per_byte u = None)"
  by (cases u) (simp only: no_update_def protocol_param_update.select_convs
      protocol_param_update.iffs simp_thms)

lemma group_None_iff:
  "any_update_in_network_group t u = None \<longleftrightarrow>
    (u_max_block_body_size u = None \<and> u_max_transaction_size u = None \<and>
     u_max_block_header_size u = None \<and> u_max_tx_ex_units u = None \<and>
     u_max_block_ex_units u = None \<and> u_max_value_size u = None \<and> u_max_collateral_inputs u = None)"
  "any_update_in_economic_group t u = None \<longleftrightarrow>
    (u_minfee_a u = None \<and> u_minfee_b u = None \<and> u_key_deposit u = None \<and>
     u_pool_deposit u = None \<and> u_expansion_rate u = None \<and> u_treasury_growth_rate u = None \<and>
     u_min_pool_cost u = None \<and> u_ada_per_utxo_byte u = None \<and> u_execution_costs u = None \<and>
     u_minfee_refscript_cost_per_byte u = None)"
  "any_update_in_technical_group t u = None \<longleftrightarrow>
    (u_maximum_epoch u = None \<and> u_desired_number_of_stake_pools u = None \<and>
     u_pool_pledge_influence u = None \<and> u_cost_models_for_script_languages u = None \<and>
     u_collateral_percentage u = None)"
  "any_update_in_governance_group t u = None \<longleftrightarrow>
    (u_pool_voting_thresholds u = None \<and> u_drep_voting_thresholds u = None \<and>
     u_min_committee_size u = None \<and> u_committee_term_limit u = None \<and>
     u_governance_action_validity_period u = None \<and> u_governance_action_deposit u = None \<and>
     u_drep_deposit u = None \<and> u_drep_inactivity_period u = None)"
  by (simp_all add: any_update_in_network_group_def any_update_in_economic_group_def
      any_update_in_technical_group_def any_update_in_governance_group_def)

text \<open>
  The order in which proposals are ratified is a total preorder with seven
  levels: motions of no confidence, committee changes, constitutions, hard
  forks, parameter changes, treasury withdrawals and polls, in this order.
\<close>
theorem cmp_priority_total_preorder:
  "cmp_priority a b =
     (if priority_rank a < priority_rank b then Less
      else if priority_rank a = priority_rank b then Equal else Greater) \<and>
   (cmp_priority a b = Greater \<longleftrightarrow> cmp_priority b a = Less) \<and>
   map priority_rank
     [PCommittee CCNoConfidence parent, PCommittee (ChangeMembers removed added t) parent,
      PConstitution c parent, PHardFork v parent, PParams u parent,
      POrphan (TreasuryWithdrawal ws), POrphan NicePoll] = [6, 5, 4, 3, 2, 1, 0]"
  by (simp add: cmp_priority_rank)

text \<open>
  No parameter escapes the vote of the delegate representatives: an update
  that sets any parameter at all belongs to at least one of the four voting
  groups, and an update of the security group, which the stake pools vote on,
  is also in one of the network, economic and governance groups.
\<close>
theorem every_update_is_in_a_group:
  "(update = no_update \<longleftrightarrow>
     any_update_in_network_group t update = None \<and> any_update_in_economic_group t update = None \<and>
     any_update_in_technical_group t update = None \<and> any_update_in_governance_group t update = None) \<and>
   \<not> (any_in_security_group update \<and> any_update_in_network_group t update = None \<and>
      any_update_in_economic_group t update = None \<and> any_update_in_governance_group t update = None)"
  unfolding no_update_iff group_None_iff any_in_security_group_def
  by (rule conjI, (intro iffI conjI; elim conjE; assumption), (rule notI, elim conjE, simp))

text \<open>
  Updating cost models keeps the models of the languages the update does
  not carry, takes the update's model for those it carries, and never leaves a
  known language among the unknown ones.
\<close>
theorem cost_models_update_by_language:
  "plutus_v1 (update_cost_models cm u) = (if plutus_v1 u = None then plutus_v1 cm else plutus_v1 u) \<and>
   plutus_v2 (update_cost_models cm u) = (if plutus_v2 u = None then plutus_v2 cm else plutus_v2 u) \<and>
   plutus_v3 (update_cost_models cm u) = (if plutus_v3 u = None then plutus_v3 cm else plutus_v3 u) \<and>
   om_lookup (unknown (update_cost_models cm u)) language =
     (if (language = 0 \<and> plutus_v1 (update_cost_models cm u) \<noteq> None) \<or>
         (language = 1 \<and> plutus_v2 (update_cost_models cm u) \<noteq> None) \<or>
         (language = 2 \<and> plutus_v3 (update_cost_models cm u) \<noteq> None) then None
      else (om_lookup (unknown cm) ++ om_lookup (unknown u)) language)"
  unfolding update_cost_models_unknown
  by (auto simp: update_cost_models_def Let_def set_opt_def split: option.split)

end
