(* ===== verification/Volatile_Diff.thy ===== *)
theory Volatile_Diff
  imports Kernel_Types
begin

text \<open>
  The diffs a block leaves behind
  (\<open>amaru-ledger/src/state/volatile/{resettable,bind,existence}.rs\<close> and
  \<open>volatile/fragment/*.rs\<close>): \<open>Resettable\<close> and \<open>Bind\<close> updates, \<open>Existence\<close>
  verdicts, and the three collections of changes \<open>DiffSet\<close>, \<open>DiffBind\<close> and
  \<open>DiffEpochReg\<close>.  Their compact maps and sets are ordered maps and sets
  here; \<open>Compact_Collections\<close> proves that a client cannot tell the difference.
  The locale \<open>mergeable_diff\<close> states what makes merging sound: running a block
  on top of an accumulated diff is the same as building the block's own diff
  from nothing and merging it.  It is interpreted on all three collections.
\<close>

section \<open>Resettable, Bind and Existence\<close>

datatype 'a resettable = Set 'a | Reset | Unchanged

fun resettable_of_option :: "'a option \<Rightarrow> 'a resettable" where
  "resettable_of_option None = Reset" |
  "resettable_of_option (Some r) = Set r"

text \<open>\<open>set_or_reset\<close> returns the previous content and the updated field.\<close>

fun set_or_reset :: "'a resettable \<Rightarrow> 'a option \<Rightarrow> 'a option \<times> 'a option" where
  "set_or_reset (Set new) field = (field, Some new)" |
  "set_or_reset Reset field = (field, None)" |
  "set_or_reset Unchanged field = (None, field)"

fun into_option :: "'a resettable \<Rightarrow> 'a option \<Rightarrow> 'a option" where
  "into_option (Set x) when_unchanged = Some x" |
  "into_option Reset when_unchanged = None" |
  "into_option Unchanged when_unchanged = when_unchanged"

record ('l, 'r, 'v) vbind =
  left :: "'l resettable"
  right :: "'r resettable"
  bvalue :: "'v option"

definition bind_default :: "('l, 'r, 'v) vbind" where
  "bind_default = \<lparr>left = Unchanged, right = Unchanged, bvalue = None\<rparr>"

definition bind_map_left :: "('l \<Rightarrow> 'a) \<Rightarrow> ('l, 'r, 'v) vbind \<Rightarrow> ('a, 'r, 'v) vbind" where
  "bind_map_left f b = \<lparr>left = map_resettable f (left b), right = right b, bvalue = bvalue b\<rparr>"

text \<open>\<open>Bind::then\<close>: the receiver is the older update.\<close>

definition bind_then :: "('l, 'r, 'v) vbind \<Rightarrow> ('l, 'r, 'v) vbind \<Rightarrow> ('l, 'r, 'v) vbind" where
  "bind_then older newer =
    (if bvalue newer \<noteq> None then newer
     else
       \<lparr>left = (if left newer \<noteq> Unchanged then left newer else left older),
        right = (if right newer \<noteq> Unchanged then right newer else right older),
        bvalue = bvalue older\<rparr>)"

datatype 'a existence = Exists 'a | Gone | Unknown

fun or_else :: "'a existence \<Rightarrow> 'a existence \<Rightarrow> 'a existence" where
  "or_else Unknown older = older" |
  "or_else x older = x"

text \<open>
  The loop of \<open>Existence::fold\<close>: the first argument is the variable \<open>fold\<close>, the
  second what the iterator still holds, from the newest to the oldest.
\<close>

function fold_loop ::
  "('l, 'r, 'v) vbind existence \<Rightarrow> ('l, 'r, 'v) vbind existence list \<Rightarrow>
    ('l, 'r, 'v) vbind existence" where
  "fold_loop Gone xs = Gone" |
  "fold_loop (Exists newer) xs =
    (if bvalue newer = None then
       (case xs of
          Exists older # ys \<Rightarrow> fold_loop (Exists (bind_then older newer)) ys
        | _ \<Rightarrow> Exists newer)
     else Exists newer)" |
  "fold_loop Unknown [] = Unknown" |
  "fold_loop Unknown (x # xs) = fold_loop x xs"
  by pat_completeness auto
termination
  by (relation "measure (\<lambda>(x, xs). length xs)") auto

declare fold_loop.simps(2) [simp del]

definition existence_fold ::
  "('l, 'r, 'v) vbind existence list \<Rightarrow> ('l, 'r, 'v) vbind existence" where
  "existence_fold xs = fold_loop Unknown xs"

definition existence_chain ::
  "('l, 'r, 'v) vbind existence \<Rightarrow> ('l, 'r, 'v) vbind existence \<Rightarrow>
    ('l, 'r, 'v) vbind existence" where
  "existence_chain newer older = existence_fold [newer, older]"

section \<open>DiffSet\<close>

record (overloaded) ('k::linorder, 'v) diff_set =
  consumed :: "'k oset"
  produced :: "('k, 'v) omap"

definition ds_default :: "('k::linorder, 'v) diff_set" where
  "ds_default = \<lparr>consumed = om_empty, produced = om_empty\<rparr>"

definition ds_get :: "('k::linorder, 'v) diff_set \<Rightarrow> 'k \<Rightarrow> 'v existence" where
  "ds_get d k =
    (case om_lookup (produced d) k of
       Some v \<Rightarrow> Exists v
     | None \<Rightarrow> if om_contains (consumed d) k then Gone else Unknown)"

definition produce :: "'k::linorder \<Rightarrow> 'v \<Rightarrow> ('k, 'v) diff_set \<Rightarrow> ('k, 'v) diff_set" where
  "produce k v d = d\<lparr>produced := om_insert k v (produced d)\<rparr>"

definition consume :: "'k::linorder \<Rightarrow> ('k, 'v) diff_set \<Rightarrow> ('k, 'v) diff_set" where
  "consume k d =
    d\<lparr>produced := om_remove k (produced d), consumed := os_insert k (consumed d)\<rparr>"

definition ds_extend ::
  "('k::linorder, 'v) diff_set \<Rightarrow> ('k, 'v) diff_set \<Rightarrow> ('k, 'v) diff_set" where
  "ds_extend d other =
    (let d1 = foldl (\<lambda>d k. d\<lparr>produced := om_remove k (produced d),
                              consumed := os_insert k (consumed d)\<rparr>)
                d (om_keys (consumed other))
     in foldl (\<lambda>d (k, v). d\<lparr>produced := om_insert k v (produced d)\<rparr>)
          d1 (om_entries (produced other)))"

definition ds_remove ::
  "('k::linorder, 'v) diff_set \<Rightarrow> ('k, 'v) diff_set \<Rightarrow> ('k, 'v) diff_set" where
  "ds_remove d other =
    (let d1 = foldl (\<lambda>d k. d\<lparr>produced := om_remove k (produced d)\<rparr>)
                d (om_keys (produced other))
     in foldl (\<lambda>d k. d\<lparr>consumed := om_remove k (consumed d)\<rparr>) d1 (om_keys (consumed other)))"

section \<open>DiffBind\<close>

record (overloaded) ('k::linorder, 'l, 'r, 'v) diff_bind =
  registered :: "('k, ('l, 'r, 'v) vbind) omap"
  unregistered :: "'k oset"

datatype 'k register_error = AlreadyRegistered 'k

datatype 'k bind_error = AlreadyUnregistered 'k

definition db_default :: "('k::linorder, 'l, 'r, 'v) diff_bind" where
  "db_default = \<lparr>registered = om_empty, unregistered = om_empty\<rparr>"

definition db_get ::
  "('k::linorder, 'l, 'r, 'v) diff_bind \<Rightarrow> 'k \<Rightarrow> ('l, 'r, 'v) vbind existence" where
  "db_get d k =
    (case om_lookup (registered d) k of
       Some b \<Rightarrow> Exists b
     | None \<Rightarrow> if om_contains (unregistered d) k then Gone else Unknown)"

definition db_is_empty :: "('k::linorder, 'l, 'r, 'v) diff_bind \<Rightarrow> bool" where
  "db_is_empty d = (om_is_empty (registered d) \<and> om_is_empty (unregistered d))"

definition register ::
  "'k::linorder \<Rightarrow> 'v \<Rightarrow> 'l option \<Rightarrow> 'r option \<Rightarrow> ('k, 'l, 'r, 'v) diff_bind \<Rightarrow>
    ('k register_error, ('k, 'l, 'r, 'v) diff_bind) result" where
  "register k v l r d =
    (if om_contains (registered d) k then Err (AlreadyRegistered k)
     else Ok (d\<lparr>unregistered := om_remove k (unregistered d),
                registered := om_insert k
                  \<lparr>left = resettable_of_option l, right = resettable_of_option r, bvalue = Some v\<rparr>
                  (registered d)\<rparr>))"

definition unregister ::
  "'k::linorder \<Rightarrow> ('k, 'l, 'r, 'v) diff_bind \<Rightarrow> ('k, 'l, 'r, 'v) diff_bind" where
  "unregister k d =
    d\<lparr>registered := om_remove k (registered d), unregistered := os_insert k (unregistered d)\<rparr>"

definition bind_left ::
  "'k::linorder \<Rightarrow> 'l option \<Rightarrow> ('k, 'l, 'r, 'v) diff_bind \<Rightarrow>
    ('k bind_error, ('k, 'l, 'r, 'v) diff_bind) result" where
  "bind_left k l d =
    (if om_contains (unregistered d) k then Err (AlreadyUnregistered k)
     else Ok (d\<lparr>registered :=
       om_insert k
         (case om_lookup (registered d) k of
            Some b \<Rightarrow> b\<lparr>left := resettable_of_option l\<rparr>
          | None \<Rightarrow> \<lparr>left = resettable_of_option l, right = Unchanged, bvalue = None\<rparr>)
         (registered d)\<rparr>))"

definition bind_right ::
  "'k::linorder \<Rightarrow> 'r option \<Rightarrow> ('k, 'l, 'r, 'v) diff_bind \<Rightarrow>
    ('k bind_error, ('k, 'l, 'r, 'v) diff_bind) result" where
  "bind_right k r d =
    (if om_contains (unregistered d) k then Err (AlreadyUnregistered k)
     else Ok (d\<lparr>registered :=
       om_insert k
         (case om_lookup (registered d) k of
            Some b \<Rightarrow> b\<lparr>right := resettable_of_option r\<rparr>
          | None \<Rightarrow> \<lparr>left = Unchanged, right = resettable_of_option r, bvalue = None\<rparr>)
         (registered d)\<rparr>))"

text \<open>The body of the second loop of \<open>extend_refs\<close>, over the newer bindings.\<close>

definition merge_bind ::
  "'k::linorder \<Rightarrow> ('l, 'r, 'v) vbind \<Rightarrow> ('k, 'l, 'r, 'v) diff_bind \<Rightarrow>
    ('k, 'l, 'r, 'v) diff_bind" where
  "merge_bind k b d =
    d\<lparr>unregistered := om_remove k (unregistered d),
      registered := om_insert k
        (case om_lookup (registered d) k of None \<Rightarrow> b | Some older \<Rightarrow> bind_then older b)
        (registered d)\<rparr>"

definition extend_refs ::
  "('k::linorder, 'l, 'r, 'v) diff_bind \<Rightarrow> ('k, 'l, 'r, 'v) diff_bind \<Rightarrow>
    ('k, 'l, 'r, 'v) diff_bind" where
  "extend_refs d newer =
    (let d1 = foldl (\<lambda>d k. unregister k d) d (om_keys (unregistered newer))
     in foldl (\<lambda>d (k, b). merge_bind k b d) d1 (om_entries (registered newer)))"

definition db_fold ::
  "('k::linorder, 'l, 'r, 'v) diff_bind list \<Rightarrow> ('k, 'l, 'r, 'v) diff_bind" where
  "db_fold deltas = foldl extend_refs db_default deltas"

section \<open>Registrations and DiffEpochReg\<close>

datatype 'v registrations = Registrations 'v "'v option"

definition regs_new :: "'v \<Rightarrow> 'v registrations" where
  "regs_new v = Registrations v None"

fun regs_next :: "'v registrations \<Rightarrow> 'v \<Rightarrow> 'v registrations" where
  "regs_next (Registrations current _) v = Registrations current (Some v)"

fun regs_last :: "'v registrations \<Rightarrow> 'v" where
  "regs_last (Registrations current next) = (case next of Some v \<Rightarrow> v | None \<Rightarrow> current)"

fun regs_iter :: "'v registrations \<Rightarrow> 'v list" where
  "regs_iter (Registrations current next) =
    current # (case next of Some v \<Rightarrow> [v] | None \<Rightarrow> [])"

record (overloaded) ('k::linorder, 'v) diff_epoch_reg =
  er_registered :: "('k, 'v registrations) omap"
  er_unregistered :: "('k, epoch) omap"

definition er_default :: "('k::linorder, 'v) diff_epoch_reg" where
  "er_default = \<lparr>er_registered = om_empty, er_unregistered = om_empty\<rparr>"

definition er_register ::
  "'k::linorder \<Rightarrow> 'v \<Rightarrow> ('k, 'v) diff_epoch_reg \<Rightarrow> ('k, 'v) diff_epoch_reg" where
  "er_register k v d =
    d\<lparr>er_unregistered := om_remove k (er_unregistered d),
      er_registered :=
        om_insert k
          (case om_lookup (er_registered d) k of
             None \<Rightarrow> regs_new v
           | Some registration \<Rightarrow> regs_next registration v)
          (er_registered d)\<rparr>"

definition er_unregister ::
  "'k::linorder \<Rightarrow> epoch \<Rightarrow> ('k, 'v) diff_epoch_reg \<Rightarrow> ('k, 'v) diff_epoch_reg" where
  "er_unregister k e d = d\<lparr>er_unregistered := om_insert k e (er_unregistered d)\<rparr>"

definition er_extend ::
  "('k::linorder, 'v) diff_epoch_reg \<Rightarrow> ('k, 'v) diff_epoch_reg \<Rightarrow> ('k, 'v) diff_epoch_reg" where
  "er_extend d most_recent =
    (let d1 = foldl (\<lambda>d (k, rs). foldl (\<lambda>d v. er_register k v d) d (regs_iter rs))
                d (om_entries (er_registered most_recent))
     in foldl (\<lambda>d (k, e). er_unregister k e d) d1 (om_entries (er_unregistered most_recent)))"

section \<open>Lookups after each operation\<close>

lemma om_contains_simps [diff_simps]:
  "om_contains om_empty k = False"
  "om_contains (os_insert x s) k = (k = x \<or> om_contains s k)"
  "om_contains (om_remove x m) k = (k \<noteq> x \<and> om_contains m k)"
  "om_contains (om_insert x v m) k = (k = x \<or> om_contains m k)"
  by (auto simp: om_contains_def os_insert_def)

lemma set_om_keys_contains: "k \<in> set (om_keys m) \<longleftrightarrow> om_contains m k"
  by (simp add: om_keys_set om_contains_def)

lemma os_eq_containsI: "(\<And>k. om_contains s k = om_contains t k) \<Longrightarrow> s = t" for s t :: "'a::linorder oset"
  by (rule os_eqI) (auto simp: om_contains_os_set)

lemma ds_consume_all:
  "om_lookup (produced (foldl (\<lambda>d k. d\<lparr>produced := om_remove k (produced d),
      consumed := os_insert k (consumed d)\<rparr>) d ks)) x =
    (if x \<in> set ks then None else om_lookup (produced d) x)"
  "om_contains (consumed (foldl (\<lambda>d k. d\<lparr>produced := om_remove k (produced d),
      consumed := os_insert k (consumed d)\<rparr>) d ks)) x =
    (x \<in> set ks \<or> om_contains (consumed d) x)"
  by (induction ks arbitrary: d) (auto simp: diff_simps)

lemma ds_produce_all:
  "produced (foldl (\<lambda>d (k, v). d\<lparr>produced := om_insert k v (produced d)\<rparr>) d xs) =
    om_extend (produced d) xs"
  "consumed (foldl (\<lambda>d (k, v). d\<lparr>produced := om_insert k v (produced d)\<rparr>) d xs) = consumed d"
  by (induction xs arbitrary: d) auto

lemma ds_extend_lookup [diff_simps]:
  "om_lookup (produced (ds_extend d e)) k =
    (case om_lookup (produced e) k of
       Some v \<Rightarrow> Some v
     | None \<Rightarrow> if om_contains (consumed e) k then None else om_lookup (produced d) k)"
  "om_contains (consumed (ds_extend d e)) k =
    (om_contains (consumed e) k \<or> om_contains (consumed d) k)"
  by (simp_all add: ds_extend_def Let_def ds_produce_all ds_consume_all om_lookup_extend_entries
      map_add_def set_om_keys_contains split: option.split)

lemma ds_unproduce_all:
  "om_lookup (produced (foldl (\<lambda>d k. d\<lparr>produced := om_remove k (produced d)\<rparr>) d ks)) x =
    (if x \<in> set ks then None else om_lookup (produced d) x)"
  "consumed (foldl (\<lambda>d k. d\<lparr>produced := om_remove k (produced d)\<rparr>) d ks) = consumed d"
  by (induction ks arbitrary: d) auto

lemma ds_unconsume_all:
  "om_contains (consumed (foldl (\<lambda>d k. d\<lparr>consumed := om_remove k (consumed d)\<rparr>) d ks)) x =
    (x \<notin> set ks \<and> om_contains (consumed d) x)"
  "produced (foldl (\<lambda>d k. d\<lparr>consumed := om_remove k (consumed d)\<rparr>) d ks) = produced d"
  by (induction ks arbitrary: d) (auto simp: diff_simps)

lemma ds_remove_lookup [diff_simps]:
  "om_lookup (produced (ds_remove d e)) k =
    (if om_contains (produced e) k then None else om_lookup (produced d) k)"
  "om_contains (consumed (ds_remove d e)) k =
    (\<not> om_contains (consumed e) k \<and> om_contains (consumed d) k)"
  by (simp_all add: ds_remove_def Let_def ds_unproduce_all ds_unconsume_all set_om_keys_contains)

lemma diff_set_eqI:
  fixes d e :: "('k::linorder, 'v) diff_set"
  assumes "\<And>k. om_lookup (produced d) k = om_lookup (produced e) k"
    "\<And>k. om_contains (consumed d) k = om_contains (consumed e) k"
  shows "d = e"
  using assms by (intro diff_set.equality om_eqI os_eq_containsI) auto

lemma db_unregister_all:
  "om_lookup (registered (foldl (\<lambda>d k. unregister k d) d ks)) x =
    (if x \<in> set ks then None else om_lookup (registered d) x)"
  "om_contains (unregistered (foldl (\<lambda>d k. unregister k d) d ks)) x =
    (x \<in> set ks \<or> om_contains (unregistered d) x)"
  by (induction ks arbitrary: d) (auto simp: unregister_def diff_simps)

lemma merge_bind_lookup [diff_simps]:
  "om_lookup (registered (merge_bind k b d)) x =
    (if x = k
     then Some (case om_lookup (registered d) k of None \<Rightarrow> b | Some older \<Rightarrow> bind_then older b)
     else om_lookup (registered d) x)"
  "om_contains (unregistered (merge_bind k b d)) x = (x \<noteq> k \<and> om_contains (unregistered d) x)"
  by (simp_all add: merge_bind_def diff_simps)

lemma merge_bind_all:
  assumes "distinct (map fst xs)"
  shows "om_lookup (registered (foldl (\<lambda>d (k, b). merge_bind k b d) d xs)) x =
      (case map_of xs x of
         None \<Rightarrow> om_lookup (registered d) x
       | Some b \<Rightarrow> Some (case om_lookup (registered d) x of None \<Rightarrow> b | Some older \<Rightarrow> bind_then older b))"
    (is ?lookup)
    and "om_contains (unregistered (foldl (\<lambda>d (k, b). merge_bind k b d) d xs)) x =
      (x \<notin> fst ` set xs \<and> om_contains (unregistered d) x)" (is ?contains)
proof -
  show ?lookup using assms
  proof (induction xs arbitrary: d)
    case (Cons p xs)
    obtain k b where p: "p = (k, b)" by (cases p)
    have "map_of xs k = None" using Cons.prems p by (simp add: map_of_eq_None_iff)
    then show ?case using Cons p by (simp add: diff_simps split: option.split)
  qed simp
  show ?contains using assms
    by (induction xs arbitrary: d) (auto simp: diff_simps)
qed

lemma extend_refs_lookup [diff_simps]:
  "om_lookup (registered (extend_refs d e)) k =
    (case om_lookup (registered e) k of
       None \<Rightarrow> if om_contains (unregistered e) k then None else om_lookup (registered d) k
     | Some b \<Rightarrow> Some (case om_lookup (registered d) k of
         None \<Rightarrow> b
       | Some older \<Rightarrow> if om_contains (unregistered e) k then b else bind_then older b))"
  "om_contains (unregistered (extend_refs d e)) k =
    (\<not> om_contains (registered e) k \<and>
      (om_contains (unregistered e) k \<or> om_contains (unregistered d) k))"
proof -
  let ?d = "foldl (\<lambda>d k. unregister k d) d (om_keys (unregistered e))"
  have d: "om_lookup (registered ?d) k =
      (if om_contains (unregistered e) k then None else om_lookup (registered d) k)"
    "om_contains (unregistered ?d) k =
      (om_contains (unregistered e) k \<or> om_contains (unregistered d) k)"
    by (simp_all add: db_unregister_all set_om_keys_contains)
  show "om_lookup (registered (extend_refs d e)) k =
    (case om_lookup (registered e) k of
       None \<Rightarrow> if om_contains (unregistered e) k then None else om_lookup (registered d) k
     | Some b \<Rightarrow> Some (case om_lookup (registered d) k of
         None \<Rightarrow> b
       | Some older \<Rightarrow> if om_contains (unregistered e) k then b else bind_then older b))"
    using merge_bind_all(1) [OF om_entries_distinct, of ?d "registered e" k] d
    by (simp add: extend_refs_def Let_def om_lookup_entries split: option.splits)
  have "k \<in> fst ` set (om_entries (registered e)) \<longleftrightarrow> om_contains (registered e) k"
    using set_om_keys_contains [of k "registered e"] by (simp add: om_keys_def)
  then show "om_contains (unregistered (extend_refs d e)) k =
    (\<not> om_contains (registered e) k \<and>
      (om_contains (unregistered e) k \<or> om_contains (unregistered d) k))"
    using merge_bind_all(2) [OF om_entries_distinct, of ?d "registered e" k] d
    by (simp add: extend_refs_def Let_def)
qed

lemma diff_bind_eqI:
  fixes d e :: "('k::linorder, 'l, 'r, 'v) diff_bind"
  assumes "\<And>k. om_lookup (registered d) k = om_lookup (registered e) k"
    "\<And>k. om_contains (unregistered d) k = om_contains (unregistered e) k"
  shows "d = e"
  using assms by (intro diff_bind.equality om_eqI os_eq_containsI) auto

lemma er_register_lookup [diff_simps]:
  "om_lookup (er_registered (er_register k v d)) x =
    (if x = k
     then Some (case om_lookup (er_registered d) k of None \<Rightarrow> regs_new v | Some r \<Rightarrow> regs_next r v)
     else om_lookup (er_registered d) x)"
  "om_lookup (er_unregistered (er_register k v d)) x =
    (if x = k then None else om_lookup (er_unregistered d) x)"
  by (simp_all add: er_register_def)

lemma er_unregister_lookup [diff_simps]:
  "om_lookup (er_unregistered (er_unregister k e d)) x =
    (if x = k then Some e else om_lookup (er_unregistered d) x)"
  "er_registered (er_unregister k e d) = er_registered d"
  by (simp_all add: er_unregister_def)

text \<open>The registrations left when those of \<open>new\<close> follow those of \<open>old\<close>.\<close>

definition regs_merge :: "'v registrations option \<Rightarrow> 'v registrations \<Rightarrow> 'v registrations" where
  "regs_merge old new = (case old of None \<Rightarrow> new | Some r \<Rightarrow> regs_next r (regs_last new))"

lemma regs_next_next [simp]: "regs_next (regs_next r v) w = regs_next r w"
  by (cases r) simp

lemma er_register_regs:
  "om_lookup (er_registered (foldl (\<lambda>d v. er_register k v d) d (regs_iter rs))) x =
    (if x = k then Some (regs_merge (om_lookup (er_registered d) k) rs)
     else om_lookup (er_registered d) x)"
  "om_lookup (er_unregistered (foldl (\<lambda>d v. er_register k v d) d (regs_iter rs))) x =
    (if x = k then None else om_lookup (er_unregistered d) x)"
  by (cases rs, simp add: diff_simps regs_merge_def regs_new_def split: option.split)+

lemma er_register_all:
  assumes "distinct (map fst xs)"
  shows "om_lookup (er_registered (foldl (\<lambda>d (k, rs). foldl (\<lambda>d v. er_register k v d) d (regs_iter rs)) d xs)) x =
      (case map_of xs x of
         None \<Rightarrow> om_lookup (er_registered d) x
       | Some rs \<Rightarrow> Some (regs_merge (om_lookup (er_registered d) x) rs))" (is ?reg)
    and "om_lookup (er_unregistered (foldl (\<lambda>d (k, rs). foldl (\<lambda>d v. er_register k v d) d (regs_iter rs)) d xs)) x =
      (if x \<in> fst ` set xs then None else om_lookup (er_unregistered d) x)" (is ?unreg)
proof -
  show ?reg using assms
  proof (induction xs arbitrary: d)
    case (Cons p xs)
    obtain k rs where p: "p = (k, rs)" by (cases p)
    have "map_of xs k = None" using Cons.prems p by (simp add: map_of_eq_None_iff)
    then show ?case using Cons p by (simp add: er_register_regs split: option.split)
  qed simp
  show ?unreg using assms
    by (induction xs arbitrary: d) (auto simp: er_register_regs)
qed

lemma er_unregister_all:
  "om_lookup (er_unregistered (foldl (\<lambda>d (k, e). er_unregister k e d) d xs)) =
    om_lookup (er_unregistered d) ++ map_of (rev xs)"
  "er_registered (foldl (\<lambda>d (k, e). er_unregister k e d) d xs) = er_registered d"
proof (induction xs arbitrary: d)
  case (Cons p xs)
  obtain k e where p: "p = (k, e)" by (cases p)
  { case 1 show ?case using Cons(1) [of "er_unregister k e d"] p
      by (auto simp: fun_eq_iff map_add_def diff_simps split: option.split) }
  { case 2 show ?case using Cons(2) [of "er_unregister k e d"] p by (simp add: diff_simps) }
qed simp_all

lemma er_extend_lookup [diff_simps]:
  "om_lookup (er_registered (er_extend d e)) k =
    (case om_lookup (er_registered e) k of
       None \<Rightarrow> om_lookup (er_registered d) k
     | Some rs \<Rightarrow> Some (regs_merge (om_lookup (er_registered d) k) rs))"
  "om_lookup (er_unregistered (er_extend d e)) k =
    (case om_lookup (er_unregistered e) k of
       Some x \<Rightarrow> Some x
     | None \<Rightarrow> if om_contains (er_registered e) k then None else om_lookup (er_unregistered d) k)"
proof -
  have k: "k \<in> fst ` set (om_entries (er_registered e)) \<longleftrightarrow> om_contains (er_registered e) k"
    using set_om_keys_contains [of k "er_registered e"] by (simp add: om_keys_def)
  show "om_lookup (er_registered (er_extend d e)) k =
    (case om_lookup (er_registered e) k of
       None \<Rightarrow> om_lookup (er_registered d) k
     | Some rs \<Rightarrow> Some (regs_merge (om_lookup (er_registered d) k) rs))"
    by (simp add: er_extend_def Let_def er_unregister_all er_register_all om_lookup_entries [symmetric])
  show "om_lookup (er_unregistered (er_extend d e)) k =
    (case om_lookup (er_unregistered e) k of
       Some x \<Rightarrow> Some x
     | None \<Rightarrow> if om_contains (er_registered e) k then None else om_lookup (er_unregistered d) k)"
    by (simp add: er_extend_def Let_def er_unregister_all er_register_all map_of_rev_distinct
        om_lookup_entries [symmetric] map_add_def k split: option.split)
qed

lemma diff_epoch_reg_eqI:
  fixes d e :: "('k::linorder, 'v) diff_epoch_reg"
  assumes "\<And>k. om_lookup (er_registered d) k = om_lookup (er_registered e) k"
    "\<And>k. om_lookup (er_unregistered d) k = om_lookup (er_unregistered e) k"
  shows "d = e"
  using assms by (intro diff_epoch_reg.equality om_eqI) auto

section \<open>Bind updates compose\<close>

lemma bind_then_assoc: "bind_then (bind_then a b) c = bind_then a (bind_then b c)"
  by (auto simp: bind_then_def)

lemma bind_then_value [simp]:
  "bvalue (bind_then older newer) = (case bvalue newer of None \<Rightarrow> bvalue older | Some v \<Rightarrow> Some v)"
  by (auto simp: bind_then_def split: option.split)

text \<open>
  What a verdict makes of the verdict below it: \<open>Gone\<close> and full registrations
  supersede it, an update of bindings alone layers over a known entity.
\<close>

fun over :: "('l, 'r, 'v) vbind existence \<Rightarrow> ('l, 'r, 'v) vbind existence \<Rightarrow>
    ('l, 'r, 'v) vbind existence" where
  "over Unknown older = older" |
  "over Gone older = Gone" |
  "over (Exists newer) (Exists older) = Exists (bind_then older newer)" |
  "over (Exists newer) older = Exists newer"

lemma over_Unknown [simp]: "over x Unknown = x"
  by (cases x) auto

lemma existence_chain_over: "existence_chain newer older = over newer older"
  by (cases newer; cases older) (auto simp: existence_chain_def existence_fold_def bind_then_def fold_loop.simps(2))

lemma over_Exists_Exists:
  "over (Exists newer) (over (Exists older) r) = over (Exists (bind_then older newer)) r"
  by (cases r) (simp_all add: bind_then_assoc)

lemma over_value:
  assumes "bvalue newer \<noteq> None"
  shows "over (Exists newer) r = Exists newer"
  using assms by (cases r) (simp_all add: bind_then_def)

lemma fold_loop_over:
  "Unknown \<notin> set xs \<Longrightarrow> fold_loop x xs = over x (foldr over xs Unknown)"
proof (induction x xs rule: fold_loop.induct)
  case (2 newer xs)
  show ?case
  proof (cases "bvalue newer")
    case None
    show ?thesis
    proof (cases xs)
      case (Cons y ys)
      then show ?thesis
        using "2.IH" [of y ys] "2.prems" None
        by (cases y) (simp_all add: over_Exists_Exists fold_loop.simps(2) [of newer] del: over.simps(3))
    qed (simp add: fold_loop.simps(2))
  qed (simp add: over_value fold_loop.simps(2))
qed auto

lemma existence_fold_over:
  "Unknown \<notin> set xs \<Longrightarrow> existence_fold xs = foldr over xs Unknown"
  by (simp add: existence_fold_def fold_loop_over)

section \<open>What a verdict means for a stored entity\<close>

text \<open>
  A stored entity has its two optional delegations and its value.  A verdict
  applies to it the way the store's columns do: a registration starts from empty
  delegations, an update of bindings leaves the rest of an existing entity.
\<close>

fun apply_verdict ::
  "('l, 'r, 'v) vbind existence \<Rightarrow> ('l option \<times> 'r option \<times> 'v) option \<Rightarrow>
    ('l option \<times> 'r option \<times> 'v) option" where
  "apply_verdict Unknown entity = entity" |
  "apply_verdict Gone entity = None" |
  "apply_verdict (Exists b) entity =
    (case bvalue b of
       Some v \<Rightarrow> Some (into_option (left b) None, into_option (right b) None, v)
     | None \<Rightarrow>
         map_option (\<lambda>(l, r, v). (into_option (left b) l, into_option (right b) r, v)) entity)"

text \<open>
  A history, from the newest verdict to the oldest, in which no update of
  bindings alone follows a removal: the ledger rules reject such certificates.
\<close>

fun valid_history :: "('l, 'r, 'v) vbind existence list \<Rightarrow> bool" where
  "valid_history [] = True" |
  "valid_history (x # xs) =
    (valid_history xs \<and> x \<noteq> Unknown \<and>
     (case x of
        Exists b \<Rightarrow> bvalue b \<noteq> None \<or> xs = [] \<or> hd xs \<noteq> Gone
      | _ \<Rightarrow> True))"

lemma apply_verdict_over:
  assumes "\<And>b. x = Exists b \<Longrightarrow> bvalue b = None \<Longrightarrow> y \<noteq> Gone"
  shows "apply_verdict (over x y) entity = apply_verdict x (apply_verdict y entity)"
proof (cases x)
  case (Exists b)
  show ?thesis
  proof (cases "bvalue b")
    case None
    then show ?thesis
      using Exists assms
      by (cases y; cases "left b"; cases "right b"; cases entity)
        (auto simp: bind_then_def split: option.split)
  next
    case (Some v)
    then show ?thesis using Exists by (simp add: over_value)
  qed
qed auto

lemma valid_history_no_Unknown: "valid_history xs \<Longrightarrow> Unknown \<notin> set xs"
  by (induction xs) auto

lemma foldr_over_Gone:
  "valid_history (x # xs) \<Longrightarrow> foldr over (x # xs) Unknown = Gone \<Longrightarrow> x = Gone"
  by (cases x) (auto elim: over.elims)

section \<open>Merging is running on top\<close>

fun run_ops :: "('op \<Rightarrow> 'd \<Rightarrow> 'd option) \<Rightarrow> 'op list \<Rightarrow> 'd \<Rightarrow> 'd option" where
  "run_ops step [] d = Some d" |
  "run_ops step (op # ops) d = (case step op d of None \<Rightarrow> None | Some d' \<Rightarrow> run_ops step ops d')"

locale mergeable_diff =
  fixes emp :: "'d"
    and step :: "'op \<Rightarrow> 'd \<Rightarrow> 'd option"
    and extend :: "'d \<Rightarrow> 'd \<Rightarrow> 'd"
    and inv :: "'d \<Rightarrow> bool"
  assumes inv_emp: "inv emp"
    and inv_step: "inv d \<Longrightarrow> step op d = Some d' \<Longrightarrow> inv d'"
    and inv_extend: "inv a \<Longrightarrow> inv d \<Longrightarrow> inv (extend a d)"
    and extend_emp: "inv a \<Longrightarrow> extend a emp = a"
    and step_extend: "inv a \<Longrightarrow> inv d \<Longrightarrow> step op (extend a d) = Some s \<Longrightarrow>
      \<exists>d'. step op d = Some d' \<and> extend a d' = s"
begin

lemma run_extend:
  assumes "inv a" "inv d" "run_ops step ops (extend a d) = Some s"
  shows "\<exists>d'. run_ops step ops d = Some d' \<and> inv d' \<and> extend a d' = s"
  using assms(2,3)
proof (induction ops arbitrary: d)
  case (Cons op ops)
  then obtain s1 where s1: "step op (extend a d) = Some s1" "run_ops step ops s1 = Some s"
    by (auto split: option.splits)
  obtain d1 where d1: "step op d = Some d1" "extend a d1 = s1"
    using step_extend [OF assms(1) Cons.prems(1) s1(1)] by blast
  have "inv d1" by (rule inv_step [OF Cons.prems(1) d1(1)])
  then show ?case using Cons.IH [of d1] d1 s1 by simp
qed simp

lemma merge_block:
  assumes "inv a" "run_ops step ops a = Some s"
  shows "\<exists>d. run_ops step ops emp = Some d \<and> inv d \<and> extend a d = s"
  using run_extend [OF assms(1) inv_emp] assms by (simp add: extend_emp)

lemma run_ops_append:
  "run_ops step (xs @ ys) d =
    (case run_ops step xs d of None \<Rightarrow> None | Some d' \<Rightarrow> run_ops step ys d')"
  by (induction xs arbitrary: d) (auto split: option.split)

lemma inv_run: "inv d \<Longrightarrow> run_ops step ops d = Some d' \<Longrightarrow> inv d'"
  by (induction ops arbitrary: d) (auto split: option.splits dest: inv_step)

lemma merge_blocks:
  assumes "inv a" "run_ops step (concat blocks) a = Some s"
  shows "\<exists>deltas. map (\<lambda>ops. run_ops step ops emp) blocks = map Some deltas \<and>
    (\<forall>d \<in> set deltas. inv d) \<and> foldl extend a deltas = s"
  using assms
proof (induction blocks arbitrary: a)
  case (Cons ops blocks)
  then obtain s1 where s1: "run_ops step ops a = Some s1" "run_ops step (concat blocks) s1 = Some s"
    by (auto simp: run_ops_append split: option.splits)
  obtain d where d: "run_ops step ops emp = Some d" "inv d" "extend a d = s1"
    using merge_block [OF Cons.prems(1) s1(1)] by blast
  obtain ds where ds: "map (\<lambda>ops. run_ops step ops emp) blocks = map Some ds"
    "\<forall>d \<in> set ds. inv d" "foldl extend s1 ds = s"
    using Cons.IH [OF inv_run [OF Cons.prems(1) s1(1)] s1(2)] by blast
  have "map (\<lambda>ops. run_ops step ops emp) (ops # blocks) = map Some (d # ds)"
    "\<forall>d \<in> set (d # ds). inv d" "foldl extend a (d # ds) = s"
    using d ds by simp_all
  then show ?case by blast
qed simp

end

datatype ('k, 'v) set_change = Produce 'k 'v | Consume 'k

fun ds_step :: "('k::linorder, 'v) set_change \<Rightarrow> ('k, 'v) diff_set \<Rightarrow> ('k, 'v) diff_set option" where
  "ds_step (Produce k v) d = Some (produce k v d)" |
  "ds_step (Consume k) d = Some (consume k d)"

datatype ('k, 'l, 'r, 'v) bind_change =
    Register 'k 'v "'l option" "'r option"
  | Unregister 'k
  | BindLeft 'k "'l option"
  | BindRight 'k "'r option"

fun db_step ::
  "('k::linorder, 'l, 'r, 'v) bind_change \<Rightarrow> ('k, 'l, 'r, 'v) diff_bind \<Rightarrow>
    ('k, 'l, 'r, 'v) diff_bind option" where
  "db_step (Register k v l r) d = (case register k v l r d of Inl e \<Rightarrow> None | Inr d' \<Rightarrow> Some d')" |
  "db_step (Unregister k) d = Some (unregister k d)" |
  "db_step (BindLeft k l) d = (case bind_left k l d of Inl e \<Rightarrow> None | Inr d' \<Rightarrow> Some d')" |
  "db_step (BindRight k r) d = (case bind_right k r d of Inl e \<Rightarrow> None | Inr d' \<Rightarrow> Some d')"

datatype ('k, 'v) reg_change = EpochRegister 'k 'v | EpochUnregister 'k epoch

fun er_step ::
  "('k::linorder, 'v) reg_change \<Rightarrow> ('k, 'v) diff_epoch_reg \<Rightarrow> ('k, 'v) diff_epoch_reg option" where
  "er_step (EpochRegister k v) d = Some (er_register k v d)" |
  "er_step (EpochUnregister k e) d = Some (er_unregister k e d)"

text \<open>No key of a \<open>DiffBind\<close> is both bound and removed.\<close>

definition db_ok :: "('k::linorder, 'l, 'r, 'v) diff_bind \<Rightarrow> bool" where
  "db_ok d = list_all (\<lambda>k. \<not> om_contains (registered d) k) (om_keys (unregistered d))"

lemma registered_contains:
  "om_contains (registered d) k \<longleftrightarrow> om_lookup (registered d) k \<noteq> None"
  by (rule om_contains_def)

lemma db_ok_iff:
  "db_ok d \<longleftrightarrow> (\<forall>k. om_contains (unregistered d) k \<longrightarrow> om_lookup (registered d) k = None)"
  by (auto simp: db_ok_def list_all_iff set_om_keys_contains registered_contains)

lemma er_registered_contains:
  "om_contains (er_registered d) k \<longleftrightarrow> om_lookup (er_registered d) k \<noteq> None"
  by (rule om_contains_def)

interpretation ds: mergeable_diff ds_default ds_step ds_extend "\<lambda>_. True"
proof unfold_locales
  fix a d s :: "('a, 'b) diff_set" and ch :: "('a, 'b) set_change"
  show "ds_extend a ds_default = a"
    by (rule diff_set_eqI) (simp_all add: diff_simps ds_default_def)
  assume "ds_step ch (ds_extend a d) = Some s"
  then show "\<exists>d'. ds_step ch d = Some d' \<and> ds_extend a d' = s"
    by (cases ch) (auto intro!: diff_set_eqI simp: produce_def consume_def diff_simps split: option.split)
qed simp_all

interpretation er: mergeable_diff er_default er_step er_extend "\<lambda>_. True"
proof unfold_locales
  fix a d s :: "('a, 'b) diff_epoch_reg" and ch :: "('a, 'b) reg_change"
  show "er_extend a er_default = a"
    by (rule diff_epoch_reg_eqI) (simp_all add: diff_simps er_default_def)
  have last: "regs_last (regs_next r v) = v" for r :: "'b registrations" and v
    by (cases r) simp
  assume "er_step ch (er_extend a d) = Some s"
  then show "\<exists>d'. er_step ch d = Some d' \<and> er_extend a d' = s"
    by (cases ch)
      (auto intro!: diff_epoch_reg_eqI
        simp: diff_simps er_registered_contains regs_merge_def regs_new_def last split: option.split)
qed simp_all

lemma db_ok_step: "db_ok d \<Longrightarrow> db_step ch d = Some d' \<Longrightarrow> db_ok d'"
  by (cases ch)
    (auto simp: db_ok_iff register_def unregister_def bind_left_def bind_right_def diff_simps
      registered_contains split: if_splits)

lemma db_ok_extend: "db_ok a \<Longrightarrow> db_ok d \<Longrightarrow> db_ok (extend_refs a d)"
  by (auto simp: db_ok_iff diff_simps registered_contains split: option.splits)

lemma bind_then_set_left: "r \<noteq> Unchanged \<Longrightarrow> bind_then a (b\<lparr>left := r\<rparr>) = (bind_then a b)\<lparr>left := r\<rparr>"
  by (simp add: bind_then_def)

lemma bind_then_set_right: "r \<noteq> Unchanged \<Longrightarrow> bind_then a (b\<lparr>right := r\<rparr>) = (bind_then a b)\<lparr>right := r\<rparr>"
  by (simp add: bind_then_def)

lemma bind_then_only_left:
  "r \<noteq> Unchanged \<Longrightarrow> bind_then a \<lparr>left = r, right = Unchanged, bvalue = None\<rparr> = a\<lparr>left := r\<rparr>"
  by (simp add: bind_then_def)

lemma bind_then_only_right:
  "r \<noteq> Unchanged \<Longrightarrow> bind_then a \<lparr>left = Unchanged, right = r, bvalue = None\<rparr> = a\<lparr>right := r\<rparr>"
  by (simp add: bind_then_def)

lemma resettable_of_option_changed [simp]: "resettable_of_option x \<noteq> Unchanged"
  by (cases x) auto

lemmas bind_then_update =
  bind_then_set_left bind_then_set_right bind_then_only_left bind_then_only_right

lemma register_extend:
  assumes "db_ok d" "register k v l r (extend_refs a d) = Ok s"
  shows "\<exists>d'. register k v l r d = Ok d' \<and> extend_refs a d' = s"
proof -
  have k: "om_lookup (registered d) k = None"
    using assms(2) by (auto simp: register_def registered_contains diff_simps split: if_splits option.splits)
  then obtain d' where d': "register k v l r d = Ok d'"
    by (simp add: register_def registered_contains)
  have "extend_refs a d' = s"
    using assms d' k
    by (auto intro!: diff_bind_eqI simp: register_def diff_simps bind_then_def registered_contains
        split: option.splits if_splits)
  then show ?thesis using d' by blast
qed

lemma bind_left_extend:
  assumes "db_ok d" "bind_left k l (extend_refs a d) = Ok s"
  shows "\<exists>d'. bind_left k l d = Ok d' \<and> extend_refs a d' = s"
proof -
  have k: "\<not> om_contains (unregistered d) k"
    using assms by (auto simp: bind_left_def registered_contains diff_simps db_ok_iff split: if_splits)
  then obtain d' where d': "bind_left k l d = Ok d'"
    by (simp add: bind_left_def)
  have "extend_refs a d' = s"
    using assms d' k
    by (auto intro!: diff_bind_eqI simp: bind_left_def diff_simps bind_then_update registered_contains
        split: option.splits if_splits)
  then show ?thesis using d' by blast
qed

lemma bind_right_extend:
  assumes "db_ok d" "bind_right k r (extend_refs a d) = Ok s"
  shows "\<exists>d'. bind_right k r d = Ok d' \<and> extend_refs a d' = s"
proof -
  have k: "\<not> om_contains (unregistered d) k"
    using assms by (auto simp: bind_right_def registered_contains diff_simps db_ok_iff split: if_splits)
  then obtain d' where d': "bind_right k r d = Ok d'"
    by (simp add: bind_right_def)
  have "extend_refs a d' = s"
    using assms d' k
    by (auto intro!: diff_bind_eqI simp: bind_right_def diff_simps bind_then_update registered_contains
        split: option.splits if_splits)
  then show ?thesis using d' by blast
qed

lemma unregister_extend: "db_ok d \<Longrightarrow> extend_refs a (unregister k d) = unregister k (extend_refs a d)"
  by (rule diff_bind_eqI) (auto simp: unregister_def diff_simps registered_contains split: option.split)

interpretation db: mergeable_diff db_default db_step extend_refs db_ok
proof unfold_locales
  show "db_ok db_default" by (simp add: db_ok_def db_default_def)
next
  fix a d s :: "('a, 'b, 'c, 'd) diff_bind" and ch :: "('a, 'b, 'c, 'd) bind_change"
  assume "db_ok a"
  show "extend_refs a db_default = a"
    by (rule diff_bind_eqI) (simp_all add: diff_simps db_default_def)
  assume d: "db_ok d" and step: "db_step ch (extend_refs a d) = Some s"
  show "\<exists>d'. db_step ch d = Some d' \<and> extend_refs a d' = s"
  proof (cases ch)
    case (Register k v l r)
    then show ?thesis
      using step register_extend [OF d, of k v l r a s] by (auto split: sum.splits)
  next
    case (Unregister k)
    then show ?thesis using step unregister_extend [OF d, of a k] by simp
  next
    case (BindLeft k l)
    then show ?thesis using step bind_left_extend [OF d, of k l a s] by (auto split: sum.splits)
  next
    case (BindRight k r)
    then show ?thesis using step bind_right_extend [OF d, of k r a s] by (auto split: sum.splits)
  qed
qed (rule db_ok_step db_ok_extend; assumption)+

section \<open>Properties of the diffs\<close>

lemma db_get_extend:
  "db_ok d \<Longrightarrow> db_get (extend_refs a d) k = over (db_get d k) (db_get a k)"
  by (auto simp: db_get_def diff_simps registered_contains db_ok_iff split: option.splits)

lemma ds_get_extend: "ds_get (ds_extend a d) k = or_else (ds_get d k) (ds_get a k)"
  by (auto simp: ds_get_def diff_simps split: option.splits)

lemma ds_run_total: "\<exists>d'. run_ops ds_step ops d = Some d'"
proof (induction ops arbitrary: d)
  case (Cons ch ops)
  then show ?case by (cases ch) auto
qed simp

lemma er_run_total: "\<exists>d'. run_ops er_step ops d = Some d'"
proof (induction ops arbitrary: d)
  case (Cons ch ops)
  then show ?case by (cases ch) auto
qed simp

text \<open>
  C11. Whenever a sequence of blocks of registrations, deregistrations and
  delegation changes is accepted on an accumulated \<open>DiffBind\<close>, each block is
  accepted on an empty diff of its own, folding those per-block diffs
  (\<open>DiffBind::fold\<close>) gives the accumulated diff, and in it no key is both bound
  and removed.
\<close>
theorem diff_bind_fold_is_replay:
  assumes "run_ops db_step (concat blocks) db_default = Some s"
  shows "\<exists>deltas. map (\<lambda>ops. run_ops db_step ops db_default) blocks = map Some deltas \<and>
    db_fold deltas = s \<and> db_ok s"
  using db.merge_blocks [OF db.inv_emp assms] db.inv_run [OF db.inv_emp assms]
  by (auto simp: db_fold_def)

theorem diff_bind_fold_is_replay_witness:
  "\<exists>s deltas. run_ops db_step (concat
      [[Register (1::nat) (100::nat) (Some (7::nat)) (None :: nat option)],
       [BindLeft 1 (Some 8), Unregister 2], [Unregister 1, Register 1 200 None (Some 3)]])
      db_default = Some s \<and>
    map (\<lambda>ops. run_ops db_step ops db_default)
      [[Register 1 100 (Some 7) None],
       [BindLeft 1 (Some 8), Unregister 2], [Unregister 1, Register 1 200 None (Some 3)]] =
      map Some deltas \<and> db_fold deltas = s \<and> db_ok s"
proof -
  let ?bs = "[[Register (1::nat) (100::nat) (Some (7::nat)) (None :: nat option)],
       [BindLeft 1 (Some 8), Unregister 2], [Unregister 1, Register 1 200 None (Some 3)]]"
  have "run_ops db_step (concat ?bs) db_default \<noteq> None" by code_simp
  then obtain s where "run_ops db_step (concat ?bs) db_default = Some s" by blast
  then show ?thesis using diff_bind_fold_is_replay [of ?bs s] by blast
qed

text \<open>
  Merging \<open>DiffSet\<close>s is replaying: the merge of the diffs that blocks of
  productions and consumptions build on their own is the diff of all of them in
  sequence, and a lookup in a merge is the newer diff's verdict, falling back to
  the older one when the newer is inconclusive.
\<close>
theorem diff_set_extend_is_replay:
  "(\<exists>deltas. map (\<lambda>ops. run_ops ds_step ops ds_default) blocks = map Some deltas \<and>
     run_ops ds_step (concat blocks) ds_default = Some (foldl ds_extend ds_default deltas)) \<and>
   ds_get (ds_extend older newer) k = or_else (ds_get newer k) (ds_get older k)"
proof -
  obtain s where s: "run_ops ds_step (concat blocks) ds_default = Some s"
    using ds_run_total by blast
  show ?thesis using ds.merge_blocks [OF TrueI s] s ds_get_extend by auto
qed

lemma er_register_same:
  "om_lookup (er_registered d) k = Some (Registrations v w) \<Longrightarrow>
    run_ops er_step (map (EpochRegister k) vs) d = Some d' \<Longrightarrow>
    om_lookup (er_registered d') k = Some (Registrations v (if vs = [] then w else Some (last vs)))"
proof (induction vs arbitrary: d w)
  case (Cons x vs)
  have "om_lookup (er_registered (er_register k x d)) k = Some (Registrations v (Some x))"
    using Cons.prems(1) by (simp add: diff_simps)
  from Cons.IH [OF this] Cons.prems(2) show ?case by simp
qed simp

text \<open>
  Merging \<open>DiffEpochReg\<close>s is replaying their registrations and retirements in
  order, and however often a pool registers within an epoch the diff keeps
  exactly its first registration and the last one after it.
\<close>
theorem diff_epoch_reg_extend_is_replay:
  "(\<exists>deltas. map (\<lambda>ops. run_ops er_step ops er_default) blocks = map Some deltas \<and>
     run_ops er_step (concat blocks) er_default = Some (foldl er_extend er_default deltas)) \<and>
   (\<exists>d rs. run_ops er_step (map (EpochRegister k) (v # vs)) er_default = Some d \<and>
     om_lookup (er_registered d) k = Some rs \<and>
     regs_iter rs = (if vs = [] then [v] else [v, last vs]))"
proof
  obtain s where s: "run_ops er_step (concat blocks) er_default = Some s"
    using er_run_total by blast
  then show "\<exists>deltas. map (\<lambda>ops. run_ops er_step ops er_default) blocks = map Some deltas \<and>
      run_ops er_step (concat blocks) er_default = Some (foldl er_extend er_default deltas)"
    using er.merge_blocks [OF TrueI s] by auto
  obtain d where d: "run_ops er_step (map (EpochRegister k) vs) (er_register k v er_default) = Some d"
    using er_run_total by blast
  have "om_lookup (er_registered (er_register k v er_default)) k = Some (Registrations v None)"
    by (simp add: diff_simps er_default_def regs_new_def)
  from er_register_same [OF this d]
  show "\<exists>d rs. run_ops er_step (map (EpochRegister k) (v # vs)) er_default = Some d \<and>
     om_lookup (er_registered d) k = Some rs \<and>
     regs_iter rs = (if vs = [] then [v] else [v, last vs])"
    using d by auto
qed

text \<open>
  \<open>Existence::fold\<close> collapses a history of verdicts without losing anything:
  applying the folded verdict to a stored entity gives what applying the verdicts
  one after the other, oldest first, gives, as long as no update of bindings
  alone comes right after a removal.
\<close>
theorem existence_fold_applies_in_sequence:
  assumes "valid_history history"
  shows "apply_verdict (existence_fold history) entity = foldr apply_verdict history entity"
proof -
  have "apply_verdict (foldr over history Unknown) entity = foldr apply_verdict history entity"
    using assms
  proof (induction history)
    case (Cons x xs)
    have "foldr over xs Unknown \<noteq> Gone" if "x = Exists b" "bvalue b = None" for b
      using that Cons.prems foldr_over_Gone [of "hd xs" "tl xs"] by (cases xs) auto
    then have "apply_verdict (over x (foldr over xs Unknown)) entity =
        apply_verdict x (apply_verdict (foldr over xs Unknown) entity)"
      by (rule apply_verdict_over)
    then show ?case using Cons by simp
  qed simp
  then show ?thesis
    using existence_fold_over [OF valid_history_no_Unknown [OF assms]] by simp
qed

theorem existence_fold_applies_in_sequence_witness:
  "valid_history [Exists \<lparr>left = Set (8::nat), right = Unchanged, bvalue = None\<rparr>,
      Exists \<lparr>left = Reset, right = Set (3::nat), bvalue = Some (200::nat)\<rparr>, Gone] \<and>
   apply_verdict (existence_fold
       [Exists \<lparr>left = Set (8::nat), right = Unchanged, bvalue = None\<rparr>,
        Exists \<lparr>left = Reset, right = Set (3::nat), bvalue = Some (200::nat)\<rparr>, Gone])
      (Some (Some 1, None, 5)) =
     Some (Some 8, Some 3, 200)"
  using existence_fold_applies_in_sequence
    [of "[Exists \<lparr>left = Set (8::nat), right = Unchanged, bvalue = None\<rparr>,
      Exists \<lparr>left = Reset, right = Set (3::nat), bvalue = Some (200::nat)\<rparr>, Gone]"
      "Some (Some 1, None, 5)"]
  by simp

end
