(* ===== verification/Volatile_Aggregate.thy ===== *)
theory Volatile_Aggregate
  imports Volatile_Diff Protocol_Parameters
begin

text \<open>
  The aggregate of the volatile window
  (\<open>amaru-ledger/src/state/volatile/{fragment,aggregate}.rs\<close> and
  \<open>volatile/aggregate/*.rs\<close>): what a block contributes, the per-key histories
  \<open>IndexedBind\<close> and counters \<open>IndexedEpochReg\<close>, and how a block is folded into
  the aggregate and retracted from it when it stabilises.
\<close>

section \<open>Per-key histories\<close>

text \<open>
  The deque of a key is a list whose head is its front: the newest verdict.
\<close>

type_synonym ('k, 'l, 'r, 'v) indexed_bind = "('k, ('l, 'r, 'v) vbind existence list) omap"

definition push_front_or_insert ::
  "'k::linorder \<Rightarrow> ('l, 'r, 'v) vbind existence \<Rightarrow> ('k, 'l, 'r, 'v) indexed_bind \<Rightarrow>
    ('k, 'l, 'r, 'v) indexed_bind" where
  "push_front_or_insert key v index =
    (case om_lookup index key of
       Some contributions \<Rightarrow> om_insert key (v # contributions) index
     | None \<Rightarrow> om_insert key [v] index)"

definition ib_extend_with ::
  "(('ls, 'rs, 'vs) vbind \<Rightarrow> ('l, 'r, 'v) vbind) \<Rightarrow> ('k::linorder, 'ls, 'rs, 'vs) diff_bind \<Rightarrow>
    ('k, 'l, 'r, 'v) indexed_bind \<Rightarrow> ('k, 'l, 'r, 'v) indexed_bind" where
  "ib_extend_with f diff index =
    (let index1 = foldl (\<lambda>index (k, b). push_front_or_insert k (Exists (f b)) index)
                    index (om_entries (registered diff))
     in foldl (\<lambda>index k. push_front_or_insert k Gone index) index1 (om_keys (unregistered diff)))"

definition ib_extend ::
  "('k::linorder, 'l, 'r, 'v) diff_bind \<Rightarrow> ('k, 'l, 'r, 'v) indexed_bind \<Rightarrow>
    ('k, 'l, 'r, 'v) indexed_bind" where
  "ib_extend diff index =
    (let index1 = foldl (\<lambda>index (k, b). push_front_or_insert k (Exists b) index)
                    index (om_entries (registered diff))
     in foldl (\<lambda>index k. push_front_or_insert k Gone index) index1 (om_keys (unregistered diff)))"

definition pop_back_or_miss ::
  "bool \<times> ('k::linorder, 'l, 'r, 'v) indexed_bind \<Rightarrow> 'k \<Rightarrow>
    bool \<times> ('k, 'l, 'r, 'v) indexed_bind" where
  "pop_back_or_miss s key =
    (case om_lookup (snd s) key of
       Some contributions \<Rightarrow>
         (fst s,
          if butlast contributions = [] then om_remove key (snd s)
          else om_insert key (butlast contributions) (snd s))
     | None \<Rightarrow> (False, snd s))"

definition ib_remove ::
  "('k::linorder, 'ls, 'rs, 'vs) diff_bind \<Rightarrow> ('k, 'l, 'r, 'v) indexed_bind \<Rightarrow>
    bool \<times> ('k, 'l, 'r, 'v) indexed_bind" where
  "ib_remove diff index =
    foldl pop_back_or_miss (True, index) (om_keys (registered diff) @ om_keys (unregistered diff))"

definition ib_get ::
  "('k::linorder, 'l, 'r, 'v) indexed_bind \<Rightarrow> 'k \<Rightarrow> ('l, 'r, 'v) vbind existence" where
  "ib_get index key =
    (case om_lookup index key of None \<Rightarrow> Unknown | Some contributions \<Rightarrow> existence_fold contributions)"

definition ib_iter ::
  "('k::linorder, 'l, 'r, 'v) indexed_bind \<Rightarrow> ('k \<times> ('l, 'r, 'v) vbind existence) list" where
  "ib_iter index = map (\<lambda>key. (key, ib_get index key)) (om_keys index)"

section \<open>Counters\<close>

type_synonym 'k indexed_epoch_reg = "('k, nat) omap"

definition ie_get :: "'k::linorder indexed_epoch_reg \<Rightarrow> 'k \<Rightarrow> bool" where
  "ie_get index key = om_contains index key"

definition ie_touched :: "('k::linorder, 'v) diff_epoch_reg \<Rightarrow> 'k list" where
  "ie_touched diff = om_keys (er_registered diff) @ om_keys (er_unregistered diff)"

definition ie_extend ::
  "('k::linorder, 'v) diff_epoch_reg \<Rightarrow> 'k indexed_epoch_reg \<Rightarrow> 'k indexed_epoch_reg" where
  "ie_extend diff index =
    foldl (\<lambda>index key. om_insert key
        ((case om_lookup index key of Some n \<Rightarrow> n | None \<Rightarrow> 0) + 1) index)
      index (ie_touched diff)"

definition decrement_or_miss ::
  "bool \<times> 'k::linorder indexed_epoch_reg \<Rightarrow> 'k \<Rightarrow> bool \<times> 'k indexed_epoch_reg" where
  "decrement_or_miss s key =
    (case om_lookup (snd s) key of
       Some count \<Rightarrow>
         (fst s,
          if count - 1 = 0 then om_remove key (snd s) else om_insert key (count - 1) (snd s))
     | None \<Rightarrow> (False, snd s))"

definition ie_remove ::
  "('k::linorder, 'v) diff_epoch_reg \<Rightarrow> 'k indexed_epoch_reg \<Rightarrow> bool \<times> 'k indexed_epoch_reg" where
  "ie_remove diff index = foldl decrement_or_miss (True, index) (ie_touched diff)"

section \<open>Fragments\<close>

record proposal_state =
  ps_proposed_in :: "tx_pointer \<times> nat"
  ps_valid_until :: epoch
  ps_proposal :: proposal

record proposal_state_slim =
  pss_action :: proposal_slim
  pss_valid_until :: epoch

definition proposal_state_slim_of :: "proposal_state \<Rightarrow> proposal_state_slim" where
  "proposal_state_slim_of s =
    \<lparr>pss_action = proposal_slim_of (prop_gov_action (ps_proposal s)),
     pss_valid_until = ps_valid_until s\<rparr>"

type_synonym account_diff =
  "(credential, pool_id \<times> cert_pointer, drep \<times> cert_pointer, lovelace) diff_bind"
type_synonym drep_diff = "(credential, anchor, unit, drep_registration) diff_bind"
type_synonym committee_diff = "(credential, cc_member_status, epoch, unit) diff_bind"
type_synonym pool_registration = "pool_params \<times> cert_pointer \<times> lovelace"

text \<open>
  A transaction output is whatever type the store keeps (\<open>'out\<close>); fees and
  donations are 64-bit words.
\<close>

record 'out volatile_fragment =
  vf_utxo :: "(tx_input, 'out) diff_set"
  vf_pools :: "(pool_id, pool_registration) diff_epoch_reg"
  vf_accounts :: account_diff
  vf_dreps :: drep_diff
  vf_dreps_deregistrations :: "(credential, cert_pointer option) omap"
  vf_committee :: committee_diff
  vf_withdrawals :: "credential oset"
  vf_proposals :: "(proposal_id, proposal_state) omap"
  vf_votes :: "(ballot_id, ballot) diff_set"
  vf_fees :: "64 word"
  vf_donations :: "64 word"

definition vf_default :: "'out volatile_fragment" where
  "vf_default =
    \<lparr>vf_utxo = ds_default, vf_pools = er_default, vf_accounts = db_default, vf_dreps = db_default,
     vf_dreps_deregistrations = om_empty, vf_committee = db_default, vf_withdrawals = om_empty,
     vf_proposals = om_empty, vf_votes = ds_default, vf_fees = 0, vf_donations = 0\<rparr>"

record 'out anchored_fragment =
  af_anchor :: "point \<times> pool_id"
  af_fragment :: "'out volatile_fragment"

definition af_tip :: "'out anchored_fragment \<Rightarrow> point" where
  "af_tip a = fst (af_anchor a)"

section \<open>The aggregate\<close>

record 'out volatile_aggregate =
  va_utxo :: "(tx_input, 'out) diff_set"
  va_pools :: "pool_id indexed_epoch_reg"
  va_accounts :: "(credential, pool_id \<times> cert_pointer, drep \<times> cert_pointer, lovelace) indexed_bind"
  va_dreps :: "(credential, unit, unit, drep_registration) indexed_bind"
  va_committee :: "(credential, cc_member_status, epoch, unit) indexed_bind"
  va_withdrawals :: "credential oset"
  va_proposals :: "(proposal_id, proposal_state) omap"
  va_fees :: "64 word"
  va_donations :: "64 word"

definition va_default :: "'out volatile_aggregate" where
  "va_default =
    \<lparr>va_utxo = ds_default, va_pools = om_empty, va_accounts = om_empty, va_dreps = om_empty,
     va_committee = om_empty, va_withdrawals = om_empty, va_proposals = om_empty,
     va_fees = 0, va_donations = 0\<rparr>"

definition has_withdrawal :: "'out volatile_aggregate \<Rightarrow> credential \<Rightarrow> bool" where
  "has_withdrawal a c = om_contains (va_withdrawals a) c"

definition resolve_input :: "'out volatile_aggregate \<Rightarrow> tx_input \<Rightarrow> 'out existence" where
  "resolve_input a i = ds_get (va_utxo a) i"

definition resolve_pool :: "'out volatile_aggregate \<Rightarrow> pool_id \<Rightarrow> bool" where
  "resolve_pool a p = ie_get (va_pools a) p"

definition resolve_account ::
  "'out volatile_aggregate \<Rightarrow> credential \<Rightarrow>
    (pool_id \<times> cert_pointer, drep \<times> cert_pointer, lovelace) vbind existence" where
  "resolve_account a c = ib_get (va_accounts a) c"

definition resolve_drep ::
  "'out volatile_aggregate \<Rightarrow> credential \<Rightarrow> (unit, unit, drep_registration) vbind existence" where
  "resolve_drep a c = ib_get (va_dreps a) c"

definition resolve_cc_members ::
  "'out volatile_aggregate \<Rightarrow>
    (credential \<times> (cc_member_status, epoch, unit) vbind existence) list" where
  "resolve_cc_members a = ib_iter (va_committee a)"

definition resolve_proposal ::
  "'out volatile_aggregate \<Rightarrow> proposal_id \<Rightarrow> proposal_state_slim existence" where
  "resolve_proposal a i =
    (case om_lookup (va_proposals a) i of
       Some s \<Rightarrow> Exists (proposal_state_slim_of s)
     | None \<Rightarrow> Unknown)"

definition resolve_committee_candidates ::
  "'out volatile_aggregate \<Rightarrow> (proposal_id \<times> credential) list" where
  "resolve_committee_candidates a =
    concat (map (\<lambda>(i, s).
        case prop_gov_action (ps_proposal s) of
          UpdateCommittee _ _ added _ \<Rightarrow> map (\<lambda>(candidate, _). (i, candidate)) added
        | _ \<Rightarrow> [])
      (om_entries (va_proposals a)))"

definition add_fragment ::
  "'out volatile_aggregate \<Rightarrow> 'out volatile_fragment \<Rightarrow> 'out volatile_aggregate" where
  "add_fragment a f =
    \<lparr>va_utxo = ds_extend (va_utxo a) (vf_utxo f),
     va_pools = ie_extend (vf_pools f) (va_pools a),
     va_accounts = ib_extend (vf_accounts f) (va_accounts a),
     va_dreps = ib_extend_with (bind_map_left (\<lambda>_. ())) (vf_dreps f) (va_dreps a),
     va_committee = ib_extend (vf_committee f) (va_committee a),
     va_withdrawals = os_extend (va_withdrawals a) (om_keys (vf_withdrawals f)),
     va_proposals = om_extend (va_proposals a) (om_entries (vf_proposals f)),
     va_fees = va_fees a + vf_fees f,
     va_donations = va_donations a + vf_donations f\<rparr>"

text \<open>
  \<^term>\<open>None\<close> is a failed assertion: the fragment touches a pool, an account
  or a representative that the aggregate does not hold.
\<close>

definition remove_fragment ::
  "'out volatile_aggregate \<Rightarrow> 'out volatile_fragment \<Rightarrow> 'out volatile_aggregate option" where
  "remove_fragment a f =
    (let (pools_present, pools) = ie_remove (vf_pools f) (va_pools a);
         (_, committee) = ib_remove (vf_committee f) (va_committee a);
         (accounts_present, accounts) = ib_remove (vf_accounts f) (va_accounts a);
         (dreps_present, dreps) = ib_remove (vf_dreps f) (va_dreps a)
     in if pools_present \<and> accounts_present \<and> dreps_present then
          Some \<lparr>va_utxo = ds_remove (va_utxo a) (vf_utxo f),
            va_pools = pools,
            va_accounts = accounts,
            va_dreps = dreps,
            va_committee = committee,
            va_withdrawals = om_remove_all (om_keys (vf_withdrawals f)) (va_withdrawals a),
            va_proposals = om_remove_all (om_keys (vf_proposals f)) (va_proposals a),
            va_fees = va_fees a - vf_fees f,
            va_donations = va_donations a - vf_donations f\<rparr>
        else None)"

section \<open>Histories and counts of a key\<close>

definition ib_seq ::
  "('k::linorder, 'l, 'r, 'v) indexed_bind \<Rightarrow> 'k \<Rightarrow> ('l, 'r, 'v) vbind existence list" where
  "ib_seq index k = (case om_lookup index k of None \<Rightarrow> [] | Some s \<Rightarrow> s)"

definition ib_ok :: "('k::linorder, 'l, 'r, 'v) indexed_bind \<Rightarrow> bool" where
  "ib_ok index = (\<forall>k. om_lookup index k \<noteq> Some [])"

definition contribution ::
  "(('ls, 'rs, 'vs) vbind \<Rightarrow> ('l, 'r, 'v) vbind) \<Rightarrow> ('k::linorder, 'ls, 'rs, 'vs) diff_bind \<Rightarrow>
    'k \<Rightarrow> ('l, 'r, 'v) vbind existence list" where
  "contribution f d k =
    (if om_contains (unregistered d) k then [Gone] else []) @
    (case om_lookup (registered d) k of Some b \<Rightarrow> [Exists (f b)] | None \<Rightarrow> [])"

lemma ib_eqI:
  assumes "ib_ok a" "ib_ok b" "\<And>k. ib_seq a k = ib_seq b k"
  shows "a = b"
proof (rule om_eqI)
  fix k
  show "om_lookup a k = om_lookup b k"
    using assms(1,2) assms(3) [of k]
    by (auto simp: ib_ok_def ib_seq_def split: option.splits)
qed

lemma ib_push:
  "ib_seq (push_front_or_insert key v index) k =
    (if k = key then v # ib_seq index k else ib_seq index k)"
  "ib_ok index \<Longrightarrow> ib_ok (push_front_or_insert key v index)"
  by (auto simp: push_front_or_insert_def ib_seq_def ib_ok_def split: option.splits)

lemma ib_push_all_bound:
  assumes "distinct (map fst xs)"
  shows "ib_seq (foldl (\<lambda>index (k, b). push_front_or_insert k (Exists (f b)) index) index xs) k =
      (case map_of xs k of Some b \<Rightarrow> [Exists (f b)] | None \<Rightarrow> []) @ ib_seq index k" (is ?seq)
    and "ib_ok index \<Longrightarrow>
      ib_ok (foldl (\<lambda>index (k, b). push_front_or_insert k (Exists (f b)) index) index xs)"
proof -
  show ?seq using assms
  proof (induction xs arbitrary: index)
    case (Cons p xs)
    obtain k' b where p: "p = (k', b)" by (cases p)
    have "map_of xs k' = None" using Cons.prems p by (simp add: map_of_eq_None_iff)
    then show ?case using Cons p by (simp add: ib_push split: option.split)
  qed simp
  show "ib_ok index \<Longrightarrow>
      ib_ok (foldl (\<lambda>index (k, b). push_front_or_insert k (Exists (f b)) index) index xs)"
    by (induction xs arbitrary: index) (auto intro: ib_push(2))
qed

lemma ib_push_all_gone:
  assumes "distinct ks"
  shows "ib_seq (foldl (\<lambda>index k. push_front_or_insert k Gone index) index ks) k =
      (if k \<in> set ks then [Gone] else []) @ ib_seq index k" (is ?seq)
    and "ib_ok index \<Longrightarrow> ib_ok (foldl (\<lambda>index k. push_front_or_insert k Gone index) index ks)"
proof -
  show ?seq using assms
    by (induction ks arbitrary: index) (auto simp: ib_push)
  show "ib_ok index \<Longrightarrow> ib_ok (foldl (\<lambda>index k. push_front_or_insert k Gone index) index ks)"
    by (induction ks arbitrary: index) (auto intro: ib_push(2))
qed

lemma distinct_om_keys [simp]: "distinct (om_keys m)"
  by (rule strict_sorted_distinct) simp

lemma ib_extend_with_seq:
  "ib_seq (ib_extend_with f d index) k = contribution f d k @ ib_seq index k"
  "ib_ok index \<Longrightarrow> ib_ok (ib_extend_with f d index)"
  by (simp_all add: ib_extend_with_def Let_def ib_push_all_gone ib_push_all_bound contribution_def
      set_om_keys_contains om_lookup_entries [symmetric])

lemma ib_extend_extend_with: "ib_extend d index = ib_extend_with (\<lambda>b. b) d index"
  by (simp add: ib_extend_def ib_extend_with_def)

lemma ib_pop:
  assumes "ib_ok (snd s)"
  shows "ib_seq (snd (pop_back_or_miss s key)) k =
      (if k = key then butlast (ib_seq (snd s) k) else ib_seq (snd s) k)"
    and "ib_ok (snd (pop_back_or_miss s key))"
    and "fst (pop_back_or_miss s key) = (fst s \<and> ib_seq (snd s) key \<noteq> [])"
  using assms by (auto simp: pop_back_or_miss_def ib_seq_def ib_ok_def split: option.splits)

lemma take_butlast_minus: "take (length (butlast xs) - n) (butlast xs) = take (length xs - Suc n) xs"
  by (simp add: butlast_conv_take min_def)

lemma ib_pop_all:
  assumes "ib_ok (snd s)"
  shows "ib_ok (snd (foldl pop_back_or_miss s ks)) \<and>
    ib_seq (snd (foldl pop_back_or_miss s ks)) k =
      take (length (ib_seq (snd s) k) - count_list ks k) (ib_seq (snd s) k)"
  using assms
proof (induction ks arbitrary: s)
  case (Cons key ks)
  have ok: "ib_ok (snd (pop_back_or_miss s key))" by (rule ib_pop(2) [OF Cons.prems])
  show ?case
    using Cons.IH [OF ok] ib_pop(1) [OF Cons.prems, of key k]
    by (simp add: take_butlast_minus del: length_butlast)
qed simp

lemma ib_pop_all_present:
  assumes "ib_ok (snd s)" "\<And>k. count_list ks k \<le> length (ib_seq (snd s) k)"
  shows "fst (foldl pop_back_or_miss s ks) = fst s"
  using assms
proof (induction ks arbitrary: s)
  case (Cons key ks)
  let ?s = "pop_back_or_miss s key"
  have ne: "ib_seq (snd s) key \<noteq> []" using Cons.prems(2) [of key] by auto
  have "count_list ks k \<le> length (ib_seq (snd ?s) k)" for k
    using Cons.prems(2) [of k] ib_pop(1) [OF Cons.prems(1), of key k] by auto
  then have "fst (foldl pop_back_or_miss ?s ks) = fst ?s"
    by (rule Cons.IH [OF ib_pop(2) [OF Cons.prems(1)]])
  then show ?case using ib_pop(3) [OF Cons.prems(1), of key] ne by simp
qed simp

lemma count_list_distinct: "distinct xs \<Longrightarrow> count_list xs x = (if x \<in> set xs then 1 else 0)"
  by (induction xs) auto

lemma count_touched:
  "count_list (om_keys (registered d) @ om_keys (unregistered d)) k = length (contribution f d k)"
  by (simp add: count_list_distinct set_om_keys_contains contribution_def om_contains_def
      split: option.split)

lemma ib_fold_seq:
  "ib_seq (foldl (\<lambda>index d. ib_extend_with f d index) index ds) k =
    concat (map (\<lambda>d. contribution f d k) (rev ds)) @ ib_seq index k"
  "ib_ok index \<Longrightarrow> ib_ok (foldl (\<lambda>index d. ib_extend_with f d index) index ds)"
  by (induction ds arbitrary: index) (simp_all add: ib_extend_with_seq)

lemma ib_empty [simp]: "ib_ok om_empty" "ib_seq om_empty k = []"
  by (simp_all add: ib_ok_def ib_seq_def)

lemma ib_remove_oldest:
  "ib_remove d (foldl (\<lambda>index d. ib_extend_with f d index) om_empty (d # ds)) =
    (True, foldl (\<lambda>index d. ib_extend_with f d index) om_empty ds)"
proof -
  let ?all = "foldl (\<lambda>index d. ib_extend_with f d index) om_empty (d # ds)"
  let ?rest = "foldl (\<lambda>index d. ib_extend_with f d index) om_empty ds"
  let ?ks = "om_keys (registered d) @ om_keys (unregistered d)"
  have ok: "ib_ok ?all" "ib_ok ?rest" by (simp_all add: ib_fold_seq ib_extend_with_seq)
  have seq: "ib_seq ?all k = ib_seq ?rest k @ contribution f d k" for k
    by (simp add: ib_fold_seq ib_extend_with_seq)
  have count: "count_list ?ks k = length (contribution f d k)" for k
    by (rule count_touched)
  have le: "count_list ?ks k \<le> length (ib_seq (snd (True, ?all)) k)" for k
    unfolding snd_conv seq count by simp
  have "fst (foldl pop_back_or_miss (True, ?all) ?ks) = fst (True, ?all)"
    using ok(1) le by (intro ib_pop_all_present) simp_all
  moreover have "snd (foldl pop_back_or_miss (True, ?all) ?ks) = ?rest"
  proof (rule ib_eqI)
    show "ib_ok (snd (foldl pop_back_or_miss (True, ?all) ?ks))"
      using ib_pop_all [of "(True, ?all)" ?ks] ok(1) by simp
    fix k
    show "ib_seq (snd (foldl pop_back_or_miss (True, ?all) ?ks)) k = ib_seq ?rest k"
      using ib_pop_all [of "(True, ?all)" ?ks k] ok(1) by (simp only: snd_conv seq count) simp
  qed (rule ok(2))
  ultimately show ?thesis by (simp add: ib_remove_def prod_eq_iff)
qed

text \<open>Reading a history is reading the fold of the diffs.\<close>

lemma contribution_verdict:
  assumes "db_ok d"
  shows "contribution (\<lambda>b. b) d k = (if db_get d k = Unknown then [] else [db_get d k])"
  using assms
  by (auto simp: contribution_def db_get_def db_ok_iff split: option.split)

lemma ib_get_seq: "ib_get index k = existence_fold (ib_seq index k)"
  by (simp add: ib_get_def ib_seq_def existence_fold_def split: option.split)

lemma db_get_default [simp]: "db_get db_default k = Unknown"
  by (simp add: db_get_def db_default_def diff_simps)

lemma foldr_over_contributions:
  assumes "\<forall>d \<in> set ds. db_ok d"
  shows "foldr over (concat (map (\<lambda>d. contribution (\<lambda>b. b) d k) (rev ds))) Unknown =
    db_get (foldl extend_refs db_default ds) k"
  using assms
  by (induction ds rule: rev_induct)
    (auto simp: contribution_verdict db_get_extend)

lemma ib_get_fold:
  assumes "\<forall>d \<in> set ds. db_ok d"
  shows "ib_get (foldl (\<lambda>index d. ib_extend d index) om_empty ds) k = db_get (db_fold ds) k"
proof -
  let ?hist = "concat (map (\<lambda>d. contribution (\<lambda>b. b) d k) (rev ds))"
  have "Unknown \<notin> set ?hist" by (auto simp: contribution_def split: if_splits option.splits)
  then have "existence_fold ?hist = foldr over ?hist Unknown" by (rule existence_fold_over)
  then show ?thesis
    using foldr_over_contributions [OF assms, of k]
    by (simp add: ib_get_seq ib_extend_extend_with ib_fold_seq db_fold_def)
qed

text \<open>Counters.\<close>

definition ie_count :: "'k::linorder indexed_epoch_reg \<Rightarrow> 'k \<Rightarrow> nat" where
  "ie_count index k = (case om_lookup index k of None \<Rightarrow> 0 | Some n \<Rightarrow> n)"

definition ie_ok :: "'k::linorder indexed_epoch_reg \<Rightarrow> bool" where
  "ie_ok index = (\<forall>k. om_lookup index k \<noteq> Some 0)"

lemma ie_eqI:
  assumes "ie_ok a" "ie_ok b" "\<And>k. ie_count a k = ie_count b k"
  shows "a = b"
proof (rule om_eqI)
  fix k
  show "om_lookup a k = om_lookup b k"
    using assms(1,2) assms(3) [of k]
    by (auto simp: ie_ok_def ie_count_def split: option.splits)
qed

lemma ie_increment_all:
  "ie_count (foldl (\<lambda>index key. om_insert key
      ((case om_lookup index key of Some n \<Rightarrow> n | None \<Rightarrow> 0) + 1) index) index ks) k =
    ie_count index k + count_list ks k"
  "ie_ok index \<Longrightarrow> ie_ok (foldl (\<lambda>index key. om_insert key
      ((case om_lookup index key of Some n \<Rightarrow> n | None \<Rightarrow> 0) + 1) index) index ks)"
  by (induction ks arbitrary: index)
    (simp_all add: ie_count_def ie_ok_def split: option.split)

lemma ie_extend_count:
  "ie_count (ie_extend d index) k = ie_count index k + count_list (ie_touched d) k"
  "ie_ok index \<Longrightarrow> ie_ok (ie_extend d index)"
  unfolding ie_extend_def by (rule ie_increment_all)+

lemma ie_decrement:
  assumes "ie_ok (snd s)"
  shows "ie_count (snd (decrement_or_miss s key)) k =
      (if k = key then ie_count (snd s) k - 1 else ie_count (snd s) k)"
    and "ie_ok (snd (decrement_or_miss s key))"
    and "fst (decrement_or_miss s key) = (fst s \<and> ie_count (snd s) key \<noteq> 0)"
  using assms
  by (auto simp: decrement_or_miss_def ie_count_def ie_ok_def split: option.splits intro!: gr0I)

lemma ie_decrement_all:
  assumes "ie_ok (snd s)"
  shows "ie_ok (snd (foldl decrement_or_miss s ks)) \<and>
    ie_count (snd (foldl decrement_or_miss s ks)) k = ie_count (snd s) k - count_list ks k"
  using assms
proof (induction ks arbitrary: s)
  case (Cons key ks)
  have ok: "ie_ok (snd (decrement_or_miss s key))" by (rule ie_decrement(2) [OF Cons.prems])
  show ?case
    using Cons.IH [OF ok] ie_decrement(1) [OF Cons.prems, of key k] by simp
qed simp

lemma ie_decrement_all_present:
  assumes "ie_ok (snd s)" "\<And>k. count_list ks k \<le> ie_count (snd s) k"
  shows "fst (foldl decrement_or_miss s ks) = fst s"
  using assms
proof (induction ks arbitrary: s)
  case (Cons key ks)
  let ?s = "decrement_or_miss s key"
  have ne: "ie_count (snd s) key \<noteq> 0" using Cons.prems(2) [of key] by auto
  have "count_list ks k \<le> ie_count (snd ?s) k" for k
    using Cons.prems(2) [of k] ie_decrement(1) [OF Cons.prems(1), of key k] by auto
  then have "fst (foldl decrement_or_miss ?s ks) = fst ?s"
    by (rule Cons.IH [OF ie_decrement(2) [OF Cons.prems(1)]])
  then show ?case using ie_decrement(3) [OF Cons.prems(1), of key] ne by simp
qed simp

lemma ie_fold_count:
  "ie_count (foldl (\<lambda>index d. ie_extend d index) index ds) k =
    ie_count index k + sum_list (map (\<lambda>d. count_list (ie_touched d) k) ds)"
  "ie_ok index \<Longrightarrow> ie_ok (foldl (\<lambda>index d. ie_extend d index) index ds)"
  by (induction ds arbitrary: index) (simp_all add: ie_extend_count)

lemma ie_empty [simp]: "ie_ok om_empty" "ie_count om_empty k = 0"
  by (simp_all add: ie_ok_def ie_count_def)

lemma ie_remove_oldest:
  "ie_remove d (foldl (\<lambda>index d. ie_extend d index) om_empty (d # ds)) =
    (True, foldl (\<lambda>index d. ie_extend d index) om_empty ds)"
proof -
  let ?all = "foldl (\<lambda>index d. ie_extend d index) om_empty (d # ds)"
  let ?rest = "foldl (\<lambda>index d. ie_extend d index) om_empty ds"
  have ok: "ie_ok ?all" "ie_ok ?rest" by (simp_all add: ie_fold_count ie_extend_count)
  have count: "ie_count ?all k = ie_count ?rest k + count_list (ie_touched d) k" for k
    by (simp add: ie_fold_count ie_extend_count)
  have le: "count_list (ie_touched d) k \<le> ie_count (snd (True, ?all)) k" for k
    unfolding snd_conv count by simp
  have "fst (foldl decrement_or_miss (True, ?all) (ie_touched d)) = fst (True, ?all)"
    using ok(1) le by (intro ie_decrement_all_present) simp_all
  moreover have "snd (foldl decrement_or_miss (True, ?all) (ie_touched d)) = ?rest"
  proof (rule ie_eqI)
    show "ie_ok (snd (foldl decrement_or_miss (True, ?all) (ie_touched d)))"
      using ie_decrement_all [of "(True, ?all)"] ok(1) by simp
    fix k
    show "ie_count (snd (foldl decrement_or_miss (True, ?all) (ie_touched d))) k = ie_count ?rest k"
      using ie_decrement_all [of "(True, ?all)" "ie_touched d" k] ok(1)
      by (simp only: snd_conv count diff_add_inverse2)
  qed (rule ok(2))
  ultimately show ?thesis by (simp add: ie_remove_def prod_eq_iff)
qed

section \<open>Retracting the oldest fragment\<close>

text \<open>What re-folding a sequence of fragments from scratch gives.\<close>

definition refold :: "'out volatile_fragment list \<Rightarrow> 'out volatile_aggregate" where
  "refold fs = foldl add_fragment va_default fs"

definition disjoint_keys :: "('k::linorder, 'v) omap \<Rightarrow> ('k, 'w) omap \<Rightarrow> bool" where
  "disjoint_keys m n = list_all (\<lambda>k. \<not> om_contains n k) (om_keys m)"

text \<open>
  What the ledger rules guarantee of an epoch's blocks: an output is produced
  once and consumed once, proposal identifiers are unique, and an account has
  at most one withdrawal that moves rewards.
\<close>

definition unique_in_window :: "'out volatile_fragment \<Rightarrow> 'out volatile_fragment list \<Rightarrow> bool" where
  "unique_in_window f fs =
    list_all (\<lambda>g.
      disjoint_keys (produced (vf_utxo f)) (produced (vf_utxo g)) \<and>
      disjoint_keys (consumed (vf_utxo f)) (consumed (vf_utxo g)) \<and>
      disjoint_keys (vf_withdrawals f) (vf_withdrawals g) \<and>
      disjoint_keys (vf_proposals f) (vf_proposals g)) fs"

lemma disjoint_keys_iff: "disjoint_keys m n \<longleftrightarrow> (\<forall>k. om_contains m k \<longrightarrow> \<not> om_contains n k)"
  by (auto simp: disjoint_keys_def list_all_iff set_om_keys_contains)

lemma ds_extend_assoc: "ds_extend (ds_extend a b) c = ds_extend a (ds_extend b c)"
  by (rule diff_set_eqI) (auto simp: diff_simps split: option.split)

lemma ds_extend_default [simp]: "ds_extend ds_default d = d" "ds_extend d ds_default = d"
  by (rule diff_set_eqI; simp add: diff_simps ds_default_def split: option.split)+

lemma ds_fold_extend: "foldl ds_extend a ds = ds_extend a (foldl ds_extend ds_default ds)"
proof (induction ds arbitrary: a)
  case (Cons d ds)
  show ?case using Cons.IH [of "ds_extend a d"] Cons.IH [of d] by (simp add: ds_extend_assoc)
qed simp

lemma ds_fold_contains:
  "om_contains (consumed (foldl ds_extend ds_default ds)) k \<longleftrightarrow>
    (\<exists>d \<in> set ds. om_contains (consumed d) k)"
  "om_lookup (produced (foldl ds_extend ds_default ds)) k \<noteq> None \<Longrightarrow>
    \<exists>d \<in> set ds. om_contains (produced d) k"
proof -
  show "om_contains (consumed (foldl ds_extend ds_default ds)) k \<longleftrightarrow>
    (\<exists>d \<in> set ds. om_contains (consumed d) k)"
    by (induction ds rule: rev_induct) (auto simp: diff_simps ds_default_def)
  show "om_lookup (produced (foldl ds_extend ds_default ds)) k \<noteq> None \<Longrightarrow>
    \<exists>d \<in> set ds. om_contains (produced d) k"
    by (induction ds rule: rev_induct)
      (auto simp: diff_simps ds_default_def om_contains_def split: option.splits if_splits)
qed

lemma ds_remove_oldest:
  assumes "\<And>e. e \<in> set ds \<Longrightarrow> disjoint_keys (produced d) (produced e)"
    "\<And>e. e \<in> set ds \<Longrightarrow> disjoint_keys (consumed d) (consumed e)"
  shows "ds_remove (foldl ds_extend ds_default (d # ds)) d = foldl ds_extend ds_default ds"
proof -
  let ?rest = "foldl ds_extend ds_default ds"
  have p: "om_contains (produced d) k \<Longrightarrow> om_lookup (produced ?rest) k = None" for k
    using ds_fold_contains(2) [of ds k] assms(1) unfolding disjoint_keys_iff by blast
  have c: "om_contains (consumed d) k \<Longrightarrow> \<not> om_contains (consumed ?rest) k" for k
    using ds_fold_contains(1) [of ds k] assms(2) unfolding disjoint_keys_iff by blast
  have "ds_remove (ds_extend d ?rest) d = ?rest"
    using p c
    by (intro diff_set_eqI) (auto simp: diff_simps om_contains_def [of "produced d"] split: option.split)
  then show ?thesis using ds_fold_extend [of d ds] by simp
qed

lemma os_extend_append: "os_extend (os_extend s xs) ys = os_extend s (xs @ ys)"
  by (simp add: os_extend_def)

lemma os_fold_extend:
  "os_set (foldl (\<lambda>s w. os_extend s (om_keys w)) s ws) = os_set s \<union> (\<Union>w \<in> set ws. os_set w)"
  by (induction ws arbitrary: s) (auto simp: set_om_keys_os)

lemma om_fold_extend_lookup:
  "om_lookup (foldl (\<lambda>m w. om_extend m (om_entries w)) m ws) k =
    (case om_lookup (foldl (\<lambda>m w. om_extend m (om_entries w)) om_empty ws) k of
       None \<Rightarrow> om_lookup m k | Some v \<Rightarrow> Some v)"
  by (induction ws rule: rev_induct)
    (auto simp: om_lookup_extend_entries map_add_def split: option.split)

lemma om_fold_extend_contains:
  "om_lookup (foldl (\<lambda>m w. om_extend m (om_entries w)) om_empty ws) k \<noteq> None \<Longrightarrow>
    \<exists>w \<in> set ws. om_contains w k"
  by (induction ws rule: rev_induct)
    (auto simp: om_lookup_extend_entries map_add_def om_contains_def split: option.splits)

lemma refold_fields:
  "va_utxo (foldl add_fragment a fs) = foldl ds_extend (va_utxo a) (map vf_utxo fs)"
  "va_pools (foldl add_fragment a fs) =
    foldl (\<lambda>index d. ie_extend d index) (va_pools a) (map vf_pools fs)"
  "va_accounts (foldl add_fragment a fs) =
    foldl (\<lambda>index d. ib_extend_with (\<lambda>b. b) d index) (va_accounts a) (map vf_accounts fs)"
  "va_dreps (foldl add_fragment a fs) =
    foldl (\<lambda>index d. ib_extend_with (bind_map_left (\<lambda>_. ())) d index) (va_dreps a) (map vf_dreps fs)"
  "va_committee (foldl add_fragment a fs) =
    foldl (\<lambda>index d. ib_extend_with (\<lambda>b. b) d index) (va_committee a) (map vf_committee fs)"
  "va_withdrawals (foldl add_fragment a fs) =
    foldl (\<lambda>s w. os_extend s (om_keys w)) (va_withdrawals a) (map vf_withdrawals fs)"
  "va_proposals (foldl add_fragment a fs) =
    foldl (\<lambda>m w. om_extend m (om_entries w)) (va_proposals a) (map vf_proposals fs)"
  "va_fees (foldl add_fragment a fs) = va_fees a + sum_list (map vf_fees fs)"
  "va_donations (foldl add_fragment a fs) = va_donations a + sum_list (map vf_donations fs)"
  by (induction fs arbitrary: a) (simp_all add: add_fragment_def ib_extend_extend_with add.assoc)

lemma withdrawals_remove_oldest:
  fixes w :: "'a::linorder oset"
  assumes "\<And>v. v \<in> set ws \<Longrightarrow> disjoint_keys w v"
  shows "om_remove_all (om_keys w) (foldl (\<lambda>s w. os_extend s (om_keys w)) om_empty (w # ws)) =
    foldl (\<lambda>s w. os_extend s (om_keys w)) om_empty ws"
proof (rule os_eqI)
  have rem: "os_set (om_remove_all ks s) = os_set s - set ks" for ks and s :: "'a oset"
    by (auto simp: os_set_def split: if_splits)
  have "os_set w \<inter> (\<Union>v \<in> set ws. os_set v) = {}"
    using assms by (auto simp: disjoint_keys_iff om_contains_os_set)
  then show "os_set (om_remove_all (om_keys w) (foldl (\<lambda>s w. os_extend s (om_keys w)) om_empty (w # ws))) =
    os_set (foldl (\<lambda>s w. os_extend s (om_keys w)) om_empty ws)"
    by (auto simp: rem os_fold_extend set_om_keys_os)
qed

lemma proposals_remove_oldest:
  assumes "\<And>v. v \<in> set ws \<Longrightarrow> disjoint_keys w v"
  shows "om_remove_all (om_keys w) (foldl (\<lambda>m w. om_extend m (om_entries w)) om_empty (w # ws)) =
    foldl (\<lambda>m w. om_extend m (om_entries w)) om_empty ws"
proof (rule om_eqI)
  fix k
  let ?rest = "foldl (\<lambda>m w. om_extend m (om_entries w)) om_empty ws"
  have "om_contains w k \<Longrightarrow> om_lookup ?rest k = None"
    using om_fold_extend_contains [of ws k] assms unfolding disjoint_keys_iff by blast
  then show "om_lookup (om_remove_all (om_keys w) (foldl (\<lambda>m w. om_extend m (om_entries w)) om_empty (w # ws))) k =
      om_lookup ?rest k"
    using om_fold_extend_lookup [of "om_extend om_empty (om_entries w)" ws k]
    by (auto simp: set_om_keys_contains om_contains_def om_lookup_extend_entries map_add_def
        split: option.splits)
qed

lemma refold_simps:
  "va_utxo (refold fs) = foldl ds_extend ds_default (map vf_utxo fs)"
  "va_pools (refold fs) = foldl (\<lambda>index d. ie_extend d index) om_empty (map vf_pools fs)"
  "va_accounts (refold fs) =
    foldl (\<lambda>index d. ib_extend_with (\<lambda>b. b) d index) om_empty (map vf_accounts fs)"
  "va_dreps (refold fs) =
    foldl (\<lambda>index d. ib_extend_with (bind_map_left (\<lambda>_. ())) d index) om_empty (map vf_dreps fs)"
  "va_committee (refold fs) =
    foldl (\<lambda>index d. ib_extend_with (\<lambda>b. b) d index) om_empty (map vf_committee fs)"
  "va_withdrawals (refold fs) =
    foldl (\<lambda>s w. os_extend s (om_keys w)) om_empty (map vf_withdrawals fs)"
  "va_proposals (refold fs) =
    foldl (\<lambda>m w. om_extend m (om_entries w)) om_empty (map vf_proposals fs)"
  "va_fees (refold fs) = sum_list (map vf_fees fs)"
  "va_donations (refold fs) = sum_list (map vf_donations fs)"
  by (simp_all add: refold_def refold_fields va_default_def)

lemma remove_fragment_oldest:
  assumes "unique_in_window f fs"
  shows "remove_fragment (refold (f # fs)) f = Some (refold fs)"
proof -
  let ?a = "refold (f # fs)"
  have d: "disjoint_keys (produced (vf_utxo f)) (produced (vf_utxo g))"
    "disjoint_keys (consumed (vf_utxo f)) (consumed (vf_utxo g))"
    "disjoint_keys (vf_withdrawals f) (vf_withdrawals g)"
    "disjoint_keys (vf_proposals f) (vf_proposals g)" if "g \<in> set fs" for g
    using assms that by (auto simp: unique_in_window_def list_all_iff)
  have "ds_remove (va_utxo ?a) (vf_utxo f) = va_utxo (refold fs)"
    unfolding refold_simps list.map by (rule ds_remove_oldest) (use d in auto)
  moreover have "ie_remove (vf_pools f) (va_pools ?a) = (True, va_pools (refold fs))"
    unfolding refold_simps list.map by (rule ie_remove_oldest)
  moreover have "ib_remove (vf_accounts f) (va_accounts ?a) = (True, va_accounts (refold fs))"
    unfolding refold_simps list.map by (rule ib_remove_oldest)
  moreover have "ib_remove (vf_dreps f) (va_dreps ?a) = (True, va_dreps (refold fs))"
    unfolding refold_simps list.map by (rule ib_remove_oldest)
  moreover have "ib_remove (vf_committee f) (va_committee ?a) = (True, va_committee (refold fs))"
    unfolding refold_simps list.map by (rule ib_remove_oldest)
  moreover have "om_remove_all (om_keys (vf_withdrawals f)) (va_withdrawals ?a) =
      va_withdrawals (refold fs)"
    unfolding refold_simps list.map by (rule withdrawals_remove_oldest) (use d in auto)
  moreover have "om_remove_all (om_keys (vf_proposals f)) (va_proposals ?a) = va_proposals (refold fs)"
    unfolding refold_simps list.map by (rule proposals_remove_oldest) (use d in auto)
  moreover have "va_fees ?a - vf_fees f = va_fees (refold fs)"
    "va_donations ?a - vf_donations f = va_donations (refold fs)"
    by (simp_all add: refold_simps)
  ultimately show ?thesis by (simp add: remove_fragment_def)
qed

text \<open>
  C9. Retracting the oldest fragment leaves the aggregate exactly as re-folding
  the remaining fragments would build it, and none of the assertions fails.
  This holds for every field, whatever the later fragments do to the same
  accounts, representatives, committee members and pools, as long as outputs
  are produced and consumed once, proposals are unique and an account is
  drained at most once in the window.
\<close>
theorem remove_fragment_is_exact:
  assumes "unique_in_window f fs"
  shows "remove_fragment (refold (f # fs)) f = Some (refold fs)"
  by (rule remove_fragment_oldest [OF assms])

definition example_oldest :: "nat volatile_fragment" where
  "example_oldest = vf_default\<lparr>
    vf_utxo := consume (7, 0) (produce (1, 0) 100 ds_default),
    vf_accounts := \<lparr>registered = om_insert (KeyHash 1)
      \<lparr>left = Set (9, ((0, 0), 0)), right = Reset, bvalue = Some 2\<rparr> om_empty, unregistered = om_empty\<rparr>,
    vf_fees := 5\<rparr>"

definition example_newer :: "nat volatile_fragment" where
  "example_newer = vf_default\<lparr>
    vf_utxo := consume (1, 0) (produce (2, 0) 40 ds_default),
    vf_accounts := unregister (KeyHash 1) db_default,
    vf_fees := 6\<rparr>"

theorem remove_fragment_is_exact_witness:
  "unique_in_window example_oldest [example_newer] \<and>
   remove_fragment (refold [example_oldest, example_newer]) example_oldest =
     Some (refold [example_newer]) \<and>
   resolve_account (refold [example_newer]) (KeyHash 1) = Gone"
proof -
  have "unique_in_window example_oldest [example_newer]" by code_simp
  moreover have "resolve_account (refold [example_newer]) (KeyHash 1) = Gone" by code_simp
  ultimately show ?thesis
    using remove_fragment_is_exact [of example_oldest "[example_newer]"] by blast
qed

text \<open>
  C18. Reading a key through its history of verdicts is reading the single diff
  the fragments fold into: \<open>IndexedBind::get\<close> after extending with a sequence of
  diffs equals \<open>DiffBind::fold(..).get\<close>, and retracting the oldest diff leaves
  the reading of the diffs that remain.
\<close>
theorem indexed_bind_reads_the_fold:
  assumes "list_all db_ok (d # ds)"
  shows "ib_get (foldl (\<lambda>index d. ib_extend d index) om_empty (d # ds)) k = db_get (db_fold (d # ds)) k \<and>
    ib_get (snd (ib_remove d (foldl (\<lambda>index d. ib_extend d index) om_empty (d # ds)))) k =
      db_get (db_fold ds) k"
  using assms ib_get_fold [of "d # ds" k] ib_get_fold [of ds k]
    ib_remove_oldest [of d "\<lambda>b. b" ds]
  by (simp add: list_all_iff ib_extend_extend_with)

theorem indexed_bind_reads_the_fold_witness:
  "ib_get (foldl (\<lambda>index d. ib_extend d index) om_empty
     [vf_accounts example_oldest, vf_accounts example_newer]) (KeyHash 1) = Gone \<and>
   list_all db_ok [vf_accounts example_oldest, vf_accounts example_newer]"
proof -
  have "list_all db_ok [vf_accounts example_oldest, vf_accounts example_newer]" by code_simp
  moreover have "db_get (db_fold [vf_accounts example_oldest, vf_accounts example_newer]) (KeyHash 1) = Gone"
    by code_simp
  ultimately show ?thesis
    using indexed_bind_reads_the_fold
      [of "vf_accounts example_oldest" "[vf_accounts example_newer]" "KeyHash 1"] by simp
qed

end
