(* ===== verification/Era_History.thy ===== *)
theory Era_History
  imports Kernel_Types
begin

text \<open>
  The history of eras (\<open>amaru-kernel/src/cardano/{era_history,era_summary,
  era_bound,era_params,slot}.rs\<close>): conversions between slots, epochs and time
  across eras with different slot lengths and epoch sizes, the foreseeable
  horizon, and the histories of the three public networks.  A duration is its
  number of nanoseconds.  The end of the foreseeable future is computed in 64
  bits and wraps for a tip close to the largest slot.  The other sums are natural
  numbers, which are those of the code as long as they stay below \<open>2^64\<close>; the start
  of the epoch of a slot always does, being at most that slot.  An integer division by zero, which
  panics, is the error \<open>DivisionByZero\<close>; well-formed histories never reach it.
\<close>

section \<open>Bounds, parameters and summaries\<close>

type_synonym duration = nat

definition from_secs :: "nat \<Rightarrow> duration" where "from_secs s = s * 10 ^ 9"

definition as_secs :: "duration \<Rightarrow> nat" where "as_secs d = d div 10 ^ 9"

definition as_millis :: "duration \<Rightarrow> nat" where "as_millis d = d div 10 ^ 6"

datatype era_name = Byron | Shelley | Allegra | Mary | Alonzo | Babbage | Conway | Dijkstra

record era_bound =
  eb_time :: duration
  eb_slot :: slot
  eb_epoch :: epoch

record era_params =
  epoch_size_slots :: nat
  slot_length :: duration
  era_name :: era_name

record era_summary =
  es_start :: era_bound
  es_end :: "era_bound option"
  es_params :: era_params

datatype era_history_error =
    PastTimeHorizon
  | InvalidEraHistory
  | SlotTooFar
  | SlotUnderflow slot slot
  | DivisionByZero

definition era_params_new :: "nat \<Rightarrow> duration \<Rightarrow> era_name \<Rightarrow> era_params option" where
  "era_params_new sz len name =
    (if sz = 0 then None else if len = 0 then None
     else Some \<lparr>epoch_size_slots = sz, slot_length = len, era_name = name\<rparr>)"

definition from_bounds :: "era_bound \<Rightarrow> era_bound \<Rightarrow> era_name \<Rightarrow> era_params option" where
  "from_bounds start end name =
    (if eb_slot end \<le> eb_slot start \<or> eb_epoch end \<le> eb_epoch start then
       if eb_slot end = eb_slot start \<and> eb_epoch end = eb_epoch start
       then Some \<lparr>epoch_size_slots = 0, slot_length = from_secs 1, era_name = name\<rparr>
       else None
     else
       let slots_elapsed = eb_slot end - eb_slot start;
           epochs_elapsed = eb_epoch end - eb_epoch start;
           time_elapsed = eb_time end - eb_time start
       in Some \<lparr>epoch_size_slots = slots_elapsed div epochs_elapsed,
                slot_length = (as_millis time_elapsed mod 2 ^ 64 div slots_elapsed) * 10 ^ 6,
                era_name = name\<rparr>)"

definition elapsed_from :: "slot \<Rightarrow> slot \<Rightarrow> (era_history_error, nat) result" where
  "elapsed_from s other = (if s < other then Err (SlotUnderflow s other) else Ok (s - other))"

definition offset_by :: "slot \<Rightarrow> nat \<Rightarrow> slot" where
  "offset_by s n = s + n"

definition es_is_empty :: "era_summary \<Rightarrow> bool" where
  "es_is_empty e = (case es_end e of Some end \<Rightarrow> es_start e = end | None \<Rightarrow> False)"

text \<open>
  The virtual end of an era without upper bound, in the wrapping arithmetic of
  64-bit integers, and \<^term>\<open>None\<close> when the epoch size is zero and the division
  panics.
\<close>

definition calculate_end_bound :: "era_summary \<Rightarrow> slot \<Rightarrow> slot \<Rightarrow> era_bound option" where
  "calculate_end_bound e tip stability_window =
    (let start = es_start e; sz = epoch_size_slots (es_params e);
         end_of_stable_window = u64_add (max (eb_slot start) (u64_add tip 1)) stability_window;
         delta_slots = u64_sub end_of_stable_window (eb_slot start);
         delta_epochs = u64_add (delta_slots div sz) (if sz dvd delta_slots then 0 else 1);
         max_foreseeable_epoch = u64_add (eb_epoch start) delta_epochs;
         foreseeable_slots = u64_mul delta_epochs sz
     in if sz = 0 then None
        else Some
          \<lparr>eb_time = from_secs (u64_add (as_secs (eb_time start))
              (u64_mul (as_secs (slot_length (es_params e))) foreseeable_slots)),
           eb_slot = u64_add (eb_slot start) foreseeable_slots,
           eb_epoch = max_foreseeable_epoch\<rparr>)"

definition contains_slot :: "era_summary \<Rightarrow> slot \<Rightarrow> slot \<Rightarrow> slot \<Rightarrow> bool option" where
  "contains_slot e s tip stability_window =
    (if es_is_empty e then Some False
     else case es_end e of
       Some end \<Rightarrow> Some (s \<le> eb_slot end)
     | None \<Rightarrow> map_option (\<lambda>b. s \<le> eb_slot b) (calculate_end_bound e tip stability_window))"

definition contains_slot_unchecked_horizon :: "era_summary \<Rightarrow> slot \<Rightarrow> bool" where
  "contains_slot_unchecked_horizon e s =
    (if es_is_empty e then False
     else case es_end e of Some end \<Rightarrow> s \<le> eb_slot end | None \<Rightarrow> True)"

definition contains_epoch :: "era_summary \<Rightarrow> epoch \<Rightarrow> slot \<Rightarrow> slot \<Rightarrow> bool option" where
  "contains_epoch e ep tip stability_window =
    (case es_end e of
       Some end \<Rightarrow> Some (ep < eb_epoch end)
     | None \<Rightarrow> map_option (\<lambda>b. ep < eb_epoch b) (calculate_end_bound e tip stability_window))"

definition contains_epoch_unchecked_horizon :: "era_summary \<Rightarrow> epoch \<Rightarrow> bool" where
  "contains_epoch_unchecked_horizon e ep =
    (case es_end e of Some end \<Rightarrow> ep < eb_epoch end | None \<Rightarrow> True)"

section \<open>Conversions within an era\<close>

definition era_slot_to_relative_time :: "slot \<Rightarrow> era_summary \<Rightarrow> (era_history_error, duration) result" where
  "era_slot_to_relative_time s e =
    (case elapsed_from s (eb_slot (es_start e)) of
       Inl _ \<Rightarrow> Err InvalidEraHistory
     | Inr slots_elapsed \<Rightarrow>
         if slots_elapsed < 2 ^ 32
         then Ok (eb_time (es_start e) + slot_length (es_params e) * slots_elapsed)
         else Err SlotTooFar)"

definition era_relative_time_to_slot :: "duration \<Rightarrow> era_summary \<Rightarrow> (era_history_error, slot) result" where
  "era_relative_time_to_slot t e =
    (if t < eb_time (es_start e) then Err InvalidEraHistory
     else
       let time_elapsed = t - eb_time (es_start e);
           len = as_millis (slot_length (es_params e))
       in if len = 0 then Err InvalidEraHistory
          else if as_millis time_elapsed div len \<le> u64_max
          then Ok (offset_by (eb_slot (es_start e)) (as_millis time_elapsed div len))
          else Err SlotTooFar)"

definition era_slot_to_epoch :: "slot \<Rightarrow> era_summary \<Rightarrow> (era_history_error, epoch) result" where
  "era_slot_to_epoch s e =
    (case elapsed_from s (eb_slot (es_start e)) of
       Inl _ \<Rightarrow> Err InvalidEraHistory
     | Inr slots_elapsed \<Rightarrow>
         if epoch_size_slots (es_params e) = 0 then Err DivisionByZero
         else Ok (eb_epoch (es_start e) + slots_elapsed div epoch_size_slots (es_params e)))"

section \<open>Conversions across eras\<close>

record era_history =
  eh_stability_window :: slot
  eh_eras :: "era_summary list"

text \<open>An empty history is refused with a panic.\<close>

definition era_history_new :: "era_summary list \<Rightarrow> slot \<Rightarrow> era_history option" where
  "era_history_new eras stability_window =
    (if eras = [] then None
     else Some \<lparr>eh_stability_window = stability_window, eh_eras = eras\<rparr>)"

text \<open>
  The loop all conversions share: stop with an error when an era starts after
  the argument, answer from the first era that contains it, and report
  \<open>exhausted\<close> when no era does.  A test that panics ends the loop.
\<close>

fun scan_eras ::
  "(era_summary \<Rightarrow> bool) \<Rightarrow> (era_summary \<Rightarrow> bool option) \<Rightarrow>
    (era_summary \<Rightarrow> (era_history_error, 'a) result) \<Rightarrow> era_history_error \<Rightarrow> era_summary list \<Rightarrow>
    (era_history_error, 'a) result" where
  "scan_eras starts_after contains found exhausted [] = Err exhausted" |
  "scan_eras starts_after contains found exhausted (e # es) =
    (if starts_after e then Err InvalidEraHistory
     else case contains e of
       None \<Rightarrow> Err DivisionByZero
     | Some True \<Rightarrow> found e
     | Some False \<Rightarrow> scan_eras starts_after contains found exhausted es)"

definition relative_time_to_slot :: "era_history \<Rightarrow> duration \<Rightarrow> (era_history_error, slot) result" where
  "relative_time_to_slot h t =
    scan_eras (\<lambda>e. t < eb_time (es_start e))
      (\<lambda>e. Some (case es_end e of None \<Rightarrow> True | Some end \<Rightarrow> t < eb_time end))
      (era_relative_time_to_slot t) InvalidEraHistory (eh_eras h)"

definition posix_time_to_slot ::
  "era_history \<Rightarrow> duration \<Rightarrow> duration \<Rightarrow> (era_history_error, slot) result" where
  "posix_time_to_slot h time system_start =
    (if time < system_start then Err InvalidEraHistory
     else relative_time_to_slot h (time - system_start))"

definition slot_to_relative_time ::
  "era_history \<Rightarrow> slot \<Rightarrow> slot \<Rightarrow> (era_history_error, duration) result" where
  "slot_to_relative_time h s tip =
    scan_eras (\<lambda>e. s < eb_slot (es_start e))
      (\<lambda>e. contains_slot e s tip (eh_stability_window h))
      (era_slot_to_relative_time s) PastTimeHorizon (eh_eras h)"

definition slot_to_posix_time ::
  "era_history \<Rightarrow> slot \<Rightarrow> slot \<Rightarrow> duration \<Rightarrow> (era_history_error, duration) result" where
  "slot_to_posix_time h s tip system_start =
    (case slot_to_relative_time h s tip of Inl e \<Rightarrow> Inl e | Inr t \<Rightarrow> Ok (system_start + t))"

definition slot_to_relative_time_unchecked_horizon ::
  "era_history \<Rightarrow> slot \<Rightarrow> (era_history_error, duration) result" where
  "slot_to_relative_time_unchecked_horizon h s =
    scan_eras (\<lambda>e. s < eb_slot (es_start e)) (\<lambda>e. Some (contains_slot_unchecked_horizon e s))
      (era_slot_to_relative_time s) InvalidEraHistory (eh_eras h)"

definition slot_to_epoch :: "era_history \<Rightarrow> slot \<Rightarrow> slot \<Rightarrow> (era_history_error, epoch) result" where
  "slot_to_epoch h s tip =
    scan_eras (\<lambda>e. s < eb_slot (es_start e))
      (\<lambda>e. contains_slot e s tip (eh_stability_window h))
      (era_slot_to_epoch s) PastTimeHorizon (eh_eras h)"

definition slot_to_epoch_unchecked_horizon ::
  "era_history \<Rightarrow> slot \<Rightarrow> (era_history_error, epoch) result" where
  "slot_to_epoch_unchecked_horizon h s =
    scan_eras (\<lambda>e. s < eb_slot (es_start e)) (\<lambda>e. Some (contains_slot_unchecked_horizon e s))
      (era_slot_to_epoch s) InvalidEraHistory (eh_eras h)"

definition next_epoch_first_slot ::
  "era_history \<Rightarrow> epoch \<Rightarrow> slot \<Rightarrow> (era_history_error, slot) result" where
  "next_epoch_first_slot h ep tip =
    scan_eras (\<lambda>e. ep < eb_epoch (es_start e))
      (\<lambda>e. contains_epoch e ep tip (eh_stability_window h))
      (\<lambda>e. Ok ((ep - eb_epoch (es_start e) + 1) * epoch_size_slots (es_params e) +
              eb_slot (es_start e)))
      PastTimeHorizon (eh_eras h)"

fun era_first_epoch_in :: "era_summary list \<Rightarrow> epoch \<Rightarrow> (era_history_error, epoch) result" where
  "era_first_epoch_in [] ep = Err InvalidEraHistory" |
  "era_first_epoch_in (e # es) ep =
    (if contains_epoch_unchecked_horizon e ep then Ok (eb_epoch (es_start e))
     else era_first_epoch_in es ep)"

definition era_first_epoch :: "era_history \<Rightarrow> epoch \<Rightarrow> (era_history_error, epoch) result" where
  "era_first_epoch h ep = era_first_epoch_in (eh_eras h) ep"

text \<open>The first slot of an epoch and, unless its era is open, the slot after its last.\<close>

definition epoch_bounds :: "era_history \<Rightarrow> epoch \<Rightarrow> (era_history_error, slot \<times> slot option) result" where
  "epoch_bounds h ep =
    scan_eras (\<lambda>e. ep < eb_epoch (es_start e)) (\<lambda>e. Some (contains_epoch_unchecked_horizon e ep))
      (\<lambda>e. let epochs_elapsed = ep - eb_epoch (es_start e);
               offset = eb_slot (es_start e);
               slots_elapsed = epochs_elapsed * epoch_size_slots (es_params e);
               start = offset_by offset slots_elapsed;
               end = offset_by offset (epoch_size_slots (es_params e) + slots_elapsed)
           in Ok (start, map_option (\<lambda>_. end) (es_end e)))
      InvalidEraHistory (eh_eras h)"

definition slot_in_epoch :: "era_history \<Rightarrow> slot \<Rightarrow> slot \<Rightarrow> (era_history_error, slot) result" where
  "slot_in_epoch h s tip =
    (case slot_to_epoch h s tip of
       Inl e \<Rightarrow> Inl e
     | Inr ep \<Rightarrow>
         (case epoch_bounds h ep of
            Inl e \<Rightarrow> Inl e
          | Inr bounds \<Rightarrow> elapsed_from s (fst bounds)))"

fun era_index_from :: "nat \<Rightarrow> era_summary list \<Rightarrow> slot \<Rightarrow> (era_history_error, nat) result" where
  "era_index_from i [] s = Err InvalidEraHistory" |
  "era_index_from i (e # es) s =
    (if s < eb_slot (es_start e) then Err InvalidEraHistory
     else if (case es_end e of Some end \<Rightarrow> s < eb_slot end | None \<Rightarrow> True) then Ok i
     else era_index_from (Suc i) es s)"

definition slot_to_era_index :: "era_history \<Rightarrow> slot \<Rightarrow> (era_history_error, nat) result" where
  "slot_to_era_index h s = era_index_from 0 (eh_eras h) s"

definition slot_to_era_tag :: "era_history \<Rightarrow> slot \<Rightarrow> (era_history_error, era_name) result" where
  "slot_to_era_tag h s =
    (case slot_to_era_index h s of
       Inl e \<Rightarrow> Inl e
     | Inr i \<Rightarrow> Ok (era_name (es_params (eh_eras h ! i))))"

definition current_era_summary :: "era_history \<Rightarrow> era_summary option" where
  "current_era_summary h = (if eh_eras h = [] then None else Some (last (eh_eras h)))"

definition current_era_tag :: "era_history \<Rightarrow> era_name option" where
  "current_era_tag h = map_option (\<lambda>e. era_name (es_params e)) (current_era_summary h)"

section \<open>The public networks\<close>

definition era_bound_at :: "nat \<Rightarrow> slot \<Rightarrow> epoch \<Rightarrow> era_bound" where
  "era_bound_at secs s ep = \<lparr>eb_time = from_secs secs, eb_slot = s, eb_epoch = ep\<rparr>"

definition era_summary_of ::
  "era_bound \<Rightarrow> era_bound option \<Rightarrow> nat \<Rightarrow> nat \<Rightarrow> era_name \<Rightarrow> era_summary" where
  "era_summary_of start end sz secs name =
    \<lparr>es_start = start, es_end = end,
     es_params = \<lparr>epoch_size_slots = sz, slot_length = from_secs secs, era_name = name\<rparr>\<rparr>"

text \<open>The stability window is \<open>3 * k * (1 / f)\<close> slots.\<close>

definition mainnet_era_history :: era_history where
  "mainnet_era_history = \<lparr>eh_stability_window = 3 * 2160 * 20, eh_eras =
    [era_summary_of (era_bound_at 0 0 0) (Some (era_bound_at 89856000 4492800 208)) 21600 20 Byron,
     era_summary_of (era_bound_at 89856000 4492800 208) (Some (era_bound_at 101952000 16588800 236)) 432000 1 Shelley,
     era_summary_of (era_bound_at 101952000 16588800 236) (Some (era_bound_at 108432000 23068800 251)) 432000 1 Allegra,
     era_summary_of (era_bound_at 108432000 23068800 251) (Some (era_bound_at 125280000 39916800 290)) 432000 1 Mary,
     era_summary_of (era_bound_at 125280000 39916800 290) (Some (era_bound_at 157680000 72316800 365)) 432000 1 Alonzo,
     era_summary_of (era_bound_at 157680000 72316800 365) (Some (era_bound_at 219024000 133660800 507)) 432000 1 Babbage,
     era_summary_of (era_bound_at 219024000 133660800 507) None 432000 1 Conway]\<rparr>"

definition preprod_era_history :: era_history where
  "preprod_era_history = \<lparr>eh_stability_window = 3 * 2160 * 20, eh_eras =
    [era_summary_of (era_bound_at 0 0 0) (Some (era_bound_at 1728000 86400 4)) 21600 20 Byron,
     era_summary_of (era_bound_at 1728000 86400 4) (Some (era_bound_at 2160000 518400 5)) 432000 1 Shelley,
     era_summary_of (era_bound_at 2160000 518400 5) (Some (era_bound_at 2592000 950400 6)) 432000 1 Allegra,
     era_summary_of (era_bound_at 2592000 950400 6) (Some (era_bound_at 3024000 1382400 7)) 432000 1 Mary,
     era_summary_of (era_bound_at 3024000 1382400 7) (Some (era_bound_at 5184000 3542400 12)) 432000 1 Alonzo,
     era_summary_of (era_bound_at 5184000 3542400 12) (Some (era_bound_at 70416000 68774400 163)) 432000 1 Babbage,
     era_summary_of (era_bound_at 70416000 68774400 163) None 432000 1 Conway]\<rparr>"

definition preview_era_history :: era_history where
  "preview_era_history = \<lparr>eh_stability_window = 3 * 432 * 20, eh_eras =
    [era_summary_of (era_bound_at 0 0 0) (Some (era_bound_at 0 0 0)) 4320 20 Byron,
     era_summary_of (era_bound_at 0 0 0) (Some (era_bound_at 0 0 0)) 86400 1 Shelley,
     era_summary_of (era_bound_at 0 0 5) (Some (era_bound_at 0 0 0)) 86400 1 Allegra,
     era_summary_of (era_bound_at 0 0 0) (Some (era_bound_at 0 0 0)) 86400 1 Mary,
     era_summary_of (era_bound_at 0 0 0) (Some (era_bound_at 259200 259200 3)) 86400 1 Alonzo,
     era_summary_of (era_bound_at 259200 259200 3) (Some (era_bound_at 55814400 55814400 646)) 86400 1 Babbage,
     era_summary_of (era_bound_at 55814400 55814400 646) None 86400 1 Conway]\<rparr>"

section \<open>Well-formed histories\<close>

text \<open>
  The condition the code relies on and leaves to its callers: every era starts
  where its predecessor ends, only the last is open, and an era that is not
  empty covers whole epochs of slots of a whole number of milliseconds.
\<close>

definition params_ok :: "era_params \<Rightarrow> bool" where
  "params_ok p = (0 < epoch_size_slots p \<and> 0 < slot_length p \<and> 10 ^ 6 dvd slot_length p)"

definition spans_epochs :: "era_summary \<Rightarrow> era_bound \<Rightarrow> bool" where
  "spans_epochs e end =
    (let start = es_start e; p = es_params e; slots = (eb_epoch end - eb_epoch start) * epoch_size_slots p
     in params_ok p \<and> eb_epoch start < eb_epoch end \<and>
        eb_slot end = eb_slot start + slots \<and>
        eb_time end = eb_time start + slot_length p * slots)"

fun wf_eras :: "era_bound \<Rightarrow> era_summary list \<Rightarrow> bool" where
  "wf_eras b [] = False" |
  "wf_eras b (e # es) =
    (es_start e = b \<and>
     (case es_end e of
        None \<Rightarrow> es = [] \<and> params_ok (es_params e)
      | Some end \<Rightarrow> (end = b \<or> spans_epochs e end) \<and> wf_eras end es))"

definition wf_history :: "era_history \<Rightarrow> bool" where
  "wf_history h = wf_eras (era_bound_at 0 0 0) (eh_eras h)"

lemmas scan_defs = relative_time_to_slot_def slot_to_relative_time_def
  slot_to_relative_time_unchecked_horizon_def slot_to_epoch_def slot_to_epoch_unchecked_horizon_def
  next_epoch_first_slot_def epoch_bounds_def

lemmas era_test_defs = contains_slot_def contains_slot_unchecked_horizon_def contains_epoch_def
  contains_epoch_unchecked_horizon_def es_is_empty_def

text \<open>Induction along a well-formed history: its open era, an empty era, an era of whole epochs.\<close>

lemma wf_eras_induct [consumes 1, case_names Open Empty Spans]:
  assumes "wf_eras b es"
    and open_era: "\<And>b e. es_start e = b \<Longrightarrow> es_end e = None \<Longrightarrow> params_ok (es_params e) \<Longrightarrow> P b [e]"
    and empty_era: "\<And>b e es. es_start e = b \<Longrightarrow> es_end e = Some b \<Longrightarrow> wf_eras b es \<Longrightarrow> P b es \<Longrightarrow> P b (e # es)"
    and spans: "\<And>b e end es. es_start e = b \<Longrightarrow> es_end e = Some end \<Longrightarrow> spans_epochs e end \<Longrightarrow>
      end \<noteq> b \<Longrightarrow> wf_eras end es \<Longrightarrow> P end es \<Longrightarrow> P b (e # es)"
  shows "P b es"
  using assms(1)
proof (induction es arbitrary: b)
  case (Cons e es)
  show ?case
  proof (cases "es_end e")
    case None
    then show ?thesis using Cons.prems open_era [of e b] by auto
  next
    case (Some fin)
    then show ?thesis
      using Cons empty_era [of e b es] spans [of e b fin es] by (cases "fin = b") auto
  qed
qed simp

lemma spans_epochsD:
  assumes "spans_epochs e end" and "es_start e = b"
  obtains n where "params_ok (es_params e)" and "0 < n" and "eb_epoch end = eb_epoch b + n"
    and "eb_slot end = eb_slot b + n * epoch_size_slots (es_params e)"
    and "eb_time end = eb_time b + slot_length (es_params e) * (n * epoch_size_slots (es_params e))"
  using assms that [of "eb_epoch end - eb_epoch b"] by (auto simp: spans_epochs_def Let_def)

lemma div_times_bounds:
  assumes "0 < (n :: nat)"
  shows "a div n * n \<le> a" and "a < n + a div n * n"
proof -
  show "a div n * n \<le> a" by simp
  have "a = a div n * n + a mod n" by simp
  moreover have "a mod n < n" using assms by simp
  ultimately show "a < n + a div n * n" by linarith
qed

section \<open>Slots and epochs\<close>

text \<open>
  The epoch of a slot, by the first era that contains it: the value and the
  bounds of that epoch, including at the boundary slot that the code attributes
  to the earlier era.
\<close>

lemma slot_epoch_bounds_eras:
  assumes "wf_eras b es" and "eb_slot b \<le> s"
  shows "\<exists>ep st en. slot_to_epoch_unchecked_horizon \<lparr>eh_stability_window = w, eh_eras = es\<rparr> s = Ok ep \<and>
    epoch_bounds \<lparr>eh_stability_window = w, eh_eras = es\<rparr> ep = Ok (st, en) \<and>
    eb_epoch b \<le> ep \<and> st \<le> s \<and> (\<forall>x. en = Some x \<longrightarrow> s < x) \<and>
    (s = eb_slot b \<longrightarrow> ep = eb_epoch b)"
  using assms
proof (induction rule: wf_eras_induct)
  case (Open b e)
  have "eb_slot b + (s - eb_slot b) div epoch_size_slots (es_params e) * epoch_size_slots (es_params e) \<le> s"
    using Open.prems div_times_less_eq_dividend [of "s - eb_slot b" "epoch_size_slots (es_params e)"]
    by linarith
  with Open show ?case
    by (auto simp: scan_defs era_test_defs era_slot_to_epoch_def elapsed_from_def params_ok_def
        offset_by_def Let_def)
next
  case (Empty b e es)
  then obtain ep st en where
    "slot_to_epoch_unchecked_horizon \<lparr>eh_stability_window = w, eh_eras = es\<rparr> s = Ok ep"
    "epoch_bounds \<lparr>eh_stability_window = w, eh_eras = es\<rparr> ep = Ok (st, en)"
    "eb_epoch b \<le> ep" "st \<le> s" "\<forall>x. en = Some x \<longrightarrow> s < x" "s = eb_slot b \<longrightarrow> ep = eb_epoch b"
    by blast
  then show ?case using Empty by (auto simp: scan_defs era_test_defs)
next
  case (Spans b e "end" es)
  obtain n where n: "params_ok (es_params e)" "0 < n" "eb_epoch end = eb_epoch b + n"
    "eb_slot end = eb_slot b + n * epoch_size_slots (es_params e)"
    using Spans by (auto elim: spans_epochsD)
  let ?sz = "epoch_size_slots (es_params e)"
  show ?case
  proof (cases "s < eb_slot end")
    case True
    define k where "k = (s - eb_slot b) div ?sz"
    have k: "k < n" "k * ?sz \<le> s - eb_slot b" "s - eb_slot b < ?sz + k * ?sz"
      using True n Spans.prems div_times_bounds [of ?sz "s - eb_slot b"]
      by (auto simp: k_def params_ok_def less_mult_imp_div_less)
    show ?thesis
      using True Spans n k
      by (auto simp: scan_defs era_test_defs era_slot_to_epoch_def elapsed_from_def params_ok_def
          offset_by_def Let_def k_def [symmetric])
  next
    case False
    then obtain ep st en where IH:
      "slot_to_epoch_unchecked_horizon \<lparr>eh_stability_window = w, eh_eras = es\<rparr> s = Ok ep"
      "epoch_bounds \<lparr>eh_stability_window = w, eh_eras = es\<rparr> ep = Ok (st, en)"
      "eb_epoch end \<le> ep" "st \<le> s" "\<forall>x. en = Some x \<longrightarrow> s < x" "s = eb_slot end \<longrightarrow> ep = eb_epoch end"
      using Spans by auto
    show ?thesis
    proof (cases "s = eb_slot end")
      case at_end: True
      then show ?thesis using IH Spans n
        by (auto simp: scan_defs era_test_defs era_slot_to_epoch_def elapsed_from_def params_ok_def)
    next
      case False
      then have "eb_slot end < s" using \<open>\<not> s < eb_slot end\<close> by simp
      then show ?thesis using IH Spans n
        by (auto simp: scan_defs era_test_defs)
    qed
  qed
qed

text \<open>Epochs grow with slots.\<close>

lemma slot_to_epoch_mono_eras:
  assumes "wf_eras b es" and "eb_slot b \<le> s" and "s \<le> s'"
    and "slot_to_epoch_unchecked_horizon \<lparr>eh_stability_window = w, eh_eras = es\<rparr> s = Ok ep"
    and "slot_to_epoch_unchecked_horizon \<lparr>eh_stability_window = w, eh_eras = es\<rparr> s' = Ok ep'"
  shows "ep \<le> ep'"
  using assms
proof (induction arbitrary: ep ep' rule: wf_eras_induct)
  case (Open b e)
  then show ?case
    by (auto simp: scan_defs era_test_defs era_slot_to_epoch_def elapsed_from_def
        div_le_mono diff_le_mono split: if_splits)
next
  case (Empty b e es)
  then show ?case by (auto simp: scan_defs era_test_defs)
next
  case (Spans b e "end" es)
  obtain n where n: "params_ok (es_params e)" "eb_epoch end = eb_epoch b + n"
    "eb_slot end = eb_slot b + n * epoch_size_slots (es_params e)"
    using Spans by (auto elim: spans_epochsD)
  let ?sz = "epoch_size_slots (es_params e)"
  have eps: "ep = (if s \<le> eb_slot end then eb_epoch b + (s - eb_slot b) div ?sz else ep)"
    "ep' = (if s' \<le> eb_slot end then eb_epoch b + (s' - eb_slot b) div ?sz else ep')"
    using Spans.prems Spans.hyps n
    by (auto simp: scan_defs era_test_defs era_slot_to_epoch_def elapsed_from_def params_ok_def)
  consider "s' \<le> eb_slot end" | "s \<le> eb_slot end" "eb_slot end < s'" | "eb_slot end < s" by linarith
  then show ?case
  proof cases
    case 1
    then show ?thesis using eps Spans.prems by (simp add: div_le_mono)
  next
    case 2
    have "(s - eb_slot b) div ?sz \<le> n"
      using div_le_mono [of "s - eb_slot b" "n * ?sz" ?sz] 2 n Spans.prems by (auto simp: params_ok_def)
    moreover have "slot_to_epoch_unchecked_horizon \<lparr>eh_stability_window = w, eh_eras = es\<rparr> s' = Ok ep'"
      using 2 Spans.prems Spans.hyps by (auto simp: scan_defs era_test_defs)
    then have "eb_epoch end \<le> ep'"
      using slot_epoch_bounds_eras [OF \<open>wf_eras end es\<close>, of s' w] 2 by auto
    ultimately show ?thesis using eps 2 n by simp
  next
    case 3
    then show ?thesis using Spans by (auto simp: scan_defs era_test_defs)
  qed
qed

section \<open>The foreseeable horizon\<close>

text \<open>
  The last foreseeable slot of a history whose last era is \<open>e\<close>: the virtual end of that
  era, unless it has wrapped to a slot before the era, where only closed eras are left.
\<close>

definition horizon :: "era_summary \<Rightarrow> slot \<Rightarrow> slot \<Rightarrow> slot" where
  "horizon e tip w =
    max (eb_slot (es_start e)) (case calculate_end_bound e tip w of None \<Rightarrow> 0 | Some b \<Rightarrow> eb_slot b)"

text \<open>The slots of the epochs that cover \<open>d\<close> slots.\<close>

lemma round_up_bounds:
  assumes "0 < (sz :: nat)"
  shows "d \<le> (d div sz + (if sz dvd d then 0 else 1)) * sz" and "(d div sz + (if sz dvd d then 0 else 1)) * sz < d + sz"
proof -
  have "d = d div sz * sz + d mod sz" by simp
  moreover have "d mod sz < sz" using assms by simp
  moreover have "sz dvd d \<longleftrightarrow> d mod sz = 0" by (rule dvd_eq_mod_eq_0)
  ultimately show "d \<le> (d div sz + (if sz dvd d then 0 else 1)) * sz"
    "(d div sz + (if sz dvd d then 0 else 1)) * sz < d + sz"
    by (simp_all only: add_mult_distrib split: if_split) linarith+
qed

lemma end_bound_exists: "params_ok (es_params e) \<Longrightarrow> calculate_end_bound e tip w \<noteq> None"
  by (simp add: params_ok_def calculate_end_bound_def Let_def)

lemma horizon_bounds:
  assumes "params_ok (es_params e)"
    and "max (eb_slot (es_start e)) (tip + 1) + w + epoch_size_slots (es_params e) \<le> 2 ^ 64"
  shows "max (eb_slot (es_start e)) (tip + 1) + w \<le> horizon e tip w"
    and "horizon e tip w < max (eb_slot (es_start e)) (tip + 1) + w + epoch_size_slots (es_params e)"
proof -
  let ?sz = "epoch_size_slots (es_params e)" and ?st = "eb_slot (es_start e)"
  define d where "d = max ?st (tip + 1) + w - ?st"
  define n where "n = d div ?sz + (if ?sz dvd d then 0 else 1)"
  have end_d: "max ?st (tip + 1) + w = ?st + d" by (simp add: d_def)
  have sz: "0 < ?sz" using assms(1) by (simp add: params_ok_def)
  have n: "d \<le> n * ?sz" "n * ?sz < d + ?sz" unfolding n_def by (rule round_up_bounds [OF sz])+
  have fits: "?st + d + ?sz \<le> 2 ^ 64" using assms(2) unfolding end_d .
  have "n \<le> n * ?sz" using sz by simp
  then have small: "n < 2 ^ 64" "n * ?sz < 2 ^ 64" "?st + n * ?sz < 2 ^ 64" "tip + 1 < 2 ^ 64" "?st + d < 2 ^ 64"
    using n fits sz assms(2) by linarith+
  have "u64_add (max ?st (u64_add tip 1)) w = ?st + d"
    using small(4,5) end_d by simp
  moreover have "u64_add (d div ?sz) (if ?sz dvd d then 0 else 1) = n"
    using small(1) unfolding n_def by (rule u64_add_exact)
  ultimately have "horizon e tip w = ?st + n * ?sz"
    using sz small(2,3) by (simp add: horizon_def calculate_end_bound_def Let_def)
  then show "max ?st (tip + 1) + w \<le> horizon e tip w" "horizon e tip w < max ?st (tip + 1) + w + ?sz"
    unfolding end_d using n by linarith+
qed

lemma wf_eras_last:
  assumes "wf_eras b es"
  shows "params_ok (es_params (last es))" and "es_end (last es) = None" and "es \<noteq> []"
    and "eb_slot b \<le> eb_slot (es_start (last es))"
  using assms by (induction rule: wf_eras_induct) (auto elim: spans_epochsD)

text \<open>
  The check of the horizon only matters in the last era: a slot up to the start of that
  era is found in a closed one, except slot 0, which no bound excludes.
\<close>

lemma scan_within_horizon:
  assumes "wf_eras b es" and "eb_slot b < s \<or> eb_slot b = 0"
  shows "scan_eras (\<lambda>e. s < eb_slot (es_start e)) (\<lambda>e. contains_slot e s tip w) f PastTimeHorizon es =
    (if s \<le> horizon (last es) tip w
     then scan_eras (\<lambda>e. s < eb_slot (es_start e)) (\<lambda>e. Some (contains_slot_unchecked_horizon e s)) f
       InvalidEraHistory es
     else Err PastTimeHorizon)"
  using assms
proof (induction rule: wf_eras_induct)
  case (Open b e)
  then show ?case
    using end_bound_exists [of e tip w] by (auto simp: era_test_defs horizon_def le_max_iff_disj split: bool.splits)
next
  case (Empty b e es)
  then show ?case by (auto simp: era_test_defs dest: wf_eras_last)
next
  case (Spans b e "end" es)
  have "eb_slot end \<le> horizon (last es) tip w"
    using wf_eras_last(4) [OF \<open>wf_eras end es\<close>] by (simp add: horizon_def)
  then show ?case
    using Spans wf_eras_last(3) [OF \<open>wf_eras end es\<close>]
    by (cases "s \<le> eb_slot end") (auto simp: era_test_defs)
qed

section \<open>Slots and time\<close>

lemma time_of_bound:
  assumes "wf_eras b es"
  shows "relative_time_to_slot \<lparr>eh_stability_window = w, eh_eras = es\<rparr> (eb_time b) = Ok (eb_slot b)"
  using assms
proof (induction rule: wf_eras_induct)
  case (Spans b e "end" es)
  obtain n where "params_ok (es_params e)" "0 < n"
    "eb_time end = eb_time b + slot_length (es_params e) * (n * epoch_size_slots (es_params e))"
    using Spans by (auto elim: spans_epochsD)
  then show ?case
    using Spans by (auto simp: scan_defs era_relative_time_to_slot_def as_millis_def offset_by_def
        params_ok_def)
qed (auto simp: scan_defs era_relative_time_to_slot_def as_millis_def offset_by_def params_ok_def)

lemma era_time_round_trip:
  assumes "params_ok (es_params e)" and "era_slot_to_relative_time s e = Ok t"
  shows "era_relative_time_to_slot t e = Ok s" and "eb_time (es_start e) \<le> t"
    and "t = eb_time (es_start e) + slot_length (es_params e) * (s - eb_slot (es_start e))"
    and "eb_slot (es_start e) \<le> s"
proof -
  obtain m where m: "slot_length (es_params e) = 10 ^ 6 * m" "0 < m"
    using assms(1) by (auto simp: params_ok_def)
  let ?d = "s - eb_slot (es_start e)"
  have s: "eb_slot (es_start e) \<le> s" "?d < 2 ^ 32"
    and t: "t = eb_time (es_start e) + slot_length (es_params e) * ?d"
    using assms(2) by (auto simp: era_slot_to_relative_time_def elapsed_from_def split: if_splits)
  have "10 ^ 6 * m * ?d div 10 ^ 6 div m = ?d" using m(2) by (simp add: mult.assoc)
  then show "era_relative_time_to_slot t e = Ok s"
    using s m t by (simp add: era_relative_time_to_slot_def as_millis_def offset_by_def u64_max_def)
  show "eb_time (es_start e) \<le> t" "t = eb_time (es_start e) + slot_length (es_params e) * ?d"
    "eb_slot (es_start e) \<le> s"
    using t s by simp_all
qed

lemma time_round_trip_eras:
  assumes "wf_eras b es" and "eb_slot b \<le> s"
    and "slot_to_relative_time_unchecked_horizon \<lparr>eh_stability_window = w, eh_eras = es\<rparr> s = Ok t"
  shows "eb_time b \<le> t \<and> relative_time_to_slot \<lparr>eh_stability_window = w, eh_eras = es\<rparr> t = Ok s"
  using assms
proof (induction rule: wf_eras_induct)
  case (Open b e)
  then show ?case
    using era_time_round_trip [of e s t] by (simp add: scan_defs era_test_defs)
next
  case (Empty b e es)
  then show ?case by (simp add: scan_defs era_test_defs)
next
  case (Spans b e "end" es)
  obtain n where n: "params_ok (es_params e)" "0 < n"
    "eb_slot end = eb_slot b + n * epoch_size_slots (es_params e)"
    "eb_time end = eb_time b + slot_length (es_params e) * (n * epoch_size_slots (es_params e))"
    using Spans by (auto elim: spans_epochsD)
  show ?case
  proof (cases "s \<le> eb_slot end")
    case True
    then have t: "era_slot_to_relative_time s e = Ok t"
      using Spans by (simp add: scan_defs era_test_defs)
    note rt = era_time_round_trip [OF n(1) t]
    show ?thesis
    proof (cases "s = eb_slot end")
      case at_end: True
      then have "t = eb_time end" using rt(3) n Spans by simp
      then show ?thesis
        using time_of_bound [OF \<open>wf_eras end es\<close>, of w] at_end Spans rt(2) by (simp add: scan_defs)
    next
      case False
      then have "slot_length (es_params e) * (s - eb_slot b) < slot_length (es_params e) * (n * epoch_size_slots (es_params e))"
        using True n Spans.prems by (intro mult_strict_left_mono) (auto simp: params_ok_def)
      then have "t < eb_time end" using rt(3) n Spans by simp
      then show ?thesis using rt Spans by (simp add: scan_defs)
    qed
  next
    case False
    then have "eb_time end \<le> t \<and> relative_time_to_slot \<lparr>eh_stability_window = w, eh_eras = es\<rparr> t = Ok s"
      using Spans by (simp add: scan_defs era_test_defs)
    then show ?thesis using Spans n by (auto simp: scan_defs)
  qed
qed

section \<open>From an epoch to the next\<close>

lemma epoch_bounds_at_bound:
  assumes "wf_eras b es"
  shows "\<exists>en. epoch_bounds \<lparr>eh_stability_window = w, eh_eras = es\<rparr> (eb_epoch b) = Ok (eb_slot b, en)"
  using assms
proof (induction rule: wf_eras_induct)
  case (Spans b e "end" es)
  then show ?case
    by (auto simp: scan_defs era_test_defs offset_by_def Let_def elim: spans_epochsD)
qed (auto simp: scan_defs era_test_defs offset_by_def Let_def)

lemma next_epoch_first_slot_eras:
  assumes "wf_eras b es" and "eb_epoch b \<le> ep"
    and "next_epoch_first_slot \<lparr>eh_stability_window = w, eh_eras = es\<rparr> ep tip = Ok s"
  shows "\<exists>en. epoch_bounds \<lparr>eh_stability_window = w, eh_eras = es\<rparr> (ep + 1) = Ok (s, en)"
  using assms
proof (induction rule: wf_eras_induct)
  case (Open b e)
  then show ?case
    by (auto simp: scan_defs era_test_defs offset_by_def Let_def Suc_diff_le split: if_splits option.splits bool.splits)
next
  case (Empty b e es)
  then show ?case by (auto simp: scan_defs era_test_defs)
next
  case (Spans b e "end" es)
  obtain n where n: "0 < n" "eb_epoch end = eb_epoch b + n"
    "eb_slot end = eb_slot b + n * epoch_size_slots (es_params e)"
    using Spans by (auto elim: spans_epochsD)
  consider "ep + 1 < eb_epoch end" | "ep + 1 = eb_epoch end" | "eb_epoch end \<le> ep" by linarith
  then show ?case
  proof cases
    case 1
    then show ?thesis using Spans
      by (auto simp: scan_defs era_test_defs offset_by_def Let_def Suc_diff_le)
  next
    case 2
    then have "n = Suc (ep - eb_epoch b)" using n Spans.prems by simp
    then have "s = eb_slot end" using 2 n Spans by (auto simp: scan_defs era_test_defs)
    then show ?thesis using epoch_bounds_at_bound [OF \<open>wf_eras end es\<close>, of w] 2 Spans
      by (auto simp: scan_defs era_test_defs)
  next
    case 3
    then show ?thesis using Spans by (auto simp: scan_defs era_test_defs)
  qed
qed

lemma history_eta: "\<lparr>eh_stability_window = eh_stability_window h, eh_eras = eh_eras h\<rparr> = h"
  by simp

section \<open>Properties\<close>

lemma mainnet_wf: "wf_history mainnet_era_history"
  by (simp add: wf_history_def mainnet_era_history_def era_summary_of_def era_bound_at_def
      from_secs_def spans_epochs_def params_ok_def)

lemma preprod_wf: "wf_history preprod_era_history"
  by (simp add: wf_history_def preprod_era_history_def era_summary_of_def era_bound_at_def
      from_secs_def spans_epochs_def params_ok_def)

text \<open>
  C13: in a well-formed era history every slot has an epoch, the epoch's bounds
  contain the slot (the slot that ends an era included, which the code finds in
  the era before), the offset of the slot in its epoch is computed without error
  whenever the slot is foreseeable, and epochs grow with slots.
\<close>

theorem slot_to_epoch_correct:
  assumes "wf_history h" and "s \<le> s'"
  shows "\<exists>ep ep' st en. slot_to_epoch_unchecked_horizon h s = Ok ep \<and>
    slot_to_epoch_unchecked_horizon h s' = Ok ep' \<and> ep \<le> ep' \<and>
    epoch_bounds h ep = Ok (st, en) \<and> st \<le> s \<and> (case en of None \<Rightarrow> True | Some x \<Rightarrow> s < x) \<and>
    slot_in_epoch h s tip = (if slot_to_epoch h s tip = Ok ep then Ok (s - st) else Err PastTimeHorizon)"
proof -
  have wf: "wf_eras (era_bound_at 0 0 0) (eh_eras h)" using assms(1) by (simp add: wf_history_def)
  have b0: "eb_slot (era_bound_at 0 0 0) \<le> x" for x by (simp add: era_bound_at_def)
  note bounds = slot_epoch_bounds_eras [OF wf b0, where w = "eh_stability_window h", unfolded history_eta]
  obtain ep st en where ep: "slot_to_epoch_unchecked_horizon h s = Ok ep" "epoch_bounds h ep = Ok (st, en)"
    "st \<le> s" "\<forall>x. en = Some x \<longrightarrow> s < x"
    using bounds [of s] by blast
  obtain ep' where ep': "slot_to_epoch_unchecked_horizon h s' = Ok ep'" using bounds [of s'] by blast
  have "ep \<le> ep'"
    using slot_to_epoch_mono_eras [OF wf b0 assms(2), of "eh_stability_window h" ep ep'] ep ep' by (simp add: history_eta)
  moreover have "slot_to_epoch h s tip = Ok ep \<or> slot_to_epoch h s tip = Err PastTimeHorizon"
    using scan_within_horizon [OF wf, of s tip "eh_stability_window h" "era_slot_to_epoch s"] ep(1) b0 [of 0]
    by (auto simp: slot_to_epoch_def slot_to_epoch_unchecked_horizon_def split: if_splits)
  then have "slot_in_epoch h s tip =
      (if slot_to_epoch h s tip = Ok ep then Ok (s - st) else Err PastTimeHorizon)"
    using ep by (auto simp: slot_in_epoch_def elapsed_from_def)
  ultimately show ?thesis using ep ep' by (auto split: option.splits)
qed

theorem slot_to_epoch_correct_witness:
  "\<exists>ep ep' st en. slot_to_epoch_unchecked_horizon mainnet_era_history 133660800 = Ok ep \<and>
    slot_to_epoch_unchecked_horizon mainnet_era_history 133660801 = Ok ep' \<and> ep \<le> ep' \<and>
    epoch_bounds mainnet_era_history ep = Ok (st, en) \<and> st \<le> 133660800"
  using slot_to_epoch_correct [OF mainnet_wf, of 133660800 133660801] by fastforce

text \<open>
  C19: for every tip there is one last foreseeable slot: up to it the conversions that
  check the horizon agree with those that do not, and beyond it they fail with
  \<open>PastTimeHorizon\<close>.  It is never before the last era, also when the bound of the code
  wraps.  When the bound fits in 64 bits, with an epoch to spare, it lies at or after the
  stability window that follows the tip and the start of the era, and less than an epoch later.
\<close>

theorem horizon_is_exact:
  assumes "wf_history h"
  shows "\<exists>hz. eb_slot (es_start (last (eh_eras h))) \<le> hz \<and>
    (max (eb_slot (es_start (last (eh_eras h)))) (tip + 1) + eh_stability_window h +
        epoch_size_slots (es_params (last (eh_eras h))) \<le> 2 ^ 64 \<longrightarrow>
      max (eb_slot (es_start (last (eh_eras h)))) (tip + 1) + eh_stability_window h \<le> hz \<and>
      hz < max (eb_slot (es_start (last (eh_eras h)))) (tip + 1) + eh_stability_window h +
        epoch_size_slots (es_params (last (eh_eras h)))) \<and>
    (\<forall>s. slot_to_epoch h s tip =
        (if s \<le> hz then slot_to_epoch_unchecked_horizon h s else Err PastTimeHorizon) \<and>
      slot_to_relative_time h s tip =
        (if s \<le> hz then slot_to_relative_time_unchecked_horizon h s else Err PastTimeHorizon))"
proof (intro exI [of _ "horizon (last (eh_eras h)) tip (eh_stability_window h)"] conjI allI impI)
  have wf: "wf_eras (era_bound_at 0 0 0) (eh_eras h)" using assms(1) by (simp add: wf_history_def)
  note scan = scan_within_horizon [OF wf, of _ tip "eh_stability_window h"]
  show "eb_slot (es_start (last (eh_eras h))) \<le> horizon (last (eh_eras h)) tip (eh_stability_window h)"
    by (simp add: horizon_def)
  show "slot_to_epoch h s tip = (if s \<le> horizon (last (eh_eras h)) tip (eh_stability_window h)
      then slot_to_epoch_unchecked_horizon h s else Err PastTimeHorizon)" for s
    unfolding scan_defs by (rule scan) (simp add: era_bound_at_def)
  show "slot_to_relative_time h s tip = (if s \<le> horizon (last (eh_eras h)) tip (eh_stability_window h)
      then slot_to_relative_time_unchecked_horizon h s else Err PastTimeHorizon)" for s
    unfolding scan_defs by (rule scan) (simp add: era_bound_at_def)
qed (use assms wf_eras_last(1) horizon_bounds in \<open>unfold wf_history_def, blast+\<close>)

text \<open>On mainnet the horizon of a tip in epoch 660 is at or after its stability window and in range.\<close>

theorem horizon_is_exact_witness:
  "slot_to_epoch mainnet_era_history 200129601 200000000 =
    slot_to_epoch_unchecked_horizon mainnet_era_history 200129601 \<and>
   slot_to_epoch mainnet_era_history 200600000 200000000 = Err PastTimeHorizon"
proof -
  have "eh_stability_window mainnet_era_history = 129600"
    "eb_slot (es_start (last (eh_eras mainnet_era_history))) = 133660800"
    "epoch_size_slots (es_params (last (eh_eras mainnet_era_history))) = 432000"
    by (simp_all add: mainnet_era_history_def era_summary_of_def era_bound_at_def)
  then show ?thesis using horizon_is_exact [OF mainnet_wf, of 200000000] by auto
qed

text \<open>
  C20: the slot of the time at which a slot starts is that slot, across eras
  with different slot lengths, whether or not the horizon was checked.
\<close>

theorem slot_time_round_trip:
  assumes "wf_history h"
    and "slot_to_relative_time_unchecked_horizon h s = Ok t \<or> slot_to_relative_time h s tip = Ok t"
  shows "relative_time_to_slot h t = Ok s \<and> posix_time_to_slot h (system_start + t) system_start = Ok s"
proof -
  have wf: "wf_eras (era_bound_at 0 0 0) (eh_eras h)" using assms(1) by (simp add: wf_history_def)
  have b0: "eb_slot (era_bound_at 0 0 0) \<le> s" by (simp add: era_bound_at_def)
  have "slot_to_relative_time_unchecked_horizon h s = Ok t"
    using assms(2) scan_within_horizon [OF wf, of s tip "eh_stability_window h" "era_slot_to_relative_time s"]
    by (auto simp: era_bound_at_def slot_to_relative_time_def slot_to_relative_time_unchecked_horizon_def split: if_splits)
  then have "relative_time_to_slot h t = Ok s"
    using time_round_trip_eras [OF wf b0, of "eh_stability_window h" t] by (simp add: history_eta)
  then show ?thesis by (simp add: posix_time_to_slot_def)
qed

theorem slot_time_round_trip_witness:
  "slot_to_relative_time_unchecked_horizon mainnet_era_history 4492800 = Ok (89856000 * 10 ^ 9) \<and>
   relative_time_to_slot mainnet_era_history (89856000 * 10 ^ 9) = Ok 4492800"
proof -
  have "slot_to_relative_time_unchecked_horizon mainnet_era_history 4492800 = Ok (89856000 * 10 ^ 9)"
    by (simp add: mainnet_era_history_def scan_defs era_test_defs era_summary_of_def era_bound_at_def
        from_secs_def era_slot_to_relative_time_def elapsed_from_def)
  then show ?thesis using slot_time_round_trip [OF mainnet_wf] by blast
qed

text \<open>
  the first slot of the next epoch that the code computes is the start of
  the bounds of the following epoch, in the same era or in the next non-empty
  one.
\<close>

theorem next_epoch_first_slot_starts_next_epoch:
  assumes "wf_history h" and "next_epoch_first_slot h ep tip = Ok s"
  shows "\<exists>en. epoch_bounds h (ep + 1) = Ok (s, en)"
  using next_epoch_first_slot_eras [of "era_bound_at 0 0 0" "eh_eras h" ep "eh_stability_window h" tip s] assms
  by (simp add: wf_history_def era_bound_at_def history_eta)

theorem next_epoch_first_slot_starts_next_epoch_witness:
  "\<exists>en. epoch_bounds mainnet_era_history (207 + 1) = Ok (4492800, en)"
proof -
  have "next_epoch_first_slot mainnet_era_history 207 0 = Ok 4492800"
    by (simp add: mainnet_era_history_def scan_defs era_test_defs era_summary_of_def era_bound_at_def)
  then show ?thesis using next_epoch_first_slot_starts_next_epoch [OF mainnet_wf] by blast
qed

text \<open>
  C21: the histories of mainnet and preprod are well-formed; that of preview is
  not.  Its Allegra era starts at epoch 5 and ends at epoch 0, so it is not
  taken for an empty era: slot 0 is attributed to epoch 5, and the bounds of the
  epochs 0 to 4, hence the offset of a slot in them, are errors.
\<close>

theorem public_network_histories:
  "wf_history mainnet_era_history \<and> wf_history preprod_era_history \<and>
   \<not> wf_history preview_era_history \<and>
   slot_to_epoch preview_era_history 0 tip = Ok 5 \<and>
   slot_to_epoch preview_era_history 1 tip = Ok 0 \<and>
   map (epoch_bounds preview_era_history) [0, 1, 2, 3, 4] = replicate 5 (Err InvalidEraHistory) \<and>
   slot_in_epoch preview_era_history 1 tip = Err InvalidEraHistory"
proof -
  note simps = preview_era_history_def era_summary_of_def era_bound_at_def scan_defs era_test_defs
    era_slot_to_epoch_def elapsed_from_def from_secs_def
  have e1: "slot_to_epoch preview_era_history 1 tip = Ok 0"
    by (simp add: simps)
  have early: "epoch_bounds preview_era_history ep = Err InvalidEraHistory" if "ep < 5" for ep
    using that by (simp add: simps)
  then have bounds: "map (epoch_bounds preview_era_history) [0, 1, 2, 3, 4] = replicate 5 (Err InvalidEraHistory)"
    by (simp add: numeral_eq_Suc)
  have "\<not> wf_history preview_era_history"
    by (simp add: wf_history_def simps spans_epochs_def)
  moreover have "slot_to_epoch preview_era_history 0 tip = Ok 5"
    by (simp add: simps)
  moreover have "slot_in_epoch preview_era_history 1 tip = Err InvalidEraHistory"
    using e1 early [of 0] by (simp add: slot_in_epoch_def)
  ultimately show ?thesis using e1 bounds mainnet_wf preprod_wf by blast
qed

end
