(* ===== verification/Pool_Updates.thy ===== *)
theory Pool_Updates
  imports Kernel_Types
begin

text \<open>
  Stake pools at the epoch boundary
  (\<open>amaru-ledger/src/epoch_transition/pools_updates.rs\<close>, its module
  \<open>pool_certificates\<close> and the rows of \<open>store/columns/pools.rs\<close>): the pending
  certificates of a pool, collapsed when the epoch begins, and the retirements,
  parameter updates and deposit refunds of a boundary.  The log events of
  \<open>tick_pool\<close> are left out.  A failing assertion is the value \<^term>\<open>None\<close>.
\<close>

section \<open>Certificates and rows\<close>

datatype pool_certificate = Registration pool_params | Retirement epoch

record pool_row =
  pr_registered_at :: cert_pointer
  pr_deposit :: lovelace
  pr_current_params :: pool_params
  pr_pending_certificates :: "pool_certificate list"

definition pool_row_new :: "cert_pointer \<Rightarrow> lovelace \<Rightarrow> pool_params \<Rightarrow> pool_row" where
  "pool_row_new registered_at deposit params =
    \<lparr>pr_registered_at = registered_at, pr_deposit = deposit, pr_current_params = params,
     pr_pending_certificates = []\<rparr>"

definition pool_row_id :: "pool_row \<Rightarrow> pool_id" where
  "pool_row_id row = pool_id (pr_current_params row)"

record pending_pool_certificates =
  pc_certificate :: "pool_certificate option"
  pc_next_certificates :: "pool_certificate list"
  pc_has_resolved :: bool

fun pending_step ::
  "epoch \<Rightarrow> pool_certificate option \<times> pool_certificate list \<Rightarrow> pool_certificate \<Rightarrow>
    pool_certificate option \<times> pool_certificate list" where
  "pending_step current_epoch (certificate, next) (Registration params) = (Some (Registration params), [])" |
  "pending_step current_epoch (certificate, next) (Retirement effective_in) =
    (if effective_in \<le> current_epoch then (Some (Retirement effective_in), [])
     else
       ((case certificate of Some (Retirement _) \<Rightarrow> None | _ \<Rightarrow> certificate),
        next @ [Retirement effective_in]))"

definition pending_after :: "pool_certificate list \<Rightarrow> epoch \<Rightarrow> pending_pool_certificates" where
  "pending_after certificates current_epoch =
    (let (certificate, next) = foldl (pending_step current_epoch) (None, []) certificates
     in \<lparr>pc_certificate = certificate, pc_next_certificates = next,
         pc_has_resolved = length next < length certificates\<rparr>)"

definition pc_registration :: "pending_pool_certificates \<Rightarrow> pool_params option" where
  "pc_registration pending =
    (case pc_certificate pending of Some (Registration params) \<Rightarrow> Some params | _ \<Rightarrow> None)"

definition pc_is_retiring :: "pending_pool_certificates \<Rightarrow> bool" where
  "pc_is_retiring pending = (case pc_certificate pending of Some (Retirement _) \<Rightarrow> True | _ \<Rightarrow> False)"

definition pc_is_retiring_at :: "pending_pool_certificates \<Rightarrow> epoch \<Rightarrow> bool" where
  "pc_is_retiring_at pending epoch =
    (case pc_certificate pending of Some (Retirement e) \<Rightarrow> e = epoch | _ \<Rightarrow> False)"

section \<open>Updates of a boundary\<close>

record pools_updates =
  pu_retired :: "pool_id oset"
  pu_updated :: "(pool_id, pool_row) omap"
  pu_refunds :: "(credential, lovelace) omap"

definition pools_updates_default :: pools_updates where
  "pools_updates_default = \<lparr>pu_retired = om_empty, pu_updated = om_empty, pu_refunds = om_empty\<rparr>"

definition refund :: "pools_updates \<Rightarrow> credential \<Rightarrow> lovelace" where
  "refund pu account = amount_of (pu_refunds pu) account"

definition is_retiring :: "epoch \<Rightarrow> pool_row \<Rightarrow> bool" where
  "is_retiring epoch row = pc_is_retiring (pending_after (pr_pending_certificates row) epoch)"

definition retire_pool ::
  "pools_updates \<Rightarrow> epoch \<Rightarrow> pool_row \<Rightarrow> pending_pool_certificates \<Rightarrow> pools_updates option" where
  "retire_pool pu epoch row pending =
    (if pc_is_retiring_at pending epoch then
       Some (pu\<lparr>pu_retired := os_insert (pool_row_id row) (pu_retired pu),
                pu_refunds := add_amount (snd (pool_reward_account (pr_current_params row)))
                  (pr_deposit row) (pu_refunds pu)\<rparr>)
     else None)"

text \<open>A re-registration replaces every parameter but the identifier.\<close>

definition apply_registration :: "pool_params \<Rightarrow> pool_params \<Rightarrow> pool_params" where
  "apply_registration current_params new_params =
    current_params\<lparr>pool_vrf := pool_vrf new_params, pool_pledge := pool_pledge new_params,
      pool_cost := pool_cost new_params, pool_margin := pool_margin new_params,
      pool_reward_account := pool_reward_account new_params,
      pool_owners := pool_owners new_params\<rparr>"

definition tick_pool :: "pools_updates \<Rightarrow> epoch \<Rightarrow> pool_row \<Rightarrow> pools_updates option" where
  "tick_pool pu epoch row =
    (let pending = pending_after (pr_pending_certificates row) epoch in
     if pc_is_retiring pending then retire_pool pu epoch row pending
     else
       let id = pool_row_id row;
           has_updated = (pc_registration pending \<noteq> None);
           params = (case pc_registration pending of
               Some new_params \<Rightarrow> apply_registration (pr_current_params row) new_params
             | None \<Rightarrow> pr_current_params row);
           row' = row\<lparr>pr_current_params := params,
             pr_pending_certificates := pc_next_certificates pending\<rparr>
       in Some (if has_updated \<or> pc_has_resolved pending
                then pu\<lparr>pu_updated := om_insert id row' (pu_updated pu)\<rparr> else pu))"

fun tick_pools :: "pools_updates \<Rightarrow> epoch \<Rightarrow> (pool_id \<times> pool_row) list \<Rightarrow> pools_updates option" where
  "tick_pools pu epoch [] = Some pu" |
  "tick_pools pu epoch ((_, row) # rows) =
    (case tick_pool pu epoch row of
       None \<Rightarrow> None
     | Some pu' \<Rightarrow> tick_pools pu' epoch rows)"

definition pools_updates_new :: "(pool_id \<times> pool_row) list \<Rightarrow> epoch \<Rightarrow> pools_updates option" where
  "pools_updates_new pools epoch = tick_pools pools_updates_default epoch pools"

section \<open>Replaying certificates\<close>

text \<open>
  The reference is to replay every certificate ever submitted: the parameters
  are those of the last registration, and the pool retires when the last
  certificate is a retirement whose epoch has come.
\<close>

fun replay_step ::
  "epoch \<Rightarrow> pool_params \<times> bool \<Rightarrow> pool_certificate \<Rightarrow> pool_params \<times> bool" where
  "replay_step epoch (current, retiring) (Registration params) =
    (apply_registration current params, False)" |
  "replay_step epoch (current, retiring) (Retirement t) = (current, t \<le> epoch)"

definition replay :: "epoch \<Rightarrow> pool_params \<Rightarrow> pool_certificate list \<Rightarrow> pool_params \<times> bool" where
  "replay epoch initial cs = foldl (replay_step epoch) (initial, False) cs"

definition is_registration :: "pool_certificate \<Rightarrow> bool" where
  "is_registration c = (case c of Registration _ \<Rightarrow> True | Retirement _ \<Rightarrow> False)"

definition is_effective :: "epoch \<Rightarrow> pool_certificate \<Rightarrow> bool" where
  "is_effective epoch c = (case c of Registration _ \<Rightarrow> False | Retirement t \<Rightarrow> t \<le> epoch)"

text \<open>
  The one sequence the fold gets wrong: after the last registration a retirement
  takes effect at this boundary, and a later certificate postpones it.  The
  superseded retirement has already discarded the registration.
\<close>

definition discards_registration :: "epoch \<Rightarrow> pool_certificate list \<Rightarrow> bool" where
  "discards_registration epoch cs =
    (list_ex is_registration cs \<and>
     list_ex (is_effective epoch) (takeWhile (Not \<circ> is_registration) (rev cs)))"

definition loses_update :: "epoch \<Rightarrow> pool_certificate list \<Rightarrow> bool" where
  "loses_update epoch cs =
    (discards_registration epoch cs \<and> cs \<noteq> [] \<and> \<not> is_effective epoch (last cs))"

definition retires :: "pool_certificate option \<Rightarrow> bool" where
  "retires certificate = (case certificate of Some (Retirement _) \<Rightarrow> True | _ \<Rightarrow> False)"

definition applied :: "pool_params \<Rightarrow> pool_certificate option \<Rightarrow> pool_params" where
  "applied p certificate =
    (case certificate of Some (Registration q) \<Rightarrow> apply_registration p q | _ \<Rightarrow> p)"

lemma apply_registration_idem [simp]:
  "apply_registration (apply_registration p q) r = apply_registration p r"
  by (simp add: apply_registration_def)

lemma pool_id_apply_registration [simp]: "pool_id (apply_registration p q) = pool_id p"
  by (simp add: apply_registration_def)

lemma replay_Nil [simp]: "replay e p [] = (p, False)"
  by (simp add: replay_def)

lemma replay_snoc [simp]: "replay e p (cs @ [c]) = replay_step e (replay e p cs) c"
  by (simp add: replay_def)

lemma replay_params_form: "fst (replay e p cs) = p \<or> (\<exists>q. fst (replay e p cs) = apply_registration p q)"
proof (induction cs rule: rev_induct)
  case (snoc c cs)
  then show ?case by (cases "replay e p cs"; cases c) auto
qed simp

lemma replay_params_epoch: "fst (replay e p cs) = fst (replay e' p cs)"
proof (induction cs rule: rev_induct)
  case (snoc c cs)
  then show ?case by (cases "replay e p cs"; cases "replay e' p cs"; cases c) auto
qed simp

lemma replay_retiring: "snd (replay e p cs) \<longleftrightarrow> cs \<noteq> [] \<and> is_effective e (last cs)"
  by (cases cs rule: rev_cases; cases "replay e p (butlast cs)"; cases "last cs")
    (auto simp: is_effective_def)

lemma certificate_tests [simp]:
  "is_registration (Registration x)" "\<not> is_registration (Retirement t)"
  "\<not> is_effective e (Registration x)" "is_effective e (Retirement t) \<longleftrightarrow> t \<le> e"
  "\<not> retires None" "\<not> retires (Some (Registration x))" "retires (Some (Retirement t))"
  "applied p None = p" "applied p (Some (Registration x)) = apply_registration p x"
  "applied p (Some (Retirement t)) = p"
  by (simp_all add: is_registration_def is_effective_def retires_def applied_def)

lemma discards_snoc:
  "discards_registration e (cs @ [Registration p]) = False"
  "discards_registration e (cs @ [Retirement t]) =
    (discards_registration e cs \<or> t \<le> e \<and> list_ex is_registration cs)"
  by (auto simp: discards_registration_def)

lemma pending_fold_spec:
  assumes "foldl (pending_step e) (None, []) cs = (certificate, next)"
  shows "retires certificate = snd (replay e p cs) \<and>
    ((\<exists>q. certificate = Some (Registration q)) \<longleftrightarrow>
      list_ex is_registration cs \<and> \<not> discards_registration e cs) \<and>
    (\<not> discards_registration e cs \<longrightarrow> fst (replay e p cs) = applied p certificate) \<and>
    list_all (\<lambda>c. \<not> is_registration c \<and> \<not> is_effective e c) next \<and>
    (next = [] \<longleftrightarrow> cs = [] \<or> is_registration (last cs) \<or> is_effective e (last cs)) \<and>
    (next \<noteq> [] \<longrightarrow> last next = last cs)"
  using assms
proof (induction cs arbitrary: certificate "next" rule: rev_induct)
  case Nil
  then show ?case by (auto simp: discards_registration_def)
next
  case (snoc c cs)
  obtain k n where kn: "foldl (pending_step e) (None, []) cs = (k, n)" by fastforce
  obtain q r where qr: "replay e p cs = (q, r)" by fastforce
  note IH = snoc.IH [OF kn] and form = replay_params_form [of e p cs]
  show ?case
  proof (cases c)
    case (Registration x)
    then show ?thesis using snoc.prems kn qr form
      by (auto simp: discards_snoc)
  next
    case (Retirement t)
    consider "k = None" | x where "k = Some (Registration x)" | u where "k = Some (Retirement u)"
      by (metis option.exhaust pool_certificate.exhaust)
    then show ?thesis
    proof cases
      case 1
      then show ?thesis using snoc.prems kn qr IH Retirement
        by (cases "t \<le> e") (clarsimp simp: discards_snoc, blast?)+
    next
      case 2
      then show ?thesis using snoc.prems kn qr IH Retirement
        by (cases "t \<le> e") (clarsimp simp: discards_snoc, blast?)+
    next
      case 3
      then show ?thesis using snoc.prems kn qr IH Retirement
        by (cases "t \<le> e") (clarsimp simp: discards_snoc, blast?)+
    qed
  qed
qed

section \<open>A pool across epochs\<close>

datatype pool_fate = Alive pool_row | Retired | Panicked

text \<open>The row of a pool after the updates of a boundary are applied to the store.\<close>

definition after_tick :: "epoch \<Rightarrow> pool_row \<Rightarrow> pool_fate" where
  "after_tick epoch row =
    (case tick_pool pools_updates_default epoch row of
       None \<Rightarrow> Panicked
     | Some pu \<Rightarrow>
         if om_contains (pu_retired pu) (pool_row_id row) then Retired
         else Alive (case om_lookup (pu_updated pu) (pool_row_id row) of Some row' \<Rightarrow> row' | None \<Rightarrow> row))"

text \<open>Certificates submitted during epoch \<open>e\<close> are appended to the row and ticked at \<open>e + 1\<close>.\<close>

fun run_epochs :: "epoch \<Rightarrow> pool_row \<Rightarrow> pool_certificate list list \<Rightarrow> pool_fate" where
  "run_epochs e row [] = Alive row" |
  "run_epochs e row (cs # css) =
    (case after_tick (e + 1)
        (row\<lparr>pr_pending_certificates := pr_pending_certificates row @ cs\<rparr>) of
       Alive row' \<Rightarrow> run_epochs (e + 1) row' css
     | fate \<Rightarrow> fate)"

text \<open>A retirement names an epoch after the one it is submitted in.\<close>

definition valid_in :: "epoch \<Rightarrow> pool_certificate list \<Rightarrow> bool" where
  "valid_in e cs = list_all (\<lambda>c. case c of Registration _ \<Rightarrow> True | Retirement t \<Rightarrow> e < t) cs"

fun valid_epochs :: "epoch \<Rightarrow> pool_certificate list list \<Rightarrow> bool" where
  "valid_epochs e [] = True" |
  "valid_epochs e (cs # css) = (valid_in e cs \<and> \<not> loses_update (e + 1) cs \<and> valid_epochs (e + 1) css)"

fun replay_epochs :: "epoch \<Rightarrow> pool_params \<Rightarrow> pool_certificate list \<Rightarrow> pool_certificate list list \<Rightarrow> pool_params option" where
  "replay_epochs e initial history [] = Some (fst (replay e initial history))" |
  "replay_epochs e initial history (cs # css) =
    (if snd (replay (e + 1) initial (history @ cs)) then None
     else replay_epochs (e + 1) initial (history @ cs) css)"

lemma discards_append_retirements:
  assumes "list_all (\<lambda>c. \<not> is_registration c) rs"
  shows "discards_registration e (rs @ cs) = discards_registration e cs"
proof (cases "list_ex is_registration cs")
  case True
  then obtain c where "c \<in> set (rev cs)" "\<not> (Not \<circ> is_registration) c" by (auto simp: list_ex_iff)
  then have "takeWhile (Not \<circ> is_registration) (rev cs @ rev rs) = takeWhile (Not \<circ> is_registration) (rev cs)"
    by (rule takeWhile_append1)
  then show ?thesis using True by (simp add: discards_registration_def)
next
  case False
  then show ?thesis using assms by (auto simp: discards_registration_def list_ex_iff list_all_iff)
qed

lemma replay_append: "replay e p (xs @ ys) = foldl (replay_step e) (replay e p xs) ys"
  by (simp add: replay_def)

lemma fold_replay_params: "fst (foldl (replay_step e) st cs) = fst (replay e (fst st) cs)"
proof (induction cs rule: rev_induct)
  case (snoc c cs)
  then show ?case
    by (cases "foldl (replay_step e) st cs"; cases "replay e (fst st) cs"; cases c) auto
qed simp

lemma replay_append_params: "fst (replay e p (xs @ ys)) = fst (replay e (fst (replay e p xs)) ys)"
  unfolding replay_append by (rule fold_replay_params)

lemma replay_no_registration:
  "list_all (\<lambda>c. \<not> is_registration c) rs \<Longrightarrow> fst (replay e p rs) = p"
proof (induction rs rule: rev_induct)
  case (snoc c rs)
  then show ?case by (cases "replay e p rs"; cases c) auto
qed simp

text \<open>The state between boundaries: what is pending, and the history it stands for.\<close>

definition row_follows :: "epoch \<Rightarrow> pool_params \<Rightarrow> pool_certificate list \<Rightarrow> pool_row \<Rightarrow> bool" where
  "row_follows e initial history row =
    (pr_current_params row = fst (replay e initial history) \<and>
     list_all (\<lambda>c. \<not> is_registration c \<and> \<not> is_effective e c) (pr_pending_certificates row) \<and>
     (if pr_pending_certificates row = []
      then history = [] \<or> is_registration (last history)
      else history \<noteq> [] \<and> last (pr_pending_certificates row) = last history))"

lemma row_follows_new: "row_follows e p [] (pool_row_new at' d p)"
  by (simp add: row_follows_def pool_row_new_def)

lemma retiring_exactly:
  assumes "foldl (pending_step e) (None, []) cs = (Some (Retirement t), next)"
    and "list_all (\<lambda>c. case c of Registration _ \<Rightarrow> True | Retirement t \<Rightarrow> e \<le> t) cs"
  shows "t = e"
  using assms
proof (induction cs arbitrary: "next" rule: rev_induct)
  case (snoc c cs)
  obtain k n where kn: "foldl (pending_step e) (None, []) cs = (k, n)" by fastforce
  then show ?case using snoc.prems
    by (cases c) (auto split: if_splits option.splits pool_certificate.splits)
qed simp

lemma after_tick_spec:
  assumes fold: "foldl (pending_step e) (None, []) (pr_pending_certificates row) = (certificate, next)"
    and exact: "list_all (\<lambda>c. case c of Registration _ \<Rightarrow> True | Retirement t \<Rightarrow> e \<le> t) (pr_pending_certificates row)"
  shows "after_tick e row =
    (if retires certificate then Retired
     else Alive (row\<lparr>pr_current_params := applied (pr_current_params row) certificate,
       pr_pending_certificates := next\<rparr>))"
proof -
  have len: "length next < length cs \<or> next = cs"
    if "foldl (pending_step e) (None, []) cs = (k, next)" for cs k "next"
    using that
  proof (induction cs arbitrary: k "next" rule: rev_induct)
    case (snoc c cs)
    obtain k' n where "foldl (pending_step e) (None, []) cs = (k', n)" by fastforce
    then show ?case using snoc by (cases c) (auto split: if_splits)
  qed simp
  have reg: "k = None" if "foldl (pending_step e) (None, []) cs = (k, next)" "next = cs" for cs k "next"
    using that
  proof (induction cs arbitrary: k "next" rule: rev_induct)
    case (snoc c cs)
    obtain k' n where "foldl (pending_step e) (None, []) cs = (k', n)" by fastforce
    then show ?case using snoc by (cases c) (auto split: if_splits)
  qed simp
  show ?thesis
  proof (cases "certificate")
    case None
    then show ?thesis using fold len [OF fold]
      by (auto simp: after_tick_def tick_pool_def Let_def pending_after_def pc_is_retiring_def
          pc_registration_def pools_updates_default_def om_contains_def)
  next
    case (Some c)
    then have "c = Retirement t \<Longrightarrow> t = e" for t using retiring_exactly [of e _ t] fold exact by blast
    then show ?thesis
      using Some fold len [OF fold] reg [OF fold]
      by (cases c) (auto simp: after_tick_def tick_pool_def Let_def pending_after_def pc_is_retiring_def
          pc_registration_def pools_updates_default_def om_contains_def retire_pool_def pc_is_retiring_at_def
          os_insert_def)
  qed
qed

lemma row_follows_tick:
  assumes follows: "row_follows e initial history row"
    and valid: "valid_in e cs" and kept: "\<not> loses_update (e + 1) cs"
  shows "(if snd (replay (e + 1) initial (history @ cs))
      then after_tick (e + 1) (row\<lparr>pr_pending_certificates := pr_pending_certificates row @ cs\<rparr>) = Retired
      else \<exists>row'. after_tick (e + 1) (row\<lparr>pr_pending_certificates := pr_pending_certificates row @ cs\<rparr>) = Alive row' \<and>
        row_follows (e + 1) initial (history @ cs) row')"
proof -
  let ?P = "pr_pending_certificates row" and ?p = "pr_current_params row" and ?e = "e + 1"
  obtain certificate "next" where fold: "foldl (pending_step ?e) (None, []) (?P @ cs) = (certificate, next)"
    by fastforce
  have P: "list_all (\<lambda>c. \<not> is_registration c \<and> \<not> is_effective e c) ?P"
    and p: "?p = fst (replay ?e initial history)"
    and hist: "if ?P = [] then history = [] \<or> is_registration (last history)
      else history \<noteq> [] \<and> last ?P = last history"
    using follows replay_params_epoch [of e initial history ?e] by (simp_all add: row_follows_def)
  have exact: "list_all (\<lambda>c. case c of Registration _ \<Rightarrow> True | Retirement t \<Rightarrow> ?e \<le> t) (?P @ cs)"
    using P valid by (auto simp: valid_in_def list_all_iff is_effective_def split: pool_certificate.splits)
  have noreg: "list_all (\<lambda>c. \<not> is_registration c) ?P" using P by (simp add: list_all_iff)
  note spec = pending_fold_spec [OF fold, of ?p]
  have last_eq: "is_effective ?e (last (?P @ cs)) \<and> ?P @ cs \<noteq> [] \<longleftrightarrow>
      is_effective ?e (last (history @ cs)) \<and> history @ cs \<noteq> []"
    using hist by (cases "cs = []") (auto split: if_splits simp: is_effective_def is_registration_def
        split: pool_certificate.splits)
  then have retires: "retires certificate = snd (replay ?e initial (history @ cs))"
    using spec by (auto simp: replay_retiring)
  have params: "fst (replay ?e initial (history @ cs)) = applied ?p certificate" if "\<not> retires certificate"
  proof -
    have "\<not> discards_registration ?e cs"
      using that kept retires
      by (cases cs rule: rev_cases) (auto simp: loses_update_def replay_retiring discards_registration_def)
    then show ?thesis
      using spec discards_append_retirements [OF noreg] replay_no_registration [OF noreg, of ?e ?p]
      by (simp add: replay_append_params p)
  qed
  have rest: "if next = [] then history @ cs = [] \<or> is_registration (last (history @ cs))
      else history @ cs \<noteq> [] \<and> last next = last (history @ cs)" if "\<not> retires certificate"
    using that spec retires hist P
    by (cases "cs = []") (auto simp: replay_retiring list_all_iff split: if_splits)
  have tick: "after_tick ?e (row\<lparr>pr_pending_certificates := ?P @ cs\<rparr>) =
      (if retires certificate then Retired
       else Alive (row\<lparr>pr_current_params := applied ?p certificate, pr_pending_certificates := next\<rparr>))"
    using after_tick_spec [of ?e "row\<lparr>pr_pending_certificates := ?P @ cs\<rparr>"] fold exact by simp
  show ?thesis
  proof (cases "retires certificate")
    case False
    have "list_all (\<lambda>c. \<not> is_registration c \<and> \<not> is_effective ?e c) next" using spec by blast
    then have "row_follows ?e initial (history @ cs)
        (row\<lparr>pr_current_params := applied ?p certificate, pr_pending_certificates := next\<rparr>)"
      using params [OF False] rest [OF False] unfolding row_follows_def
      by (cases "next = []") simp_all
    then show ?thesis using tick retires False by simp
  qed (use tick retires in simp)
qed

lemma run_follows:
  assumes "row_follows e initial history row" and "valid_epochs e css"
  shows "(case run_epochs e row css of
      Alive row' \<Rightarrow> replay_epochs e initial history css = Some (pr_current_params row')
    | Retired \<Rightarrow> replay_epochs e initial history css = None
    | Panicked \<Rightarrow> False)"
  using assms
proof (induction css arbitrary: e row history)
  case Nil
  then show ?case by (simp add: row_follows_def)
next
  case (Cons cs css)
  have v: "valid_in e cs" "\<not> loses_update (e + 1) cs" "valid_epochs (e + 1) css"
    using Cons.prems(2) by simp_all
  note tick = row_follows_tick [OF Cons.prems(1) v(1,2)]
  show ?case
  proof (cases "snd (replay (e + 1) initial (history @ cs))")
    case False
    then obtain row' where
      "after_tick (e + 1) (row\<lparr>pr_pending_certificates := pr_pending_certificates row @ cs\<rparr>) = Alive row'"
      and follows: "row_follows (e + 1) initial (history @ cs) row'"
      using tick by auto
    then show ?thesis using False Cons.IH [OF follows v(3)] by (auto split: pool_fate.splits)
  qed (use tick in simp)
qed

section \<open>The updates of a boundary\<close>

definition refunded_to :: "epoch \<Rightarrow> credential \<Rightarrow> (pool_id \<times> pool_row) list \<Rightarrow> lovelace" where
  "refunded_to epoch account pools =
    sum_list (map (\<lambda>(_, row). pr_deposit row)
      (filter (\<lambda>(_, row). is_retiring epoch row \<and>
         snd (pool_reward_account (pr_current_params row)) = account) pools))"

definition no_missed_retirement :: "epoch \<Rightarrow> pool_row \<Rightarrow> bool" where
  "no_missed_retirement epoch row =
    list_all (\<lambda>c. case c of Registration _ \<Rightarrow> True | Retirement t \<Rightarrow> epoch \<le> t)
      (pr_pending_certificates row)"

lemma tick_pool_spec:
  assumes "no_missed_retirement e row"
  shows "\<exists>pu'. tick_pool pu e row = Some pu' \<and>
    os_set (pu_retired pu') = os_set (pu_retired pu) \<union> (if is_retiring e row then {pool_row_id row} else {}) \<and>
    refund pu' account = refund pu account +
      (if is_retiring e row \<and> snd (pool_reward_account (pr_current_params row)) = account
       then pr_deposit row else 0)"
proof (cases "is_retiring e row")
  case True
  obtain k n where kn: "foldl (pending_step e) (None, []) (pr_pending_certificates row) = (k, n)" by fastforce
  obtain t where k: "k = Some (Retirement t)"
    using True kn by (auto simp: is_retiring_def pending_after_def pc_is_retiring_def
        split: option.splits pool_certificate.splits)
  have "t = e" using retiring_exactly [of e "pr_pending_certificates row" t n] kn k assms
    by (simp add: no_missed_retirement_def)
  then show ?thesis using True kn k
    by (auto simp: tick_pool_def retire_pool_def Let_def pending_after_def pc_is_retiring_def
        pc_is_retiring_at_def refund_def)
next
  case False
  then show ?thesis by (auto simp: tick_pool_def Let_def is_retiring_def refund_def)
qed

lemma tick_pools_spec:
  assumes "list_all (\<lambda>(_, row). no_missed_retirement e row) pools"
  shows "\<exists>pu'. tick_pools pu e pools = Some pu' \<and>
    os_set (pu_retired pu') =
      os_set (pu_retired pu) \<union> {pool_row_id row |id row. (id, row) \<in> set pools \<and> is_retiring e row} \<and>
    refund pu' account = refund pu account + refunded_to e account pools"
  using assms
proof (induction pools arbitrary: pu)
  case Nil
  then show ?case by (simp add: refunded_to_def)
next
  case (Cons p pools)
  obtain id row where p: "p = (id, row)" by fastforce
  obtain pu1 where pu1: "tick_pool pu e row = Some pu1"
    "os_set (pu_retired pu1) = os_set (pu_retired pu) \<union> (if is_retiring e row then {pool_row_id row} else {})"
    "refund pu1 account = refund pu account +
      (if is_retiring e row \<and> snd (pool_reward_account (pr_current_params row)) = account
       then pr_deposit row else 0)"
    using tick_pool_spec [of e row pu account] Cons.prems p by auto
  obtain pu2 where "tick_pools pu1 e pools = Some pu2"
    "os_set (pu_retired pu2) =
      os_set (pu_retired pu1) \<union> {pool_row_id row |id row. (id, row) \<in> set pools \<and> is_retiring e row}"
    "refund pu2 account = refund pu1 account + refunded_to e account pools"
    using Cons.IH [of pu1] Cons.prems by auto
  then show ?case using pu1 p by (auto simp: refunded_to_def)
qed

section \<open>Properties\<close>

text \<open>
  C22: ticking a pool at every boundary is the same as replaying all its
  certificates: through any number of epochs, the pool is retired or has the
  parameters that replaying the full history gives, and the assertion on
  retirements never fails.  Every retirement names a later epoch, and no epoch
  contains the sequence of the next property.
\<close>

theorem tick_pool_is_replay:
  assumes "valid_epochs e css"
  shows "(case run_epochs e (pool_row_new registered_at deposit params) css of
      Alive row \<Rightarrow> replay_epochs e params [] css = Some (pr_current_params row)
    | Retired \<Rightarrow> replay_epochs e params [] css = None
    | Panicked \<Rightarrow> False)"
  using run_follows [OF row_follows_new assms] .

definition example_params :: "lovelace \<Rightarrow> pool_params" where
  "example_params pledge =
    \<lparr>pool_id = 7, pool_vrf = 1, pool_pledge = pledge, pool_cost = 340, pool_margin = 0,
     pool_reward_account = (True, KeyHash 5), pool_owners = [5]\<rparr>"

theorem tick_pool_is_replay_witness:
  "run_epochs 0 (pool_row_new ((0, 0), 0) 500 (example_params 10))
      [[Retirement 3], [Registration (example_params 20), Retirement 4], [], [Retirement 9]] =
    Alive (pool_row_new ((0, 0), 0) 500 (example_params 20)\<lparr>pr_pending_certificates := [Retirement 9]\<rparr>) \<and>
   replay_epochs 0 (example_params 10) []
      [[Retirement 3], [Registration (example_params 20), Retirement 4], [], [Retirement 9]] = Some (example_params 20)"
proof -
  let ?css = "[[Retirement 3], [Registration (example_params 20), Retirement 4], [], [Retirement 9]]"
  have run: "run_epochs 0 (pool_row_new ((0, 0), 0) 500 (example_params 10)) ?css =
    Alive (pool_row_new ((0, 0), 0) 500 (example_params 20)\<lparr>pr_pending_certificates := [Retirement 9]\<rparr>)"
    by code_simp
  have "valid_epochs 0 ?css" by code_simp
  then show ?thesis
    using tick_pool_is_replay [of 0 ?css, where registered_at = "((0, 0), 0)" and deposit = 500 and
        params = "example_params 10"] run
    by (simp add: pool_row_new_def)
qed

text \<open>
  C23: a re-registration is lost when a retirement at the next boundary follows
  it and is itself postponed: the pool keeps its old parameters, although the
  last registration in its history carries the new ones.
\<close>

theorem postponed_retirement_loses_registration:
  "run_epochs e (pool_row_new registered_at deposit params)
      [[Registration new_params, Retirement (e + 1), Retirement (e + 2 + n)]] =
    Alive (pool_row_new registered_at deposit params\<lparr>pr_pending_certificates := [Retirement (e + 2 + n)]\<rparr>) \<and>
   replay_epochs e params [] [[Registration new_params, Retirement (e + 1), Retirement (e + 2 + n)]] =
    Some (apply_registration params new_params)"
  by (simp add: after_tick_spec pool_row_new_def replay_def)

text \<open>
  C24: when no retirement was missed, the updates of a boundary retire exactly
  the pools whose latest certificate is a retirement that has come, and refund
  to every account the deposits of the retired pools that pay into it.
\<close>

theorem pools_updates_refund_retired:
  assumes "list_all (\<lambda>(_, row). no_missed_retirement e row) pools"
  shows "\<exists>pu. pools_updates_new pools e = Some pu \<and>
    os_set (pu_retired pu) = {pool_row_id row |id row. (id, row) \<in> set pools \<and>
      pr_pending_certificates row \<noteq> [] \<and> is_effective e (last (pr_pending_certificates row))} \<and>
    refund pu account = refunded_to e account pools"
proof -
  have retiring: "is_retiring e row \<longleftrightarrow>
      pr_pending_certificates row \<noteq> [] \<and> is_effective e (last (pr_pending_certificates row))" for row
  proof -
    obtain k n where kn: "foldl (pending_step e) (None, []) (pr_pending_certificates row) = (k, n)" by fastforce
    then have "retires k = is_retiring e row"
      by (simp add: is_retiring_def pending_after_def pc_is_retiring_def retires_def)
    then show ?thesis using pending_fold_spec [OF kn, of "pr_current_params row"] by (simp add: replay_retiring)
  qed
  show ?thesis
    using tick_pools_spec [OF assms, of pools_updates_default account]
    by (auto simp: pools_updates_new_def pools_updates_default_def refund_def retiring)
qed

theorem pools_updates_refund_retired_witness:
  "\<exists>pu. pools_updates_new
      [(7, pool_row_new ((0, 0), 0) 500 (example_params 10)\<lparr>pr_pending_certificates := [Retirement 4]\<rparr>)] 4 = Some pu \<and>
    os_set (pu_retired pu) = {7} \<and> refund pu (KeyHash 5) = 500"
proof -
  let ?pools = "[(7, pool_row_new ((0, 0), 0) 500 (example_params 10)\<lparr>pr_pending_certificates := [Retirement 4]\<rparr>)]"
  have "list_all (\<lambda>(_, row). no_missed_retirement 4 row) ?pools"
    by (simp add: no_missed_retirement_def)
  moreover have "refunded_to 4 (KeyHash 5) ?pools = 500" by code_simp
  ultimately show ?thesis
    using pools_updates_refund_retired [of 4 ?pools "KeyHash 5"]
    by (simp add: pool_row_id_def pool_row_new_def example_params_def)
qed

end
