(* ===== verification/Stake_Summary.thy ===== *)
theory Stake_Summary
  imports Compact_Collections Protocol_Parameters Era_History Pool_Updates
begin

text \<open>
  The stake distribution of an epoch (\<open>amaru-ledger/src/summary/{governance,
  stake_distribution,mod}.rs\<close>): the governance summary collected from proposals
  and delegate representatives, and the stake of accounts, pools and
  representatives.  A snapshot is the data the read-only store hands out; the
  errors of reading it, progress notifications and the capacity hint are left
  out.  Amounts are natural numbers: all of them are bounded by the supply of
  \<open>45 * 10^15\<close> lovelace and their sums stay below \<open>2^64\<close>.
\<close>

section \<open>Rows of the store\<close>

record proposal_row =
  prow_proposed_in :: proposal_pointer
  prow_valid_until :: epoch
  prow_proposal :: proposal

record drep_row =
  drow_deposit :: lovelace
  drow_anchor :: "anchor option"
  drow_registered_at :: cert_pointer
  drow_valid_until :: epoch

record account_row =
  arow_pool :: "(pool_id \<times> cert_pointer) option"
  arow_deposit :: lovelace
  arow_drep :: "(drep \<times> cert_pointer) option"
  arow_rewards :: lovelace

record cc_member_row =
  ccrow_status :: "cc_member_status option"
  ccrow_valid_until :: "epoch option"

record pots =
  pot_treasury :: lovelace
  pot_reserves :: lovelace
  pot_fees :: lovelace
  pot_donations :: lovelace

record ledger_snapshot =
  sn_epoch :: epoch
  sn_consecutive_dormant_epochs :: nat
  sn_protocol_parameters :: protocol_parameters
  sn_pots :: pots
  sn_proposals :: "(proposal_id \<times> proposal_row) list"
  sn_recently_pruned :: "(proposal_id \<times> ratification_status) list"
  sn_dreps :: "(credential \<times> drep_row) list"
  sn_pools :: "(pool_id \<times> pool_row) list"
  sn_accounts :: "(credential \<times> account_row) list"
  sn_stake_distribution :: "(credential option \<times> lovelace) list"
  sn_block_issuers :: "(slot \<times> pool_id) list"
  sn_constitutional_committee :: cc_status
  sn_cc_members :: "(credential \<times> cc_member_row) list"
  sn_votes :: "(ballot_id \<times> ballot) list"

section \<open>Governance summary\<close>

record drep_state =
  dst_metadata :: "anchor option"
  dst_valid_until :: "epoch option"
  dst_voting_stake :: lovelace
  dst_registered_at :: cert_pointer

definition is_active :: "drep_state \<Rightarrow> epoch \<Rightarrow> bool" where
  "is_active st epoch =
    (case dst_valid_until st of None \<Rightarrow> True | Some valid_until \<Rightarrow> epoch < valid_until)"

record governance_summary =
  gs_dreps :: "(drep, drep_state) omap"
  gs_dreps_deposits :: "(credential, lovelace) omap"
  gs_pools_deposits :: "(credential, lovelace) omap"
  gs_cc_update :: "cc_update option"

text \<open>What a proposal that was just ratified adds.\<close>

fun ratified_effects :: "governance_action \<Rightarrow> governance_summary \<Rightarrow> governance_summary" where
  "ratified_effects (TreasuryWithdrawals withdrawals _) gs =
    gs\<lparr>gs_dreps_deposits :=
      foldl (\<lambda>m (account, withdrawal). add_amount (snd account) withdrawal m)
        (gs_dreps_deposits gs) (om_entries withdrawals)\<rparr>" |
  "ratified_effects (NoConfidence _) gs = gs\<lparr>gs_cc_update := Some CCNoConfidence\<rparr>" |
  "ratified_effects (UpdateCommittee _ removed added threshold) gs =
    gs\<lparr>gs_cc_update :=
      Some (ChangeMembers (os_extend om_empty removed) (om_of_list added) threshold)\<rparr>" |
  "ratified_effects (ParameterChange _ _ _) gs = gs" |
  "ratified_effects (HardForkInitiation _ _) gs = gs" |
  "ratified_effects (NewConstitution _ _) gs = gs" |
  "ratified_effects Information gs = gs"

definition summarize_proposal ::
  "era_history \<Rightarrow> epoch \<Rightarrow> (proposal_id, ratification_status) omap \<Rightarrow> proposal_id \<times> proposal_row \<Rightarrow>
    governance_summary \<Rightarrow> (slot \<times> era_history_error, governance_summary) result" where
  "summarize_proposal era_history current_epoch recently_pruned_proposals = (\<lambda>(id, row) gs.
    (case slot_to_epoch_unchecked_horizon era_history (fst (fst (prow_proposed_in row))) of
       Inl e \<Rightarrow> Err (fst (fst (prow_proposed_in row)), e)
     | Inr _ \<Rightarrow>
         if current_epoch \<le> prow_valid_until row + 1 then
           let stake_credential = snd (prop_reward_account (prow_proposal row));
               deposit = prop_deposit (prow_proposal row);
               recently_pruned = om_lookup recently_pruned_proposals id;
               gs1 = (if current_epoch \<le> prow_valid_until row \<and> recently_pruned = None
                 then gs\<lparr>gs_pools_deposits := add_amount stake_credential deposit (gs_pools_deposits gs)\<rparr>
                 else gs);
               gs2 = gs1\<lparr>gs_dreps_deposits := add_amount stake_credential deposit (gs_dreps_deposits gs1)\<rparr>
           in Ok (if recently_pruned = Some Ratified
                  then ratified_effects (prop_gov_action (prow_proposal row)) gs2 else gs2)
         else Ok gs))"

fun summarize_proposals ::
  "era_history \<Rightarrow> epoch \<Rightarrow> (proposal_id, ratification_status) omap \<Rightarrow> (proposal_id \<times> proposal_row) list \<Rightarrow>
    governance_summary \<Rightarrow> (slot \<times> era_history_error, governance_summary) result" where
  "summarize_proposals h e pruned [] gs = Ok gs" |
  "summarize_proposals h e pruned (p # ps) gs =
    (case summarize_proposal h e pruned p gs of
       Inl err \<Rightarrow> Inl err
     | Inr gs' \<Rightarrow> summarize_proposals h e pruned ps gs')"

definition drep_of_credential :: "credential \<Rightarrow> drep" where
  "drep_of_credential k = (case k of KeyHash h \<Rightarrow> DRepKey h | ScriptHash h \<Rightarrow> DRepScript h)"

definition drep_state_of_row :: "epoch \<Rightarrow> nat \<Rightarrow> drep_row \<Rightarrow> drep_state" where
  "drep_state_of_row current_epoch dormant row =
    (let extended = drow_valid_until row + dormant;
         valid_until = (if current_epoch \<le> extended then extended else drow_valid_until row)
     in \<lparr>dst_metadata = drow_anchor row, dst_valid_until = Some valid_until,
         dst_voting_stake = 0, dst_registered_at = drow_registered_at row\<rparr>)"

definition default_protocol_drep :: drep_state where
  "default_protocol_drep =
    \<lparr>dst_metadata = None, dst_valid_until = None, dst_voting_stake = 0, dst_registered_at = ((0, 0), 0)\<rparr>"

definition initial_dreps :: "ledger_snapshot \<Rightarrow> (drep, drep_state) omap" where
  "initial_dreps db =
    om_insert DRepNoConfidence default_protocol_drep
      (om_insert DRepAbstain default_protocol_drep
        (om_of_list (map (\<lambda>(k, row). (drep_of_credential k,
          drep_state_of_row (sn_epoch db) (sn_consecutive_dormant_epochs db) row)) (sn_dreps db))))"

definition governance_summary_new ::
  "ledger_snapshot \<Rightarrow> era_history \<Rightarrow> (slot \<times> era_history_error, governance_summary) result" where
  "governance_summary_new db era_history =
    (case summarize_proposals era_history (sn_epoch db) (om_of_list (sn_recently_pruned db)) (sn_proposals db)
        \<lparr>gs_dreps = om_empty, gs_dreps_deposits = om_empty, gs_pools_deposits = om_empty, gs_cc_update = None\<rparr> of
       Inl e \<Rightarrow> Inl e
     | Inr gs \<Rightarrow> Ok (gs\<lparr>gs_dreps := initial_dreps db\<rparr>))"

section \<open>Stake summary\<close>

record account_state =
  as_balance :: lovelace
  as_rewards :: lovelace
  as_pool :: "pool_id option"
  as_drep :: "drep option"

definition account_state_default :: account_state where
  "account_state_default = \<lparr>as_balance = 0, as_rewards = 0, as_pool = None, as_drep = None\<rparr>"

definition with_rewards :: "account_state \<Rightarrow> lovelace \<Rightarrow> account_state" where
  "with_rewards st rewards = st\<lparr>as_rewards := rewards\<rparr>"

record pool_state =
  pst_registered_at :: cert_pointer
  pst_blocks_count :: nat
  pst_stake :: lovelace
  pst_voting_stake :: lovelace
  pst_margin :: rat
  pst_parameters :: pool_params
  pst_fallback_drep :: "drep option"

record stake_distribution =
  sd_epoch :: epoch
  sd_treasury :: lovelace
  sd_reserves :: lovelace
  sd_active_stake :: lovelace
  sd_pools_voting_stake :: lovelace
  sd_dreps_voting_stake :: lovelace
  sd_pools :: "(pool_id, pool_state) omap"
  sd_dreps :: "(drep, drep_state) omap"
  sd_cc_update :: "cc_update option"

record stake_summary =
  ss_stake_distribution :: stake_distribution
  ss_accounts :: "(credential, account_state) sorted_pairs"

definition pool_state_of_row :: "pool_row \<Rightarrow> pool_state" where
  "pool_state_of_row row =
    \<lparr>pst_registered_at = pr_registered_at row, pst_blocks_count = 0, pst_stake = 0,
     pst_voting_stake = 0, pst_margin = pool_margin (pr_current_params row),
     pst_parameters = pr_current_params row, pst_fallback_drep = None\<rparr>"

definition initial_pools :: "ledger_snapshot \<Rightarrow> (pool_id, pool_state) omap" where
  "initial_pools db = om_of_list (map (\<lambda>(id, row). (id, pool_state_of_row row)) (sn_pools db))"

definition pools_deregistration_refunds :: "ledger_snapshot \<Rightarrow> (credential, lovelace) omap" where
  "pools_deregistration_refunds db =
    foldl (\<lambda>m (_, row). if is_retiring (sn_epoch db + 1) row
        then add_amount (snd (pool_reward_account (pr_current_params row)))
          (stake_pool_deposit (sn_protocol_parameters db)) m
        else m) om_empty (sn_pools db)"

text \<open>A delegation counts only when it is not older than the registration it points to.\<close>

definition account_state_of_row ::
  "(pool_id, pool_state) omap \<Rightarrow> (drep, drep_state) omap \<Rightarrow> account_row \<Rightarrow> account_state" where
  "account_state_of_row pools dreps row =
    \<lparr>as_balance = arow_rewards row, as_rewards = 0,
     as_pool = (case arow_pool row of
         None \<Rightarrow> None
       | Some (pool, since) \<Rightarrow>
           (case om_lookup pools pool of
              None \<Rightarrow> None
            | Some st \<Rightarrow> if pst_registered_at st \<le> since then Some pool else None)),
     as_drep = (case arow_drep row of
         None \<Rightarrow> None
       | Some (drep, since) \<Rightarrow>
           (case drep of
              DRepAbstain \<Rightarrow> Some drep
            | DRepNoConfidence \<Rightarrow> Some drep
            | _ \<Rightarrow>
                (case om_lookup dreps drep of
                   None \<Rightarrow> None
                 | Some st \<Rightarrow> if dst_registered_at st \<le> since then Some drep else None)))\<rparr>"

definition add_utxo ::
  "(credential, account_state) sorted_pairs \<Rightarrow> credential option \<times> lovelace \<Rightarrow>
    (credential, account_state) sorted_pairs" where
  "add_utxo accounts = (\<lambda>(credential, amount).
    (case credential of
       None \<Rightarrow> accounts
     | Some k \<Rightarrow> sp_modify k (\<lambda>st. st\<lparr>as_balance := as_balance st + amount\<rparr>) accounts))"

text \<open>The running totals of the pass over accounts.\<close>

record stake_totals =
  st_active_stake :: lovelace
  st_pools_voting_stake :: lovelace
  st_dreps_voting_stake :: lovelace
  st_pools :: "(pool_id, pool_state) omap"
  st_dreps :: "(drep, drep_state) omap"

definition count_drep ::
  "(credential, lovelace) omap \<Rightarrow> (credential, lovelace) omap \<Rightarrow> credential \<Rightarrow> account_state \<Rightarrow>
    stake_totals \<Rightarrow> stake_totals" where
  "count_drep refunds dreps_deposits credential account t =
    (case as_drep account of
       None \<Rightarrow> t
     | Some drep \<Rightarrow>
         (case om_lookup (st_dreps t) drep of
            None \<Rightarrow> t
          | Some st \<Rightarrow>
              let voting_stake = as_balance account + amount_of dreps_deposits credential +
                    amount_of refunds credential
              in t\<lparr>st_dreps_voting_stake := st_dreps_voting_stake t + voting_stake,
                   st_dreps := om_insert drep
                     (st\<lparr>dst_voting_stake := dst_voting_stake st + voting_stake\<rparr>) (st_dreps t)\<rparr>))"

definition count_pool ::
  "(credential, lovelace) omap \<Rightarrow> credential \<Rightarrow> account_state \<Rightarrow> stake_totals \<Rightarrow> stake_totals" where
  "count_pool pools_deposits credential account t =
    (case as_pool account of
       None \<Rightarrow> t
     | Some pid \<Rightarrow>
         (case om_lookup (st_pools t) pid of
            None \<Rightarrow> t
          | Some pool \<Rightarrow>
              let stake = as_balance account;
                  voting_stake = stake + amount_of pools_deposits credential
              in t\<lparr>st_active_stake := st_active_stake t + stake,
                   st_pools_voting_stake := st_pools_voting_stake t + voting_stake,
                   st_pools := om_insert pid
                     (pool\<lparr>pst_stake := pst_stake pool + stake,
                           pst_voting_stake := pst_voting_stake pool + voting_stake\<rparr>) (st_pools t)\<rparr>))"

definition count_account ::
  "(credential, lovelace) omap \<Rightarrow> (credential, lovelace) omap \<Rightarrow> (credential, lovelace) omap \<Rightarrow>
    stake_totals \<Rightarrow> credential \<times> account_state \<Rightarrow> stake_totals" where
  "count_account refunds dreps_deposits pools_deposits t = (\<lambda>(credential, account).
    count_pool pools_deposits credential account (count_drep refunds dreps_deposits credential account t))"

definition count_block :: "(pool_id, pool_state) omap \<Rightarrow> slot \<times> pool_id \<Rightarrow> (pool_id, pool_state) omap" where
  "count_block pools = (\<lambda>(_, issuer).
    (case om_lookup pools issuer of
       None \<Rightarrow> pools
     | Some pool \<Rightarrow> om_insert issuer (pool\<lparr>pst_blocks_count := pst_blocks_count pool + 1\<rparr>) pools))"

definition initial_accounts ::
  "ledger_snapshot \<Rightarrow> governance_summary \<Rightarrow> (credential, account_state) sorted_pairs" where
  "initial_accounts db gs =
    sp_from (map (\<lambda>(k, row). (k, account_state_of_row (initial_pools db) (gs_dreps gs) row)) (sn_accounts db))"

definition final_accounts ::
  "ledger_snapshot \<Rightarrow> governance_summary \<Rightarrow> (credential, account_state) sorted_pairs" where
  "final_accounts db gs = foldl add_utxo (initial_accounts db gs) (sn_stake_distribution db)"

definition final_totals :: "ledger_snapshot \<Rightarrow> governance_summary \<Rightarrow> stake_totals" where
  "final_totals db gs =
    foldl (count_account (pools_deregistration_refunds db) (gs_dreps_deposits gs) (gs_pools_deposits gs))
      \<lparr>st_active_stake = 0, st_pools_voting_stake = 0, st_dreps_voting_stake = 0,
       st_pools = initial_pools db, st_dreps = gs_dreps gs\<rparr>
      (final_accounts db gs)"

definition fallback_drep :: "(credential, account_state) sorted_pairs \<Rightarrow> pool_state \<Rightarrow> drep option" where
  "fallback_drep accounts pool =
    (case sp_get accounts (snd (pool_reward_account (pst_parameters pool))) of
       None \<Rightarrow> None
     | Some account \<Rightarrow> as_drep account)"

definition stake_summary_new :: "ledger_snapshot \<Rightarrow> governance_summary \<Rightarrow> stake_summary" where
  "stake_summary_new db gs =
    (let accounts = final_accounts db gs;
         t = final_totals db gs;
         pools = om_map (\<lambda>_ pool. pool\<lparr>pst_fallback_drep := fallback_drep accounts pool\<rparr>) (st_pools t);
         pools' = foldl count_block pools (sn_block_issuers db)
     in \<lparr>ss_stake_distribution =
           \<lparr>sd_epoch = sn_epoch db, sd_treasury = pot_treasury (sn_pots db),
            sd_reserves = pot_reserves (sn_pots db), sd_active_stake = st_active_stake t,
            sd_pools_voting_stake = st_pools_voting_stake t,
            sd_dreps_voting_stake = st_dreps_voting_stake t, sd_pools = pools', sd_dreps = st_dreps t,
            sd_cc_update = gs_cc_update gs\<rparr>,
         ss_accounts = accounts\<rparr>)"

section \<open>Accounting\<close>

text \<open>The stake of the accounts delegated to a pool.\<close>

definition delegated_stake :: "(credential \<times> account_state) list \<Rightarrow> pool_id \<Rightarrow> lovelace" where
  "delegated_stake accounts pid =
    sum_list (map (\<lambda>(_, a). if as_pool a = Some pid then as_balance a else 0) accounts)"

definition utxo_of :: "(credential option \<times> lovelace) list \<Rightarrow> credential \<Rightarrow> lovelace" where
  "utxo_of utxos k = sum_list (map (\<lambda>(c, amount). if c = Some k then amount else 0) utxos)"

definition totals_ok :: "stake_totals \<Rightarrow> bool" where
  "totals_ok t =
    (st_active_stake t = om_sum pst_stake (st_pools t) \<and>
     st_pools_voting_stake t = om_sum pst_voting_stake (st_pools t) \<and>
     st_dreps_voting_stake t = om_sum dst_voting_stake (st_dreps t))"

lemma om_sum_update:
  assumes "om_lookup m k = Some v" and "f v' = f v + n"
  shows "om_sum f (om_insert k v' m) = om_sum f m + n"
  using om_sum_insert [of f k v' m] assms by simp

lemma om_sum_update_same:
  assumes "om_lookup m k = Some v" and "f v' = f v"
  shows "om_sum f (om_insert k v' m) = om_sum f m"
  using om_sum_update [of m k v f v' 0] assms by simp

lemma totals_ok_count_account:
  assumes "totals_ok t"
  shows "totals_ok (count_account refunds dd pd t p)"
proof -
  obtain k a where p: "p = (k, a)" by fastforce
  have "totals_ok (count_drep refunds dd k a t)"
    using assms by (auto simp: totals_ok_def count_drep_def Let_def om_sum_update split: option.splits)
  then show ?thesis
    by (auto simp: p count_account_def totals_ok_def count_pool_def Let_def om_sum_update split: option.splits)
qed

lemma totals_ok_fold: "totals_ok t \<Longrightarrow> totals_ok (foldl (count_account refunds dd pd) t xs)"
  by (induction xs arbitrary: t) (auto intro: totals_ok_count_account)

lemma count_account_pool:
  assumes "om_lookup (st_pools t) pid = Some p"
  shows "\<exists>p'. om_lookup (st_pools (count_account refunds dd pd t (k, a))) pid = Some p' \<and>
    pst_stake p' = pst_stake p + (if as_pool a = Some pid then as_balance a else 0) \<and>
    pst_parameters p' = pst_parameters p \<and> pst_margin p' = pst_margin p"
  using assms
  by (auto simp: count_account_def count_drep_def count_pool_def Let_def split: option.splits)

lemma fold_pool:
  assumes "om_lookup (st_pools t) pid = Some p"
  shows "\<exists>p'. om_lookup (st_pools (foldl (count_account refunds dd pd) t xs)) pid = Some p' \<and>
    pst_stake p' = pst_stake p + delegated_stake xs pid \<and>
    pst_parameters p' = pst_parameters p \<and> pst_margin p' = pst_margin p"
  using assms
proof (induction xs arbitrary: t p)
  case Nil
  then show ?case by (simp add: delegated_stake_def)
next
  case (Cons x xs)
  obtain k a where x: "x = (k, a)" by fastforce
  obtain p1 where "om_lookup (st_pools (count_account refunds dd pd t x)) pid = Some p1"
    "pst_stake p1 = pst_stake p + (if as_pool a = Some pid then as_balance a else 0)"
    "pst_parameters p1 = pst_parameters p" "pst_margin p1 = pst_margin p"
    using count_account_pool [OF Cons.prems, of refunds dd pd k a] x by blast
  then show ?case using Cons.IH [of "count_account refunds dd pd t x" p1] x
    by (auto simp: delegated_stake_def)
qed

lemma count_account_domain:
  "om_lookup (st_pools (count_account refunds dd pd t x)) pid = None \<longleftrightarrow> om_lookup (st_pools t) pid = None"
  by (cases x) (auto simp: count_account_def count_drep_def count_pool_def Let_def split: option.splits)

lemma fold_domain:
  "om_lookup (st_pools (foldl (count_account refunds dd pd) t xs)) pid = None \<longleftrightarrow> om_lookup (st_pools t) pid = None"
  by (induction xs arbitrary: t) (simp_all add: count_account_domain)

lemma count_block_stake:
  "map_option (\<lambda>p. (pst_stake p, pst_voting_stake p, pst_parameters p, pst_margin p, pst_fallback_drep p))
      (om_lookup (count_block pools b) pid) =
    map_option (\<lambda>p. (pst_stake p, pst_voting_stake p, pst_parameters p, pst_margin p, pst_fallback_drep p))
      (om_lookup pools pid)"
  by (cases b) (auto simp: count_block_def split: option.splits)

lemma fold_count_block_stake:
  "map_option (\<lambda>p. (pst_stake p, pst_voting_stake p, pst_parameters p, pst_margin p, pst_fallback_drep p))
      (om_lookup (foldl count_block pools bs) pid) =
    map_option (\<lambda>p. (pst_stake p, pst_voting_stake p, pst_parameters p, pst_margin p, pst_fallback_drep p))
      (om_lookup pools pid)"
  by (induction bs arbitrary: pools) (simp_all add: count_block_stake)

lemma om_sum_count_block:
  "om_sum pst_stake (foldl count_block pools bs) = om_sum pst_stake pools"
  "om_sum pst_voting_stake (foldl count_block pools bs) = om_sum pst_voting_stake pools"
proof -
  have "om_sum f (count_block pools b) = om_sum f pools"
    if "\<And>p n. f (p\<lparr>pst_blocks_count := n\<rparr>) = f p" for f pools b
    using that by (cases b) (auto simp: count_block_def om_sum_update_same split: option.splits)
  then show "om_sum pst_stake (foldl count_block pools bs) = om_sum pst_stake pools"
    "om_sum pst_voting_stake (foldl count_block pools bs) = om_sum pst_voting_stake pools"
    by (induction bs arbitrary: pools) simp_all
qed

lemma initial_sums:
  "om_sum pst_stake (initial_pools db) = 0" "om_sum pst_voting_stake (initial_pools db) = 0"
  "om_sum dst_voting_stake (initial_dreps db) = 0"
proof -
  have zero: "om_sum f m = 0" if "\<And>k v. om_lookup m k = Some v \<Longrightarrow> f v = (0::nat)"
    for f :: "'b \<Rightarrow> nat" and m :: "('a::linorder, 'b) omap"
    using that by (auto simp: om_sum_def om_entries_iff [symmetric])
  have extend: "om_lookup (om_of_list xs) k = Some v \<Longrightarrow> v \<in> snd ` set xs"
    for xs :: "('a::linorder \<times> 'b) list" and k v
    by (auto simp: om_of_list_def om_lookup_extend map_add_Some_iff dest!: map_of_SomeD intro: rev_image_eqI)
  show "om_sum pst_stake (initial_pools db) = 0" "om_sum pst_voting_stake (initial_pools db) = 0"
    by (rule zero; force simp: initial_pools_def pool_state_of_row_def dest!: extend)+
  show "om_sum dst_voting_stake (initial_dreps db) = 0"
    by (rule zero) (force simp: initial_dreps_def default_protocol_drep_def drep_state_of_row_def Let_def
        dest!: extend split: if_splits)
qed

lemma governance_summary_dreps:
  "governance_summary_new db h = Ok gs \<Longrightarrow> gs_dreps gs = initial_dreps db"
  by (auto simp: governance_summary_new_def split: sum.splits)

lemma al_sorted_map_values: "al_sorted xs \<Longrightarrow> al_sorted (map (\<lambda>(k, v). (k, f k v)) xs)"
  by (simp add: comp_def case_prod_beta)

lemma fold_add_utxo:
  assumes "al_sorted xs"
  shows "foldl add_utxo xs us =
    map (\<lambda>(k, a). (k, a\<lparr>as_balance := as_balance a + utxo_of us k\<rparr>)) xs"
  using assms
proof (induction us arbitrary: xs)
  case Nil
  then show ?case by (simp add: utxo_of_def)
next
  case (Cons u us)
  obtain c n where u: "u = (c, n)" by fastforce
  have step: "add_utxo xs (c, n) =
      map (\<lambda>(k, a). (k, a\<lparr>as_balance := as_balance a + (if c = Some k then n else 0)\<rparr>)) xs"
    using Cons.prems by (cases c) (auto simp: add_utxo_def sp_modify_map)
  have "al_sorted (add_utxo xs (c, n))" unfolding step using Cons.prems by (rule al_sorted_map_values)
  then show ?case using Cons.IH [of "add_utxo xs (c, n)"]
    by (auto simp: step u utxo_of_def comp_def case_prod_beta)
qed

lemma al_sorted_initial_accounts:
  "distinct (map fst (sn_accounts db)) \<Longrightarrow> al_sorted (initial_accounts db gs)"
  unfolding initial_accounts_def by (rule al_sorted_sp_from) (simp add: comp_def case_prod_beta)

lemma al_sorted_final_accounts:
  assumes "distinct (map fst (sn_accounts db))"
  shows "al_sorted (final_accounts db gs)"
  unfolding final_accounts_def fold_add_utxo [OF al_sorted_initial_accounts [OF assms]]
  by (rule al_sorted_map_values) (rule al_sorted_initial_accounts [OF assms])

lemma final_accounts_iff:
  assumes "distinct (map fst (sn_accounts db))"
  shows "(k, a) \<in> set (final_accounts db gs) \<longleftrightarrow>
    (\<exists>row. (k, row) \<in> set (sn_accounts db) \<and>
      a = (account_state_of_row (initial_pools db) (gs_dreps gs) row)
        \<lparr>as_balance := arow_rewards row + utxo_of (sn_stake_distribution db) k\<rparr>)"
  unfolding final_accounts_def fold_add_utxo [OF al_sorted_initial_accounts [OF assms]]
  by (force simp: initial_accounts_def account_state_of_row_def)

lemma final_totals_ok:
  "governance_summary_new db h = Ok gs \<Longrightarrow> totals_ok (final_totals db gs)"
  unfolding final_totals_def
  by (rule totals_ok_fold) (simp add: totals_ok_def initial_sums governance_summary_dreps)

lemma initial_pool_stake: "om_lookup (initial_pools db) pid = Some p \<Longrightarrow> pst_stake p = 0"
  using om_sum_member [of "initial_pools db" pid p pst_stake] by (simp add: initial_sums)

lemma final_totals_domain:
  "om_lookup (st_pools (final_totals db gs)) pid = None \<longleftrightarrow> om_lookup (initial_pools db) pid = None"
  by (simp add: final_totals_def fold_domain)

text \<open>The pools of the summary: their stake and their parameters.\<close>

lemma summary_pool:
  assumes "om_lookup (sd_pools (ss_stake_distribution (stake_summary_new db gs))) pid = Some p"
  shows "pst_stake p = delegated_stake (ss_accounts (stake_summary_new db gs)) pid"
    and "\<exists>q. om_lookup (initial_pools db) pid = Some q \<and> pst_parameters p = pst_parameters q \<and>
      pst_margin p = pst_margin q"
proof -
  let ?t = "final_totals db gs"
  obtain p1 where p1: "om_lookup (st_pools ?t) pid = Some p1"
    "pst_stake p1 = pst_stake p" "pst_parameters p1 = pst_parameters p" "pst_margin p1 = pst_margin p"
    using assms fold_count_block_stake [of "om_map (\<lambda>_ pool. pool\<lparr>pst_fallback_drep :=
        fallback_drep (final_accounts db gs) pool\<rparr>) (st_pools ?t)" "sn_block_issuers db" pid]
    by (cases "om_lookup (st_pools ?t) pid") (auto simp: stake_summary_new_def Let_def)
  then obtain q where q: "om_lookup (initial_pools db) pid = Some q"
    using final_totals_domain [of db gs pid] by auto
  obtain p2 where "om_lookup (st_pools ?t) pid = Some p2"
    "pst_stake p2 = pst_stake q + delegated_stake (final_accounts db gs) pid"
    "pst_parameters p2 = pst_parameters q" "pst_margin p2 = pst_margin q"
    using fold_pool [of "\<lparr>st_active_stake = 0, st_pools_voting_stake = 0, st_dreps_voting_stake = 0,
       st_pools = initial_pools db, st_dreps = gs_dreps gs\<rparr>" pid q] q
    unfolding final_totals_def by fastforce
  then show "pst_stake p = delegated_stake (ss_accounts (stake_summary_new db gs)) pid"
    "\<exists>q. om_lookup (initial_pools db) pid = Some q \<and> pst_parameters p = pst_parameters q \<and>
      pst_margin p = pst_margin q"
    using p1 q initial_pool_stake [OF q] by (auto simp: stake_summary_new_def Let_def)
qed

lemma pools_stake_sums:
  "om_sum pst_stake (sd_pools (ss_stake_distribution (stake_summary_new db gs))) = om_sum pst_stake (st_pools (final_totals db gs))"
  "om_sum pst_voting_stake (sd_pools (ss_stake_distribution (stake_summary_new db gs))) =
    om_sum pst_voting_stake (st_pools (final_totals db gs))"
  by (simp_all add: stake_summary_new_def Let_def om_sum_count_block om_sum_map_same)

lemma voting_stake_adds_up:
  assumes "governance_summary_new db h = Ok gs"
  shows "sd_pools_voting_stake (ss_stake_distribution (stake_summary_new db gs)) =
    om_sum pst_voting_stake (sd_pools (ss_stake_distribution (stake_summary_new db gs)))"
  using final_totals_ok [OF assms] unfolding pools_stake_sums totals_ok_def
  by (simp add: stake_summary_new_def Let_def)

section \<open>Properties\<close>

text \<open>
  C14: the stake distribution accounts for every lovelace.  The totals are the
  sums over pools and over delegate representatives, the stake of a pool is the
  stake of the accounts delegated to it, and the balance of an account is its
  rewards together with its unspent outputs.
\<close>

theorem stake_distribution_adds_up:
  assumes "governance_summary_new db h = Ok gs"
    and "distinct (map fst (sn_accounts db))"
  shows "sd_active_stake (ss_stake_distribution (stake_summary_new db gs)) =
      om_sum pst_stake (sd_pools (ss_stake_distribution (stake_summary_new db gs))) \<and>
    sd_pools_voting_stake (ss_stake_distribution (stake_summary_new db gs)) =
      om_sum pst_voting_stake (sd_pools (ss_stake_distribution (stake_summary_new db gs))) \<and>
    sd_dreps_voting_stake (ss_stake_distribution (stake_summary_new db gs)) =
      om_sum dst_voting_stake (sd_dreps (ss_stake_distribution (stake_summary_new db gs))) \<and>
    (om_lookup (sd_pools (ss_stake_distribution (stake_summary_new db gs))) pid = Some p \<longrightarrow>
      pst_stake p = delegated_stake (ss_accounts (stake_summary_new db gs)) pid) \<and>
    (sp_get (ss_accounts (stake_summary_new db gs)) k = Some a \<longrightarrow>
      (\<exists>row. (k, row) \<in> set (sn_accounts db) \<and>
        as_balance a = arow_rewards row + utxo_of (sn_stake_distribution db) k))"
proof -
  have acc: "\<exists>row. (k, row) \<in> set (sn_accounts db) \<and>
      as_balance a = arow_rewards row + utxo_of (sn_stake_distribution db) k"
    if "sp_get (ss_accounts (stake_summary_new db gs)) k = Some a"
  proof -
    have "(k, a) \<in> set (final_accounts db gs)"
      using that al_sorted_final_accounts [OF assms(2), of gs]
      by (auto simp: stake_summary_new_def Let_def sp_get_map_of dest: map_of_SomeD)
    then show ?thesis using final_accounts_iff [OF assms(2)] by force
  qed
  show ?thesis
    using final_totals_ok [OF assms(1)] summary_pool(1) [of db gs pid p] acc
    by (auto simp: totals_ok_def pools_stake_sums) (simp_all add: stake_summary_new_def Let_def)
qed

definition example_snapshot :: ledger_snapshot where
  "example_snapshot =
    \<lparr>sn_epoch = 3, sn_consecutive_dormant_epochs = 0, sn_protocol_parameters = example_parameters,
     sn_pots = \<lparr>pot_treasury = 50, pot_reserves = 100, pot_fees = 10, pot_donations = 0\<rparr>,
     sn_proposals = [], sn_recently_pruned = [],
     sn_dreps = [(KeyHash 9, \<lparr>drow_deposit = 5, drow_anchor = None, drow_registered_at = ((1, 0), 0),
       drow_valid_until = 8\<rparr>)],
     sn_pools = [(7, pool_row_new ((1, 0), 0) 5 (example_params 10))],
     sn_accounts =
       [(KeyHash 5, \<lparr>arow_pool = Some (7, ((2, 0), 0)), arow_deposit = 2,
          arow_drep = Some (DRepKey 9, ((2, 0), 0)), arow_rewards = 1\<rparr>),
        (KeyHash 4, \<lparr>arow_pool = Some (7, ((2, 0), 1)), arow_deposit = 2, arow_drep = None,
          arow_rewards = 0\<rparr>)],
     sn_stake_distribution = [(Some (KeyHash 5), 20), (None, 3), (Some (KeyHash 4), 30)],
     sn_block_issuers = [(11, 7), (12, 7)], sn_constitutional_committee = CCStatusNoConfidence,
     sn_cc_members = [], sn_votes = []\<rparr>"

definition example_governance :: governance_summary where
  "example_governance =
    \<lparr>gs_dreps = initial_dreps example_snapshot, gs_dreps_deposits = om_empty,
     gs_pools_deposits = om_empty, gs_cc_update = None\<rparr>"

lemma example_governance_ok: "governance_summary_new example_snapshot h = Ok example_governance"
  by (simp add: governance_summary_new_def example_snapshot_def example_governance_def)

lemma example_accounts_distinct: "distinct (map fst (sn_accounts example_snapshot))"
  by (simp add: example_snapshot_def)

lemma example_active_stake:
  "sd_active_stake (ss_stake_distribution (stake_summary_new example_snapshot example_governance)) = 51"
  by code_simp

theorem stake_distribution_adds_up_witness:
  "om_sum pst_stake (sd_pools (ss_stake_distribution (stake_summary_new example_snapshot example_governance))) = 51"
  using stake_distribution_adds_up [OF example_governance_ok [of mainnet_era_history] example_accounts_distinct]
    example_active_stake by simp

end
