(* ===== verification/Rewards.thy ===== *)
theory Rewards
  imports Stake_Summary "HOL-Library.Monad_Syntax"
begin

text \<open>
  The calculation of rewards (\<open>amaru-ledger/src/summary/rewards.rs\<close>) and their
  life at the epoch boundary (\<open>epoch_transition/rewards_state.rs\<close>).
  \<open>SafeRatio\<close> is a quotient of unbounded naturals: its values are the
  non-negative rationals, a subtraction below zero, a zero denominator and an
  amount beyond 64 bits panic.  A panic is \<^term>\<open>None\<close>, and the theory shows that
  no calculation on a well-formed stake summary reaches one, whatever updates of
  the parameters have been enacted.
\<close>

section \<open>SafeRatio\<close>

definition safe_ratio :: "nat \<Rightarrow> nat \<Rightarrow> rat option" where
  "safe_ratio numerator denominator =
    (if denominator = 0 then None else Some (of_nat numerator / of_nat denominator))"

definition ratio_sub :: "rat \<Rightarrow> rat \<Rightarrow> rat option" where
  "ratio_sub a b = (if b \<le> a then Some (a - b) else None)"

definition ratio_div :: "rat \<Rightarrow> rat \<Rightarrow> rat option" where
  "ratio_div a b = (if b = 0 then None else Some (a / b))"

definition floor_to_lovelace :: "rat \<Rightarrow> lovelace option" where
  "floor_to_lovelace n = (if nat \<lfloor>n\<rfloor> \<le> u64_max then Some (nat \<lfloor>n\<rfloor>) else None)"

section \<open>Rewards of a pool\<close>

record global_parameters =
  consensus_security_param :: nat
  epoch_length_scale_factor :: nat
  active_slot_coeff_inverse :: nat
  max_lovelace_supply :: lovelace

definition epoch_length :: "global_parameters \<Rightarrow> nat" where
  "epoch_length g = active_slot_coeff_inverse g * epoch_length_scale_factor g * consensus_security_param g"

definition relative_stake :: "pool_state \<Rightarrow> lovelace \<Rightarrow> rat option" where
  "relative_stake pool total_stake = safe_ratio (pst_stake pool) total_stake"

definition owner_stake :: "pool_state \<Rightarrow> (credential, account_state) sorted_pairs \<Rightarrow> lovelace" where
  "owner_stake pool accounts =
    foldl (\<lambda>total owner. case sp_get accounts (KeyHash owner) of
        Some account \<Rightarrow>
          if as_pool account = Some (pool_id (pst_parameters pool)) then total + as_balance account else total
      | None \<Rightarrow> total) 0 (pool_owners (pst_parameters pool))"

definition apparent_performances :: "pool_state \<Rightarrow> rat \<Rightarrow> lovelace \<Rightarrow> rat" where
  "apparent_performances pool blocks_ratio active_stake =
    (if pst_stake pool = 0 then 0
     else blocks_ratio * of_nat active_stake / of_nat (pst_stake pool))"

definition optimal_rewards ::
  "pool_state \<Rightarrow> lovelace \<Rightarrow> lovelace \<Rightarrow> protocol_parameters \<Rightarrow> lovelace option" where
  "optimal_rewards pool available_rewards total_stake pp = do {
    let a0 = pledge_influence pp;
    z0 \<leftarrow> safe_ratio 1 (optimal_stake_pools_count pp);
    relative_pledge \<leftarrow> safe_ratio (pool_pledge (pst_parameters pool)) total_stake;
    rel_stake \<leftarrow> relative_stake pool total_stake;
    let r = of_nat available_rewards;
    let p = min z0 relative_pledge;
    let s = min z0 rel_stake;
    left \<leftarrow> ratio_div r (1 + a0);
    unsaturated \<leftarrow> ratio_sub z0 s;
    pledge_term \<leftarrow> ratio_div (p * unsaturated) z0;
    factor \<leftarrow> ratio_sub s pledge_term;
    z0_factor \<leftarrow> ratio_div factor z0;
    floor_to_lovelace (left * (s + p * a0 * z0_factor))
  }"

definition pool_rewards ::
  "pool_state \<Rightarrow> rat \<Rightarrow> lovelace \<Rightarrow> lovelace \<Rightarrow> lovelace \<Rightarrow> lovelace \<Rightarrow> protocol_parameters \<Rightarrow>
    lovelace option" where
  "pool_rewards pool blocks_ratio available_rewards active_stake total_stake owned pp =
    (if pool_pledge (pst_parameters pool) \<le> owned then do {
       optimal \<leftarrow> optimal_rewards pool available_rewards total_stake pp;
       floor_to_lovelace (apparent_performances pool blocks_ratio active_stake * of_nat optimal)
     } else Some 0)"

definition leader_rewards :: "pool_state \<Rightarrow> lovelace \<Rightarrow> lovelace \<Rightarrow> lovelace \<Rightarrow> lovelace option" where
  "leader_rewards pool pot owned total_stake =
    (let cost = pool_cost (pst_parameters pool) in
     if pot \<le> cost then Some pot
     else do {
       rel_stake \<leftarrow> relative_stake pool total_stake;
       owner_stake_ratio \<leftarrow> (if total_stake = 0 then Some 0 else safe_ratio owned total_stake);
       shared \<leftarrow> ratio_sub 1 (pst_margin pool);
       owner_share \<leftarrow> ratio_div (shared * owner_stake_ratio) rel_stake;
       rewards \<leftarrow> floor_to_lovelace ((pst_margin pool + owner_share) * of_nat (pot - cost));
       Some (cost + rewards)
     })"

definition member_rewards ::
  "pool_state \<Rightarrow> credential \<Rightarrow> lovelace \<Rightarrow> lovelace \<Rightarrow> lovelace \<Rightarrow> lovelace option" where
  "member_rewards pool member pot member_stake total_stake =
    (let is_owner = (case member of
         ScriptHash _ \<Rightarrow> False
       | KeyHash key \<Rightarrow> vs_contains (pool_owners (pst_parameters pool)) key);
       cost = pool_cost (pst_parameters pool)
     in if is_owner then Some 0
        else if pot \<le> cost then Some 0
        else do {
          member_relative_stake \<leftarrow> safe_ratio member_stake total_stake;
          shared \<leftarrow> ratio_sub 1 (pst_margin pool);
          rel_stake \<leftarrow> relative_stake pool total_stake;
          share \<leftarrow> ratio_div (shared * of_nat (pot - cost) * member_relative_stake) rel_stake;
          floor_to_lovelace share
        })"

section \<open>Rewards of an epoch\<close>

record pool_pots =
  pw_pot :: lovelace
  pw_leader :: lovelace

record rewards_summary =
  rs_epoch :: epoch
  rs_incentives :: lovelace
  rs_treasury_tax :: lovelace
  rs_available_rewards :: lovelace
  rs_effective_rewards :: lovelace
  rs_accounts :: "(credential, account_state) sorted_pairs"
  rs_leader_recipients :: "credential oset"

definition count_blocks :: "pool_id list \<Rightarrow> nat \<times> (pool_id, nat) omap" where
  "count_blocks issuers =
    foldl (\<lambda>(total, per_pool) issuer. (total + 1, add_amount issuer 1 per_pool)) (0, om_empty) issuers"

text \<open>What the pass over pools threads through.\<close>

record leader_pass =
  lp_accounts :: "(credential, account_state) sorted_pairs"
  lp_recipients :: "credential oset"
  lp_blocks :: "(pool_id, nat) omap"
  lp_pools :: "(pool_id, pool_pots) omap"
  lp_effective :: lovelace

definition pay_leader :: "credential \<Rightarrow> lovelace \<Rightarrow> leader_pass \<Rightarrow> leader_pass" where
  "pay_leader k amount lp =
    (if 0 < amount then
       lp\<lparr>lp_recipients := os_insert k (lp_recipients lp),
          lp_accounts :=
            (case sp_get (lp_accounts lp) k of
               Some _ \<Rightarrow> sp_modify k (\<lambda>st. st\<lparr>as_rewards := as_rewards st + amount\<rparr>) (lp_accounts lp)
             | None \<Rightarrow> sp_insert k (with_rewards account_state_default amount) (lp_accounts lp))\<rparr>
     else lp)"

definition apply_leader_rewards ::
  "nat \<Rightarrow> lovelace \<Rightarrow> lovelace \<Rightarrow> lovelace \<Rightarrow> protocol_parameters \<Rightarrow> pool_state \<Rightarrow> leader_pass \<Rightarrow>
    (leader_pass \<times> pool_pots) option" where
  "apply_leader_rewards blocks_count available_rewards active_stake total_stake pp pool lp = do {
    let owned = owner_stake pool (lp_accounts lp);
    let id = pool_id (pst_parameters pool);
    let blocks = amount_of (lp_blocks lp) id;
    blocks_ratio \<leftarrow> safe_ratio blocks blocks_count;
    pot \<leftarrow> pool_rewards pool blocks_ratio available_rewards active_stake total_stake owned pp;
    leader \<leftarrow> leader_rewards pool pot owned total_stake;
    let lp' = pay_leader (snd (pool_reward_account (pst_parameters pool))) leader
      (lp\<lparr>lp_blocks := om_remove id (lp_blocks lp)\<rparr>);
    Some (lp', \<lparr>pw_pot = pot, pw_leader = leader\<rparr>)
  }"

fun pay_leaders ::
  "nat \<Rightarrow> lovelace \<Rightarrow> lovelace \<Rightarrow> lovelace \<Rightarrow> protocol_parameters \<Rightarrow> (pool_id \<times> pool_state) list \<Rightarrow>
    leader_pass \<Rightarrow> leader_pass option" where
  "pay_leaders n avail active ts pp [] lp = Some lp" |
  "pay_leaders n avail active ts pp ((pid, pool) # pools) lp = do {
    (lp', pots) \<leftarrow> apply_leader_rewards n avail active ts pp pool lp;
    pay_leaders n avail active ts pp pools
      (lp'\<lparr>lp_effective := lp_effective lp' + pw_leader pots, lp_pools := om_insert pid pots (lp_pools lp')\<rparr>)
  }"

definition apply_member_rewards ::
  "credential \<Rightarrow> account_state \<Rightarrow> pool_state \<Rightarrow> pool_pots option \<Rightarrow> lovelace \<Rightarrow>
    (account_state \<times> lovelace) option" where
  "apply_member_rewards credential account pool pots total_stake =
    (case pots of
       Some p \<Rightarrow> do {
         rewards \<leftarrow> member_rewards pool credential (pw_pot p) (as_balance account) total_stake;
         Some (if 0 < rewards then account\<lparr>as_rewards := as_rewards account + rewards\<rparr> else account, rewards)
       }
     | None \<Rightarrow> Some (account, 0))"

definition pay_member ::
  "(pool_id, pool_state) omap \<Rightarrow> (pool_id, pool_pots) omap \<Rightarrow> lovelace \<Rightarrow> credential \<Rightarrow> account_state \<Rightarrow>
    (account_state \<times> lovelace) option" where
  "pay_member pools pots total_stake credential account =
    (case Option.bind (as_pool account) (om_lookup pools) of
       Some pool \<Rightarrow> apply_member_rewards credential account pool
         (om_lookup pots (pool_id (pst_parameters pool))) total_stake
     | None \<Rightarrow> Some (account, 0))"

fun pay_members ::
  "(pool_id, pool_state) omap \<Rightarrow> (pool_id, pool_pots) omap \<Rightarrow> lovelace \<Rightarrow>
    (credential, account_state) sorted_pairs \<Rightarrow> ((credential, account_state) sorted_pairs \<times> lovelace) option" where
  "pay_members pools pots total_stake [] = Some ([], 0)" |
  "pay_members pools pots total_stake ((credential, account) # accounts) = do {
    (account', rewards) \<leftarrow> pay_member pools pots total_stake credential account;
    (accounts', others) \<leftarrow> pay_members pools pots total_stake accounts;
    Some ((credential, account') # accounts', rewards + others)
  }"

definition rewards_summary_new ::
  "stake_summary \<Rightarrow> global_parameters \<Rightarrow> protocol_parameters \<Rightarrow> pool_id list \<Rightarrow> pots \<Rightarrow>
    rewards_summary option" where
  "rewards_summary_new ss g pp block_issuers pots = do {
    let (count, blocks_per_pool) = count_blocks block_issuers;
    efficiency \<leftarrow> safe_ratio (count * active_slot_coeff_inverse g) (epoch_length g);
    let blocks_count = max count 1;
    incentives \<leftarrow> floor_to_lovelace (min 1 efficiency * monetary_expansion_rate pp * of_nat (pot_reserves pots));
    let total_rewards = u64_add incentives (pot_fees pots);
    treasury_tax \<leftarrow> floor_to_lovelace (treasury_expansion_rate pp * of_nat total_rewards);
    let available_rewards = u64_sub total_rewards treasury_tax;
    let total_stake = u64_sub (max_lovelace_supply g) (pot_reserves pots);
    let sd = ss_stake_distribution ss;
    lp \<leftarrow> pay_leaders blocks_count available_rewards (sd_active_stake sd) total_stake pp
      (om_entries (sd_pools sd))
      \<lparr>lp_accounts = ss_accounts ss, lp_recipients = om_empty, lp_blocks = blocks_per_pool,
       lp_pools = om_empty, lp_effective = 0\<rparr>;
    (accounts, member_total) \<leftarrow> pay_members (sd_pools sd) (lp_pools lp) total_stake (lp_accounts lp);
    Some \<lparr>rs_epoch = sd_epoch sd, rs_incentives = incentives, rs_treasury_tax = treasury_tax,
      rs_available_rewards = available_rewards, rs_effective_rewards = lp_effective lp + member_total,
      rs_accounts = accounts, rs_leader_recipients = lp_recipients lp\<rparr>
  }"

text \<open>The amounts that leave the reserves and enter the treasury, in 64 bits.\<close>

definition rs_delta_reserves :: "rewards_summary \<Rightarrow> lovelace" where
  "rs_delta_reserves rs =
    u64_sub (u64_add (rs_incentives rs) (rs_effective_rewards rs)) (rs_available_rewards rs)"

definition rs_delta_treasury :: "rewards_summary \<Rightarrow> lovelace" where
  "rs_delta_treasury rs = rs_treasury_tax rs"

section \<open>Well-formed stake summaries\<close>

definition is_owner :: "pool_state \<Rightarrow> credential \<Rightarrow> bool" where
  "is_owner pool k = (\<exists>h \<in> set (pool_owners (pst_parameters pool)). k = KeyHash h)"

definition pool_ok :: "(credential \<times> account_state) list \<Rightarrow> pool_id \<Rightarrow> pool_state \<Rightarrow> bool" where
  "pool_ok accounts pid pool =
    (pool_id (pst_parameters pool) = pid \<and> pst_stake pool = delegated_stake accounts pid \<and>
     0 \<le> pst_margin pool \<and> pst_margin pool \<le> 1 \<and> strict_sorted (pool_owners (pst_parameters pool)))"

definition summary_ok :: "stake_summary \<Rightarrow> bool" where
  "summary_ok ss =
    (al_sorted (ss_accounts ss) \<and>
     (\<forall>(k, a) \<in> set (ss_accounts ss). as_rewards a = 0) \<and>
     (\<forall>(pid, pool) \<in> set (om_entries (sd_pools (ss_stake_distribution ss))).
        pool_ok (ss_accounts ss) pid pool) \<and>
     sd_active_stake (ss_stake_distribution ss) =
       om_sum pst_stake (sd_pools (ss_stake_distribution ss)))"

text \<open>The rows of pools carry their own identifier, a margin in the unit interval and a set of owners.\<close>

definition pool_rows_ok :: "(pool_id \<times> pool_row) list \<Rightarrow> bool" where
  "pool_rows_ok rows = list_all (\<lambda>(pid, row).
     pool_id (pr_current_params row) = pid \<and> 0 \<le> pool_margin (pr_current_params row) \<and>
     pool_margin (pr_current_params row) \<le> 1 \<and> strict_sorted (pool_owners (pr_current_params row))) rows"

lemma initial_pools_row:
  assumes "om_lookup (initial_pools db) pid = Some p"
  shows "\<exists>row. (pid, row) \<in> set (sn_pools db) \<and> p = pool_state_of_row row"
  using assms
  by (auto simp: initial_pools_def om_of_list_def om_lookup_extend dest!: map_of_SomeD)

lemma stake_summary_new_ok:
  assumes "governance_summary_new db h = Ok gs" "distinct (map fst (sn_accounts db))"
    "pool_rows_ok (sn_pools db)"
  shows "summary_ok (stake_summary_new db gs)"
proof -
  let ?ss = "stake_summary_new db gs" and ?sd = "ss_stake_distribution (stake_summary_new db gs)"
  have accs: "ss_accounts ?ss = final_accounts db gs" by (simp add: stake_summary_new_def Let_def)
  have "as_rewards a = 0" if "(k, a) \<in> set (final_accounts db gs)" for k a
    using that final_accounts_iff [OF assms(2)] by (auto simp: account_state_of_row_def)
  moreover have "pool_ok (ss_accounts ?ss) pid p" if p: "om_lookup (sd_pools ?sd) pid = Some p" for pid p
  proof -
    obtain q where q: "om_lookup (initial_pools db) pid = Some q" "pst_parameters p = pst_parameters q"
      "pst_margin p = pst_margin q"
      using summary_pool(2) [OF p] by blast
    then obtain row where "(pid, row) \<in> set (sn_pools db)" "q = pool_state_of_row row"
      using initial_pools_row by blast
    then show ?thesis
      using q assms(3) summary_pool(1) [OF p]
      by (auto simp: pool_ok_def pool_rows_ok_def list_all_iff pool_state_of_row_def)
  qed
  moreover have "sd_active_stake ?sd = om_sum pst_stake (sd_pools ?sd)"
    using final_totals_ok [OF assms(1)]
    by (simp add: stake_summary_new_def Let_def om_sum_count_block om_sum_map_same totals_ok_def)
  ultimately show ?thesis
    using al_sorted_final_accounts [OF assms(2), of gs]
    by (auto simp: summary_ok_def accs om_entries_iff)
qed

section \<open>Owners and members share the stake of a pool\<close>

lemma foldl_add_if:
  "foldl (\<lambda>acc x. case f x of Some a \<Rightarrow> if P a then acc + g a else acc | None \<Rightarrow> acc) (n::nat) xs =
    n + sum_list (map (\<lambda>x. case f x of Some a \<Rightarrow> if P a then g a else 0 | None \<Rightarrow> 0) xs)"
  by (induction xs arbitrary: n) (auto split: option.splits)

lemma sum_list_swap:
  "sum_list (map (\<lambda>x. sum_list (map (\<lambda>y. f x y) ys)) xs) =
    sum_list (map (\<lambda>y. sum_list (map (\<lambda>x. f x y) xs)) ys)"
  for f :: "'a \<Rightarrow> 'b \<Rightarrow> 'c::comm_monoid_add"
  by (induction xs) (simp_all add: sum_list_addf)

lemma sum_list_lookup:
  assumes "distinct (map fst xs)"
  shows "(case map_of xs k of Some a \<Rightarrow> g a | None \<Rightarrow> (0::'a::comm_monoid_add)) =
    sum_list (map (\<lambda>(x, a). if x = k then g a else 0) xs)"
  using assms
proof (induction xs)
  case (Cons x xs)
  have "sum_list (map (\<lambda>(x, a). if x = k then g a else 0) xs) = 0" if "k \<notin> fst ` set xs"
    using that by (induction xs) auto
  then show ?case using Cons by (cases x) auto
qed simp

lemma sum_list_key_hash:
  "distinct hs \<Longrightarrow> sum_list (map (\<lambda>h. if k = KeyHash h then (n::nat) else 0) hs) =
    (if \<exists>h \<in> set hs. k = KeyHash h then n else 0)"
  by (induction hs) auto

lemma owner_stake_sum:
  assumes "al_sorted accounts" and "strict_sorted (pool_owners (pst_parameters pool))"
  shows "owner_stake pool accounts =
    sum_list (map (\<lambda>(k, a). if as_pool a = Some (pool_id (pst_parameters pool)) \<and> is_owner pool k
      then as_balance a else 0) accounts)"
proof -
  let ?id = "pool_id (pst_parameters pool)" and ?os = "pool_owners (pst_parameters pool)"
  let ?g = "\<lambda>a. if as_pool a = Some ?id then as_balance a else 0"
  have dist: "distinct (map fst accounts)" using assms(1) by (rule strict_sorted_distinct)
  have "owner_stake pool accounts =
      sum_list (map (\<lambda>h. case map_of accounts (KeyHash h) of Some a \<Rightarrow> ?g a | None \<Rightarrow> 0) ?os)"
    unfolding owner_stake_def foldl_add_if sp_get_map_of [OF assms(1)] by simp
  also have "\<dots> = sum_list (map (\<lambda>h. sum_list (map (\<lambda>(x, a). if x = KeyHash h then ?g a else 0) accounts)) ?os)"
    unfolding sum_list_lookup [OF dist] ..
  also have "\<dots> = sum_list (map (\<lambda>y. sum_list (map (\<lambda>h. case y of (x, a) \<Rightarrow> if x = KeyHash h then ?g a else 0) ?os)) accounts)"
    by (rule sum_list_swap)
  also have "\<dots> = sum_list (map (\<lambda>(k, a). if as_pool a = Some ?id \<and> is_owner pool k then as_balance a else 0) accounts)"
  proof -
    have "distinct ?os" using assms(2) by (rule strict_sorted_distinct)
    then have "sum_list (map (\<lambda>h. case y of (x, a) \<Rightarrow> if x = KeyHash h then ?g a else 0) ?os) =
        (case y of (k, a) \<Rightarrow> if as_pool a = Some ?id \<and> is_owner pool k then as_balance a else 0)"
      for y :: "credential \<times> account_state"
      by (cases y) (auto simp: sum_list_key_hash is_owner_def)
    then show ?thesis by (simp only:)
  qed
  finally show ?thesis .
qed

text \<open>
  Members are the accounts of a pool that are not its owners; together with the
  owners they hold its whole stake.
\<close>

definition members_stake :: "pool_state \<Rightarrow> (credential \<times> account_state) list \<Rightarrow> lovelace" where
  "members_stake pool accounts =
    sum_list (map (\<lambda>(k, a). if as_pool a = Some (pool_id (pst_parameters pool)) \<and> \<not> is_owner pool k
      then as_balance a else 0) accounts)"

lemma owners_and_members:
  assumes "al_sorted accounts" and "pool_ok accounts pid pool"
  shows "owner_stake pool accounts + members_stake pool accounts = pst_stake pool"
proof -
  have "owner_stake pool accounts + members_stake pool accounts =
      sum_list (map (\<lambda>(k, a). if as_pool a = Some pid then as_balance a else 0) accounts)"
    using assms owner_stake_sum [OF assms(1)]
    unfolding members_stake_def pool_ok_def by (simp add: sum_list_addf [symmetric] case_prod_beta)
      (intro arg_cong [where f = sum_list] map_cong; auto)
  then show ?thesis using assms(2) by (simp add: pool_ok_def delegated_stake_def)
qed

section \<open>Bounds for one pool\<close>

lemma floor_to_lovelace_bound:
  assumes "0 \<le> r" and "r \<le> of_nat n" and "n \<le> u64_max"
  shows "\<exists>x. floor_to_lovelace r = Some x \<and> of_nat x \<le> r \<and> x \<le> n"
proof -
  have "\<lfloor>r\<rfloor> \<le> int n" using assms(2) by linarith
  then have "nat \<lfloor>r\<rfloor> \<le> n" by simp
  moreover have "rat_of_nat (nat \<lfloor>r\<rfloor>) \<le> r" using assms(1) by simp
  ultimately show ?thesis using assms(3) by (simp add: floor_to_lovelace_def)
qed

lemma saturation_bound:
  fixes a0 z0 p s :: rat
  assumes "0 \<le> a0" and "0 < z0" and "0 \<le> p" and "p \<le> z0" and "p \<le> s" and "s \<le> z0"
  shows "p * (z0 - s) / z0 \<le> s"
    and "0 \<le> s + p * a0 * ((s - p * (z0 - s) / z0) / z0)"
    and "s + p * a0 * ((s - p * (z0 - s) / z0) / z0) \<le> (1 + a0) * s"
proof -
  have "p * (z0 - s) \<le> s * z0"
    using assms by (intro mult_mono) auto
  then show le: "p * (z0 - s) / z0 \<le> s" using assms(2) by (simp add: divide_le_eq)
  have nn: "0 \<le> (s - p * (z0 - s) / z0) / z0" using le assms(2) by simp
  then show "0 \<le> s + p * a0 * ((s - p * (z0 - s) / z0) / z0)"
    using assms by (intro add_nonneg_nonneg mult_nonneg_nonneg) auto
  have "0 \<le> p * (z0 - s) / z0" using assms by simp
  then have "(s - p * (z0 - s) / z0) / z0 \<le> s / z0" using assms(2) by (intro divide_right_mono) auto
  then have "p * ((s - p * (z0 - s) / z0) / z0) \<le> z0 * (s / z0)"
    using assms nn by (intro mult_mono) auto
  also have "\<dots> = s" using assms(2) by simp
  finally have "a0 * (p * ((s - p * (z0 - s) / z0) / z0)) \<le> a0 * s"
    using assms(1) by (rule mult_left_mono)
  then show "s + p * a0 * ((s - p * (z0 - s) / z0) / z0) \<le> (1 + a0) * s"
    by (simp add: algebra_simps)
qed

text \<open>
  The parameters of the calculation: how many blocks there are, what there is to
  distribute, and the stake that shares it.
\<close>

definition params_ok' :: "protocol_parameters \<Rightarrow> bool" where
  "params_ok' pp =
    (0 < optimal_stake_pools_count pp \<and> 0 \<le> pledge_influence pp \<and>
     0 \<le> monetary_expansion_rate pp \<and> monetary_expansion_rate pp \<le> 1 \<and>
     0 \<le> treasury_expansion_rate pp \<and> treasury_expansion_rate pp \<le> 1)"

lemma optimal_rewards_bound:
  assumes "params_ok' pp" and "0 < ts" and "avail \<le> u64_max" and "pst_stake pool \<le> ts"
    and "pool_pledge (pst_parameters pool) \<le> pst_stake pool"
  shows "\<exists>x. optimal_rewards pool avail ts pp = Some x \<and>
    of_nat x \<le> of_nat avail * (of_nat (pst_stake pool) / of_nat ts :: rat)"
proof -
  define a0 z0 where "a0 = pledge_influence pp" and "z0 = (1 / of_nat (optimal_stake_pools_count pp) :: rat)"
  define rp rs where "rp = (of_nat (pool_pledge (pst_parameters pool)) / of_nat ts :: rat)"
    and "rs = (of_nat (pst_stake pool) / of_nat ts :: rat)"
  define p s where "p = min z0 rp" and "s = min z0 rs"
  have a0: "0 \<le> a0" and z0: "0 < z0" and le: "rp \<le> rs" "0 \<le> rp" "rs \<le> 1"
    using assms by (auto simp: params_ok'_def a0_def z0_def rp_def rs_def intro: divide_right_mono)
  have ps: "0 \<le> p" "p \<le> z0" "p \<le> s" "s \<le> z0" "s \<le> rs"
    using le z0 by (auto simp: p_def s_def min_def)
  note sat = saturation_bound [OF a0 z0 ps(1-4)]
  let ?right = "s + p * a0 * ((s - p * (z0 - s) / z0) / z0)"
  have opt: "optimal_rewards pool avail ts pp = floor_to_lovelace (of_nat avail / (1 + a0) * ?right)"
    using assms(1,2) a0 z0 ps sat(1)
    by (simp add: optimal_rewards_def safe_ratio_def relative_stake_def ratio_div_def ratio_sub_def
        params_ok'_def Let_def a0_def [symmetric] z0_def [symmetric] rp_def [symmetric] rs_def [symmetric]
        p_def [symmetric] s_def [symmetric])
  have "of_nat avail / (1 + a0) * ?right \<le> of_nat avail / (1 + a0) * ((1 + a0) * s)"
    using sat(3) a0 by (intro mult_left_mono) auto
  also have "\<dots> = of_nat avail * s" using a0 by simp
  also have "\<dots> \<le> of_nat avail * rs" using ps by (intro mult_left_mono) auto
  finally have bound: "of_nat avail / (1 + a0) * ?right \<le> of_nat avail * rs" .
  moreover have "of_nat avail * rs \<le> (of_nat avail :: rat)" using le by (simp add: mult_left_le)
  ultimately obtain x where "floor_to_lovelace (of_nat avail / (1 + a0) * ?right) = Some x"
    "of_nat x \<le> of_nat avail / (1 + a0) * ?right"
    using floor_to_lovelace_bound [of "of_nat avail / (1 + a0) * ?right" avail] sat(2) a0 assms(3) by auto
  then show ?thesis using bound opt by (auto simp: rs_def)
qed

text \<open>
  The pot of a pool is at most its share of the blocks of what there is to
  distribute.  The share is \<open>blocks / count\<close>; a pool that runs with luck earns
  more than its stake, but all pools together never more than everything.
\<close>

lemma pool_rewards_bound:
  assumes "params_ok' pp" and "0 < ts" and "avail \<le> u64_max" and "active \<le> ts"
    and "pst_stake pool \<le> active" and "owned \<le> pst_stake pool" and "0 < count" and "blocks \<le> count"
  shows "\<exists>pot. pool_rewards pool (of_nat blocks / of_nat count) avail active ts owned pp = Some pot \<and>
    of_nat pot \<le> (of_nat blocks / of_nat count * of_nat avail :: rat) \<and> (pst_stake pool = 0 \<longrightarrow> pot = 0)"
proof (cases "pool_pledge (pst_parameters pool) \<le> owned")
  case True
  then obtain x where x: "optimal_rewards pool avail ts pp = Some x"
    "of_nat x \<le> of_nat avail * (of_nat (pst_stake pool) / of_nat ts :: rat)"
    using optimal_rewards_bound [of pp ts avail pool] assms by auto
  let ?br = "of_nat blocks / of_nat count :: rat"
  let ?perf = "apparent_performances pool ?br active"
  have nn: "0 \<le> ?perf" by (simp add: apparent_performances_def)
  have "?perf * of_nat x \<le> ?br * of_nat avail"
  proof (cases "pst_stake pool = 0")
    case False
    have "?perf * of_nat x \<le> ?perf * (of_nat avail * (of_nat (pst_stake pool) / of_nat ts))"
      using x(2) nn by (rule mult_left_mono)
    also have "\<dots> = ?br * of_nat avail * (of_nat active / of_nat ts)"
      using False by (simp add: apparent_performances_def)
    also have "\<dots> \<le> ?br * of_nat avail"
      using assms(2,4) by (intro mult_left_le) auto
    finally show ?thesis .
  qed (simp add: apparent_performances_def)
  moreover have "?br * of_nat avail \<le> (of_nat avail :: rat)"
    using assms(7,8) by (intro mult_left_le_one_le) auto
  ultimately obtain pot where "floor_to_lovelace (?perf * of_nat x) = Some pot"
    "of_nat pot \<le> ?perf * of_nat x"
    using floor_to_lovelace_bound [of "?perf * of_nat x" avail] nn assms(3) by force
  then show ?thesis
    using True x \<open>?perf * of_nat x \<le> ?br * of_nat avail\<close>
    by (auto simp: pool_rewards_def apparent_performances_def intro: order_trans)
next
  case False
  then show ?thesis by (simp add: pool_rewards_def)
qed

definition shared_rewards :: "pool_state \<Rightarrow> lovelace \<Rightarrow> rat" where
  "shared_rewards pool pot =
    (1 - pst_margin pool) * of_nat (pot - pool_cost (pst_parameters pool)) / of_nat (pst_stake pool)"

lemma leader_rewards_bound:
  assumes "0 \<le> pst_margin pool" "pst_margin pool \<le> 1" "0 < ts" "owned \<le> pst_stake pool"
    "pot \<le> u64_max" "pst_stake pool = 0 \<longrightarrow> pot = 0"
  shows "\<exists>x. leader_rewards pool pot owned ts = Some x \<and>
    (if pot \<le> pool_cost (pst_parameters pool) then x = pot
     else of_nat x + shared_rewards pool pot * of_nat (pst_stake pool - owned) \<le> of_nat pot)"
proof (cases "pot \<le> pool_cost (pst_parameters pool)")
  case False
  let ?m = "pst_margin pool" and ?c = "pool_cost (pst_parameters pool)" and ?\<sigma> = "pst_stake pool"
  let ?rest = "of_nat (pot - ?c) :: rat"
  have \<sigma>: "0 < ?\<sigma>" using False assms(6) by (cases "?\<sigma> = 0") auto
  define share where "share = (1 - ?m) * (of_nat owned / of_nat ts) / (of_nat ?\<sigma> / of_nat ts)"
  have share: "share = (1 - ?m) * of_nat owned / of_nat ?\<sigma>" using assms(3) \<sigma> by (simp add: share_def field_simps)
  have le1: "?m + share \<le> 1"
  proof -
    have "of_nat owned / of_nat ?\<sigma> \<le> (1::rat)" using assms(4) \<sigma> by simp
    then have "(1 - ?m) * (of_nat owned / of_nat ?\<sigma>) \<le> (1 - ?m) * 1"
      using assms(2) by (intro mult_left_mono) auto
    then show ?thesis by (simp add: share)
  qed
  have nn: "0 \<le> ?m + share" using assms(1,2) by (simp add: share)
  have small: "pot - ?c \<le> u64_max" using assms(5) by linarith
  have lead: "leader_rewards pool pot owned ts =
      Option.bind (floor_to_lovelace ((?m + share) * ?rest)) (\<lambda>x. Some (?c + x))"
    using False assms(2,3) \<sigma>
    by (simp add: leader_rewards_def relative_stake_def safe_ratio_def ratio_sub_def ratio_div_def
        Let_def share_def)
  have "(?m + share) * ?rest \<le> ?rest" using le1 by (intro mult_left_le_one_le) (auto simp: nn)
  then obtain x where x: "floor_to_lovelace ((?m + share) * ?rest) = Some x" "of_nat x \<le> (?m + share) * ?rest"
    using floor_to_lovelace_bound [of "(?m + share) * ?rest" "pot - ?c"] nn small by auto
  have "shared_rewards pool pot * of_nat (?\<sigma> - owned) = (1 - ?m - share) * ?rest"
    using assms(4) \<sigma> by (simp add: shared_rewards_def share field_simps)
  then have "of_nat (?c + x) + shared_rewards pool pot * of_nat (?\<sigma> - owned) \<le> of_nat ?c + ?rest"
    using x(2) by (simp add: algebra_simps)
  also have "\<dots> = of_nat pot" using False by simp
  finally show ?thesis using False lead x by simp
qed (simp add: leader_rewards_def)

lemma member_rewards_bound:
  assumes "0 \<le> pst_margin pool" "pst_margin pool \<le> 1" "0 < ts" "stake \<le> pst_stake pool"
    "pot \<le> u64_max" "pst_stake pool = 0 \<longrightarrow> pot = 0"
    "strict_sorted (pool_owners (pst_parameters pool))"
  shows "\<exists>x. member_rewards pool k pot stake ts = Some x \<and>
    (if is_owner pool k \<or> pot \<le> pool_cost (pst_parameters pool) then x = 0
     else of_nat x \<le> shared_rewards pool pot * of_nat stake)"
proof -
  have owner: "(case k of ScriptHash _ \<Rightarrow> False | KeyHash key \<Rightarrow> vs_contains (pool_owners (pst_parameters pool)) key) \<longleftrightarrow>
      is_owner pool k"
    using assms(7) by (auto simp: is_owner_def vs_contains_iff split: credential.splits)
  show ?thesis
  proof (cases "is_owner pool k \<or> pot \<le> pool_cost (pst_parameters pool)")
    case True
    then show ?thesis by (auto simp: member_rewards_def owner Let_def)
  next
    case False
    let ?m = "pst_margin pool" and ?\<sigma> = "pst_stake pool"
    let ?rest = "of_nat (pot - pool_cost (pst_parameters pool)) :: rat"
    have \<sigma>: "0 < ?\<sigma>" using False assms(6) by (cases "?\<sigma> = 0") auto
    have "(1 - ?m) * ?rest * (of_nat stake / of_nat ts) / (of_nat ?\<sigma> / of_nat ts) =
        shared_rewards pool pot * of_nat stake"
      using assms(3) \<sigma> by (simp add: shared_rewards_def field_simps)
    then have mem: "member_rewards pool k pot stake ts = floor_to_lovelace (shared_rewards pool pot * of_nat stake)"
      using False assms(2,3) \<sigma>
      by (simp add: member_rewards_def owner relative_stake_def safe_ratio_def ratio_sub_def ratio_div_def Let_def)
    have nn: "0 \<le> shared_rewards pool pot * of_nat stake"
      using assms(2) by (simp add: shared_rewards_def)
    have "shared_rewards pool pot * of_nat stake = (1 - ?m) * (of_nat stake / of_nat ?\<sigma>) * ?rest"
      by (simp add: shared_rewards_def)
    also have "\<dots> \<le> ?rest"
    proof (rule mult_left_le_one_le)
      show "(1 - ?m) * (of_nat stake / of_nat ?\<sigma>) \<le> 1"
        using assms(1,2,4) \<sigma> by (intro mult_le_one) auto
    qed (use assms(2) in auto)
    finally have "shared_rewards pool pot * of_nat stake \<le> ?rest" .
    moreover have "pot - pool_cost (pst_parameters pool) \<le> u64_max" using assms(5) by linarith
    ultimately show ?thesis
      using floor_to_lovelace_bound [OF nn, of "pot - pool_cost (pst_parameters pool)"] False mem by auto
  qed
qed

section \<open>Paying leaders keeps stakes\<close>

text \<open>The part of the accounts that stakes depend on, which payments leave alone.\<close>

definition stakes :: "(credential \<times> account_state) list \<Rightarrow> (credential \<times> lovelace \<times> pool_id option) list" where
  "stakes accounts =
    map (\<lambda>(k, a). (k, as_balance a, as_pool a)) (filter (\<lambda>(k, a). as_pool a \<noteq> None) accounts)"

definition rewards_of :: "(credential \<times> account_state) list \<Rightarrow> lovelace" where
  "rewards_of accounts = sum_list (map (\<lambda>(k, a). as_rewards a) accounts)"

lemma stakes_simps [simp]:
  "stakes [] = []"
  "stakes ((k, a) # xs) = (if as_pool a = None then stakes xs else (k, as_balance a, as_pool a) # stakes xs)"
  by (simp_all add: stakes_def)

lemma rewards_of_simps [simp]:
  "rewards_of [] = 0" "rewards_of ((k, a) # xs) = as_rewards a + rewards_of xs"
  by (simp_all add: rewards_of_def)

lemma sum_by_stakes:
  "sum_list (map (\<lambda>(k, a). if as_pool a = Some pid \<and> P k then as_balance a else 0) accounts) =
    sum_list (map (\<lambda>(k, b, p). if p = Some pid \<and> P k then b else 0) (stakes accounts))"
  by (induction accounts) auto

lemma stakes_cong:
  assumes "stakes accounts = stakes accounts'"
  shows "delegated_stake accounts pid = delegated_stake accounts' pid"
    and "members_stake pool accounts = members_stake pool accounts'"
    and "al_sorted accounts \<Longrightarrow> al_sorted accounts' \<Longrightarrow>
      strict_sorted (pool_owners (pst_parameters pool)) \<Longrightarrow> owner_stake pool accounts = owner_stake pool accounts'"
    and "pool_ok accounts pid pool \<longleftrightarrow> pool_ok accounts' pid pool"
proof -
  show d: "delegated_stake accounts pid = delegated_stake accounts' pid" for pid
    using sum_by_stakes [of pid "\<lambda>_. True" accounts] sum_by_stakes [of pid "\<lambda>_. True" accounts'] assms
    by (simp add: delegated_stake_def)
  show "members_stake pool accounts = members_stake pool accounts'"
    using sum_by_stakes [of _ "\<lambda>k. \<not> is_owner pool k" accounts]
      sum_by_stakes [of _ "\<lambda>k. \<not> is_owner pool k" accounts'] assms
    by (simp add: members_stake_def)
  show "owner_stake pool accounts = owner_stake pool accounts'"
    if "al_sorted accounts" "al_sorted accounts'" "strict_sorted (pool_owners (pst_parameters pool))"
    using that sum_by_stakes [of _ "\<lambda>k. is_owner pool k" accounts]
      sum_by_stakes [of _ "\<lambda>k. is_owner pool k" accounts'] assms
    by (simp add: owner_stake_sum)
  show "pool_ok accounts pid pool \<longleftrightarrow> pool_ok accounts' pid pool" by (simp add: pool_ok_def d)
qed

lemma stakes_modify_rewards:
  assumes "al_sorted xs"
  shows "stakes (sp_modify k (\<lambda>st. st\<lparr>as_rewards := as_rewards st + n\<rparr>) xs) = stakes xs"
  unfolding sp_modify_map [OF assms] by (induction xs) auto

lemma stakes_insert_new:
  "as_pool v = None \<Longrightarrow> k \<notin> fst ` set xs \<Longrightarrow> stakes (al_insert k v xs) = stakes xs"
  by (induction k v xs rule: al_insert.induct) auto

lemma rewards_modify:
  assumes "al_sorted xs" and "map_of xs k = Some a"
  shows "rewards_of (sp_modify k (\<lambda>st. st\<lparr>as_rewards := as_rewards st + n\<rparr>) xs) = rewards_of xs + n"
proof -
  have "rewards_of (map (\<lambda>(x, v). (x, if x = k then v\<lparr>as_rewards := as_rewards v + n\<rparr> else v)) xs) =
      rewards_of xs + sum_list (map (\<lambda>(x, v). if x = k then n else 0) xs)"
    by (induction xs) auto
  also have "sum_list (map (\<lambda>(x, v). if x = k then n else 0) xs) = n"
    using sum_list_lookup [OF strict_sorted_distinct [OF assms(1)], of "\<lambda>_. n" k] assms(2) by simp
  finally show ?thesis unfolding sp_modify_map [OF assms(1)] .
qed

lemma rewards_insert_new:
  "k \<notin> fst ` set xs \<Longrightarrow> rewards_of (al_insert k v xs) = rewards_of xs + as_rewards v"
  by (induction k v xs rule: al_insert.induct) auto

lemma pay_leader_spec:
  assumes "al_sorted (lp_accounts lp)"
  shows "al_sorted (lp_accounts (pay_leader k n lp))"
    and "stakes (lp_accounts (pay_leader k n lp)) = stakes (lp_accounts lp)"
    and "rewards_of (lp_accounts (pay_leader k n lp)) = rewards_of (lp_accounts lp) + n"
    and "lp_blocks (pay_leader k n lp) = lp_blocks lp" "lp_pools (pay_leader k n lp) = lp_pools lp"
    and "lp_effective (pay_leader k n lp) = lp_effective lp"
proof -
  have "al_sorted (lp_accounts (pay_leader k n lp)) \<and>
    stakes (lp_accounts (pay_leader k n lp)) = stakes (lp_accounts lp) \<and>
    rewards_of (lp_accounts (pay_leader k n lp)) = rewards_of (lp_accounts lp) + n"
  proof (cases "map_of (lp_accounts lp) k")
    case None
    then have "k \<notin> fst ` set (lp_accounts lp)" by (simp add: map_of_eq_None_iff)
    then show ?thesis
      using assms None stakes_insert_new [of "with_rewards account_state_default n" k "lp_accounts lp"]
        rewards_insert_new [of k "lp_accounts lp" "with_rewards account_state_default n"]
        al_sorted_insert [OF assms, of k "with_rewards account_state_default n"]
      by (auto simp: pay_leader_def sp_get_map_of sp_insert_al_insert with_rewards_def account_state_default_def)
  next
    case (Some a)
    then show ?thesis
      using assms rewards_modify [OF assms Some, of n]
      by (auto simp: pay_leader_def sp_get_map_of stakes_modify_rewards)
  qed
  then show "al_sorted (lp_accounts (pay_leader k n lp))"
    "stakes (lp_accounts (pay_leader k n lp)) = stakes (lp_accounts lp)"
    "rewards_of (lp_accounts (pay_leader k n lp)) = rewards_of (lp_accounts lp) + n" by simp_all
qed (simp_all add: pay_leader_def)

section \<open>The pass over pools\<close>

text \<open>
  What is left to the members of a pool after its leader is paid, and the pots
  that leave enough for it.
\<close>

definition members_due :: "(credential \<times> account_state) list \<Rightarrow> pool_state \<Rightarrow> pool_pots \<Rightarrow> rat" where
  "members_due accounts pool pots =
    (if pw_pot pots \<le> pool_cost (pst_parameters pool) then 0
     else shared_rewards pool (pw_pot pots) * of_nat (members_stake pool accounts))"

definition pots_ok :: "(credential \<times> account_state) list \<Rightarrow> pool_state \<Rightarrow> pool_pots \<Rightarrow> bool" where
  "pots_ok accounts pool pots =
    (pw_pot pots \<le> u64_max \<and> (pst_stake pool = 0 \<longrightarrow> pw_pot pots = 0) \<and>
     of_nat (pw_leader pots) + members_due accounts pool pots \<le> of_nat (pw_pot pots))"

definition pass_ok :: "protocol_parameters \<Rightarrow> nat \<Rightarrow> lovelace \<Rightarrow> lovelace \<Rightarrow> lovelace \<Rightarrow> bool" where
  "pass_ok pp count avail active ts =
    (params_ok' pp \<and> 0 < count \<and> avail \<le> u64_max \<and> active \<le> ts \<and> 0 < ts)"

lemma apply_leader_rewards_spec:
  assumes "pass_ok pp count avail active ts" and "al_sorted (lp_accounts lp)"
    and "pool_ok (lp_accounts lp) pid pool" and "pst_stake pool \<le> active"
    and "amount_of (lp_blocks lp) pid \<le> count"
  shows "\<exists>lp' pots. apply_leader_rewards count avail active ts pp pool lp = Some (lp', pots) \<and>
    of_nat (pw_pot pots) \<le> (of_nat (amount_of (lp_blocks lp) pid) / of_nat count * of_nat avail :: rat) \<and>
    pots_ok (lp_accounts lp) pool pots \<and> al_sorted (lp_accounts lp') \<and>
    stakes (lp_accounts lp') = stakes (lp_accounts lp) \<and>
    rewards_of (lp_accounts lp') = rewards_of (lp_accounts lp) + pw_leader pots \<and>
    lp_blocks lp' = om_remove pid (lp_blocks lp) \<and> lp_pools lp' = lp_pools lp \<and>
    lp_effective lp' = lp_effective lp"
proof -
  note par = assms(1) [unfolded pass_ok_def]
  let ?owned = "owner_stake pool (lp_accounts lp)" and ?blocks = "amount_of (lp_blocks lp) pid"
  have split: "?owned + members_stake pool (lp_accounts lp) = pst_stake pool"
    using owners_and_members [OF assms(2,3)] .
  then have owned: "?owned \<le> pst_stake pool" "pst_stake pool - ?owned = members_stake pool (lp_accounts lp)"
    by linarith+
  obtain pot where pot: "pool_rewards pool (of_nat ?blocks / of_nat count) avail active ts ?owned pp = Some pot"
    "of_nat pot \<le> (of_nat ?blocks / of_nat count * of_nat avail :: rat)" "pst_stake pool = 0 \<longrightarrow> pot = 0"
    using pool_rewards_bound [of pp ts avail active pool ?owned count ?blocks] par assms(4,5) owned(1) by auto
  have "of_nat ?blocks / of_nat count * of_nat avail \<le> (of_nat avail :: rat)"
    using par assms(5) by (intro mult_left_le_one_le) auto
  then have "pot \<le> u64_max" using pot(2) par
    by (metis (no_types, lifting) of_nat_le_iff order_trans)
  moreover obtain leader where leader: "leader_rewards pool pot ?owned ts = Some leader"
    "if pot \<le> pool_cost (pst_parameters pool) then leader = pot
     else of_nat leader + shared_rewards pool pot * of_nat (pst_stake pool - ?owned) \<le> of_nat pot"
    using leader_rewards_bound [of pool ts ?owned pot] par assms(3) owned(1) pot(3) \<open>pot \<le> u64_max\<close>
    by (auto simp: pool_ok_def)
  moreover have "pool_id (pst_parameters pool) = pid" using assms(3) by (simp add: pool_ok_def)
  ultimately show ?thesis
    using pot assms(2) par pay_leader_spec [of "lp\<lparr>lp_blocks := om_remove pid (lp_blocks lp)\<rparr>"]
    by (simp add: apply_leader_rewards_def Let_def safe_ratio_def pots_ok_def members_due_def owned(2)
        split: if_splits)
qed

text \<open>
  The whole pass: no panic, the stakes are untouched, and what leaders got plus
  what is left to members is bounded by the share of the blocks.
\<close>

definition due_of :: "(credential \<times> account_state) list \<Rightarrow> (pool_id, pool_pots) omap \<Rightarrow>
    pool_id \<times> pool_state \<Rightarrow> rat" where
  "due_of accounts pots = (\<lambda>(pid, pool). case om_lookup pots pid of
     Some p \<Rightarrow> members_due accounts pool p | None \<Rightarrow> 0)"

definition pots_complete :: "(credential \<times> account_state) list \<Rightarrow> (pool_id \<times> pool_state) list \<Rightarrow>
    (pool_id, pool_pots) omap \<Rightarrow> bool" where
  "pots_complete accounts pools pots =
    list_all (\<lambda>(pid, pool). case om_lookup pots pid of Some p \<Rightarrow> pots_ok accounts pool p | None \<Rightarrow> False) pools"

lemma due_cong:
  assumes "stakes xs = stakes ys"
  shows "members_due xs = members_due ys" and "due_of xs = due_of ys" and "pots_ok xs = pots_ok ys"
proof -
  show due: "members_due xs = members_due ys"
    by (intro ext) (simp add: members_due_def stakes_cong(2) [OF assms])
  show "due_of xs = due_of ys" unfolding due_of_def due ..
  show "pots_ok xs = pots_ok ys" unfolding pots_ok_def due ..
qed

lemma amount_of_remove: "x \<noteq> k \<Longrightarrow> amount_of (om_remove k m) x = amount_of m x"
  by (simp add: amount_of_def)

lemma pay_leaders_spec:
  assumes "pass_ok pp count avail active ts" and "al_sorted (lp_accounts lp)"
    and "distinct (map fst pools)"
    and "\<forall>(pid, pool) \<in> set pools. pool_ok (lp_accounts lp) pid pool \<and> pst_stake pool \<le> active"
    and "sum_list (map (\<lambda>(pid, pool). amount_of (lp_blocks lp) pid) pools) \<le> count"
  shows "\<exists>lp'. pay_leaders count avail active ts pp pools lp = Some lp' \<and>
    al_sorted (lp_accounts lp') \<and> stakes (lp_accounts lp') = stakes (lp_accounts lp) \<and>
    rewards_of (lp_accounts lp') + lp_effective lp = rewards_of (lp_accounts lp) + lp_effective lp' \<and>
    pots_complete (lp_accounts lp) pools (lp_pools lp') \<and>
    (\<forall>x. x \<notin> fst ` set pools \<longrightarrow> om_lookup (lp_pools lp') x = om_lookup (lp_pools lp) x) \<and>
    of_nat (lp_effective lp') + sum_list (map (due_of (lp_accounts lp) (lp_pools lp')) pools) \<le>
      of_nat (lp_effective lp) +
      (of_nat (sum_list (map (\<lambda>(pid, pool). amount_of (lp_blocks lp) pid) pools)) / of_nat count * of_nat avail :: rat)"
  using assms(2-)
proof (induction pools arbitrary: lp)
  case (Cons entry pools)
  obtain pid pool where entry: "entry = (pid, pool)" by fastforce
  let ?A = "lp_accounts lp"
  from Cons.prems(3,4) entry have ok: "pool_ok ?A pid pool" "pst_stake pool \<le> active"
    "amount_of (lp_blocks lp) pid \<le> count" by auto
  obtain lp1 pots where one: "apply_leader_rewards count avail active ts pp pool lp = Some (lp1, pots)"
    "of_nat (pw_pot pots) \<le> (of_nat (amount_of (lp_blocks lp) pid) / of_nat count * of_nat avail :: rat)"
    "pots_ok ?A pool pots" "al_sorted (lp_accounts lp1)" "stakes (lp_accounts lp1) = stakes ?A"
    "rewards_of (lp_accounts lp1) = rewards_of ?A + pw_leader pots"
    "lp_blocks lp1 = om_remove pid (lp_blocks lp)" "lp_pools lp1 = lp_pools lp" "lp_effective lp1 = lp_effective lp"
    using apply_leader_rewards_spec [OF assms(1) Cons.prems(1) ok] by auto
  define lp2 where "lp2 = lp1\<lparr>lp_effective := lp_effective lp1 + pw_leader pots,
    lp_pools := om_insert pid pots (lp_pools lp1)\<rparr>"
  have fresh: "pid \<notin> fst ` set pools" "distinct (map fst pools)" using Cons.prems(2) entry by auto
  have same: "stakes (lp_accounts lp2) = stakes ?A" using one(5) by (simp add: lp2_def)
  note cong = stakes_cong(4) [OF same] due_cong [OF same]
  have blocks: "sum_list (map (\<lambda>(x, p). amount_of (lp_blocks lp2) x) pools) =
      sum_list (map (\<lambda>(x, p). amount_of (lp_blocks lp) x) pools)"
    using fresh(1) by (intro arg_cong [where f = sum_list] map_cong)
      (auto simp: lp2_def one(7) amount_of_remove image_iff)
  obtain lp' where rest: "pay_leaders count avail active ts pp pools lp2 = Some lp'"
    "al_sorted (lp_accounts lp')" "stakes (lp_accounts lp') = stakes ?A"
    "rewards_of (lp_accounts lp') + lp_effective lp2 = rewards_of (lp_accounts lp2) + lp_effective lp'"
    "pots_complete ?A pools (lp_pools lp')"
    "\<forall>x. x \<notin> fst ` set pools \<longrightarrow> om_lookup (lp_pools lp') x = om_lookup (lp_pools lp2) x"
    "of_nat (lp_effective lp') + sum_list (map (due_of ?A (lp_pools lp')) pools) \<le>
      of_nat (lp_effective lp2) +
      (of_nat (sum_list (map (\<lambda>(x, p). amount_of (lp_blocks lp) x) pools)) / of_nat count * of_nat avail :: rat)"
    using Cons.IH [of lp2] Cons.prems(3,4) one(4,5) fresh(2) entry
    unfolding cong pots_complete_def blocks by (auto simp: lp2_def)
  have found: "om_lookup (lp_pools lp') pid = Some pots"
    using rest(6) fresh(1) by (simp add: lp2_def)
  have "of_nat (lp_effective lp') + (members_due ?A pool pots + sum_list (map (due_of ?A (lp_pools lp')) pools)) \<le>
      of_nat (lp_effective lp) + of_nat (pw_pot pots) +
      (of_nat (sum_list (map (\<lambda>(x, p). amount_of (lp_blocks lp) x) pools)) / of_nat count * of_nat avail :: rat)"
    using rest(7) one(3) one(9) by (simp add: pots_ok_def lp2_def)
  then have "of_nat (lp_effective lp') + (members_due ?A pool pots + sum_list (map (due_of ?A (lp_pools lp')) pools)) \<le>
      of_nat (lp_effective lp) +
      (of_nat (amount_of (lp_blocks lp) pid + sum_list (map (\<lambda>(x, p). amount_of (lp_blocks lp) x) pools)) /
        of_nat count * of_nat avail :: rat)"
    using one(2) by (simp add: add_divide_distrib distrib_right)
  then show ?case
    using rest one found entry fresh(1)
    by (auto simp: lp2_def [symmetric] pots_complete_def due_of_def)
      (auto simp: lp2_def)
qed (simp add: pots_complete_def)

section \<open>The pass over accounts\<close>

definition member_rate :: "(pool_id, pool_pots) omap \<Rightarrow> pool_id \<Rightarrow> pool_state \<Rightarrow> rat" where
  "member_rate pots pid pool =
    (case om_lookup pots pid of
       Some p \<Rightarrow> if pw_pot p \<le> pool_cost (pst_parameters pool) then 0 else shared_rewards pool (pw_pot p)
     | None \<Rightarrow> 0)"

definition member_cap :: "(pool_id, pool_pots) omap \<Rightarrow> credential \<times> account_state \<Rightarrow>
    pool_id \<times> pool_state \<Rightarrow> rat" where
  "member_cap pots = (\<lambda>(k, a) (pid, pool).
    if as_pool a = Some pid \<and> \<not> is_owner pool k then member_rate pots pid pool * of_nat (as_balance a) else 0)"

lemma due_of_members:
  assumes "pool_id (pst_parameters pool) = pid"
  shows "due_of accounts pots (pid, pool) = sum_list (map (\<lambda>x. member_cap pots x (pid, pool)) accounts)"
proof -
  have "sum_list (map (\<lambda>x. member_cap pots x (pid, pool)) accounts) =
      member_rate pots pid pool * of_nat (members_stake pool accounts)"
    using assms by (induction accounts) (auto simp: member_cap_def members_stake_def algebra_simps)
  then show ?thesis
    by (auto simp: due_of_def members_due_def member_rate_def split: option.splits)
qed

lemma balance_le_delegated:
  assumes "(k, a) \<in> set accounts" and "as_pool a = Some pid"
  shows "as_balance a \<le> delegated_stake accounts pid"
  unfolding delegated_stake_def
  using member_le_sum_list [of "as_balance a" "map (\<lambda>(k, a). if as_pool a = Some pid then as_balance a else 0) accounts"]
    assms by force

lemma pay_member_spec:
  assumes ok: "\<And>pid pool. as_pool a = Some pid \<Longrightarrow> om_lookup pools pid = Some pool \<Longrightarrow>
      pool_ok accounts pid pool \<and> as_balance a \<le> pst_stake pool"
    and pots: "pots_complete accounts (om_entries pools) pots" and "0 < ts"
  shows "\<exists>a' r. pay_member pools pots ts k a = Some (a', r) \<and> as_rewards a' = as_rewards a + r \<and>
    of_nat r \<le> sum_list (map (member_cap pots (k, a)) (om_entries pools))"
proof (cases "Option.bind (as_pool a) (om_lookup pools)")
  case None
  have "0 \<le> sum_list (map (member_cap pots (k, a)) (om_entries pools))"
  proof (rule sum_list_nonneg)
    fix x assume "x \<in> set (map (member_cap pots (k, a)) (om_entries pools))"
    then obtain pid pool where "om_lookup pools pid = Some pool" "x = member_cap pots (k, a) (pid, pool)"
      by (auto simp: om_entries_iff)
    with None show "0 \<le> x" by (cases "as_pool a") (auto simp: member_cap_def)
  qed
  then show ?thesis using None by (simp add: pay_member_def)
next
  case (Some pool)
  then obtain pid where pid: "as_pool a = Some pid" "om_lookup pools pid = Some pool"
    by (cases "as_pool a") auto
  note good = ok [OF pid, unfolded pool_ok_def]
  obtain p where p: "om_lookup pots pid = Some p" "pots_ok accounts pool p"
    using pots pid(2) by (force simp: pots_complete_def list_all_iff om_entries_iff split: option.splits)
  obtain r where r: "member_rewards pool k (pw_pot p) (as_balance a) ts = Some r"
    "if is_owner pool k \<or> pw_pot p \<le> pool_cost (pst_parameters pool) then r = 0
     else of_nat r \<le> shared_rewards pool (pw_pot p) * of_nat (as_balance a)"
    using member_rewards_bound [of pool ts "as_balance a" "pw_pot p" k] good p(2) assms(3)
    by (auto simp: pots_ok_def)
  have "sum_list (map (member_cap pots (k, a)) (om_entries pools)) =
      sum_list (map (\<lambda>(x, q). if x = pid then if is_owner q k then 0
        else member_rate pots pid q * of_nat (as_balance a) else 0) (om_entries pools))"
    by (intro arg_cong [where f = sum_list] map_cong) (auto simp: member_cap_def pid)
  also have "\<dots> = (if is_owner pool k then 0 else member_rate pots pid pool * of_nat (as_balance a))"
    using sum_list_lookup [OF strict_sorted_distinct [OF om_entries_sorted [of pools]], symmetric,
        of pid "\<lambda>q. if is_owner q k then 0 else member_rate pots pid q * of_nat (as_balance a)"] pid(2)
    by (simp add: om_lookup_entries)
  finally show ?thesis
    using Some r p good by (auto simp: pay_member_def apply_member_rewards_def member_rate_def)
qed

lemma pay_members_spec:
  assumes ok: "\<forall>(k, a) \<in> set xs. \<forall>pid pool. as_pool a = Some pid \<longrightarrow> om_lookup pools pid = Some pool \<longrightarrow>
      pool_ok accounts pid pool \<and> as_balance a \<le> pst_stake pool"
    and pots: "pots_complete accounts (om_entries pools) pots" and "0 < ts"
  shows "\<exists>xs' t. pay_members pools pots ts xs = Some (xs', t) \<and> rewards_of xs' = rewards_of xs + t \<and>
    map fst xs' = map fst xs \<and>
    of_nat t \<le> sum_list (map (\<lambda>x. sum_list (map (member_cap pots x) (om_entries pools))) xs)"
  using ok
proof (induction xs)
  case (Cons x xs)
  obtain k a where x: "x = (k, a)" by fastforce
  obtain a' r where one: "pay_member pools pots ts k a = Some (a', r)" "as_rewards a' = as_rewards a + r"
    "of_nat r \<le> sum_list (map (member_cap pots (k, a)) (om_entries pools))"
    using pay_member_spec [of a pools accounts pots ts k] Cons.prems x pots assms(3) by auto
  obtain xs' t where "pay_members pools pots ts xs = Some (xs', t)" "rewards_of xs' = rewards_of xs + t"
    "map fst xs' = map fst xs"
    "of_nat t \<le> sum_list (map (\<lambda>x. sum_list (map (member_cap pots x) (om_entries pools))) xs)"
    using Cons by auto
  then show ?case using one x by auto
qed simp

section \<open>The whole calculation\<close>

lemma count_blocks_aux:
  "fst (foldl (\<lambda>(total, per_pool) issuer. (total + 1, add_amount issuer 1 per_pool)) (n, m) issuers) =
      n + length issuers \<and>
   amount_of (snd (foldl (\<lambda>(total, per_pool) issuer. (total + 1, add_amount issuer 1 per_pool)) (n, m) issuers)) x =
      amount_of m x + count_list issuers x"
  by (induction issuers arbitrary: n m) auto

lemma count_blocks_spec:
  "fst (count_blocks issuers) = length issuers"
  "amount_of (snd (count_blocks issuers)) x = count_list issuers x"
  using count_blocks_aux [of 0 om_empty issuers x] by (simp_all add: count_blocks_def)

lemma sum_count_list:
  "distinct ks \<Longrightarrow> sum_list (map (count_list xs) ks) \<le> length xs"
proof (induction xs)
  case (Cons x xs)
  have "sum_list (map (count_list (x # xs)) ks) = sum_list (map (count_list xs) ks) + count_list ks x"
    by (induction ks) auto
  moreover have "count_list ks x \<le> 1" using Cons.prems by (induction ks) (auto simp: count_list_0_iff)
  ultimately show ?case using Cons.IH [OF Cons.prems] by (simp del: count_list.simps)
qed simp

text \<open>
  The conditions under which the calculation runs: an epoch has slots, some of
  the supply has left the reserves, all active stake is part of it, and the
  amounts fit in 64 bits.
\<close>

definition supply_ok :: "stake_summary \<Rightarrow> global_parameters \<Rightarrow> pots \<Rightarrow> bool" where
  "supply_ok ss g pots =
    (0 < epoch_length g \<and> max_lovelace_supply g \<le> u64_max \<and>
     pot_reserves pots + pot_fees pots \<le> u64_max \<and> pot_reserves pots < max_lovelace_supply g \<and>
     sd_active_stake (ss_stake_distribution ss) \<le> max_lovelace_supply g - pot_reserves pots)"

lemma summary_pool_ok:
  assumes "summary_ok ss" and "om_lookup (sd_pools (ss_stake_distribution ss)) pid = Some pool"
  shows "pool_ok (ss_accounts ss) pid pool" and "pst_stake pool \<le> sd_active_stake (ss_stake_distribution ss)"
  using assms om_sum_member [OF assms(2), of pst_stake] by (auto simp: summary_ok_def om_entries_iff)

lemma rewards_of_zero: "\<forall>(k, a) \<in> set xs. as_rewards a = 0 \<Longrightarrow> rewards_of xs = 0"
  by (induction xs) auto

lemma distribution_bound:
  assumes ok: "summary_ok ss" and pass: "pass_ok pp count avail (sd_active_stake (ss_stake_distribution ss)) ts"
    and blocks: "sum_list (map (\<lambda>(pid, pool). amount_of blocks pid) (om_entries (sd_pools (ss_stake_distribution ss)))) \<le> count"
  shows "\<exists>lp xs t. pay_leaders count avail (sd_active_stake (ss_stake_distribution ss)) ts pp
      (om_entries (sd_pools (ss_stake_distribution ss)))
      \<lparr>lp_accounts = ss_accounts ss, lp_recipients = om_empty, lp_blocks = blocks,
       lp_pools = om_empty, lp_effective = 0\<rparr> = Some lp \<and>
    pay_members (sd_pools (ss_stake_distribution ss)) (lp_pools lp) ts (lp_accounts lp) = Some (xs, t) \<and>
    rewards_of xs = lp_effective lp + t \<and> al_sorted xs \<and> lp_effective lp + t \<le> avail"
proof -
  let ?pools = "sd_pools (ss_stake_distribution ss)" and ?A = "ss_accounts ss"
  let ?n = "sum_list (map (\<lambda>(pid, pool). amount_of blocks pid) (om_entries ?pools))"
  let ?lp = "\<lparr>lp_accounts = ?A, lp_recipients = om_empty, lp_blocks = blocks, lp_pools = om_empty, lp_effective = 0\<rparr>"
  have sorted: "al_sorted ?A" and zero: "rewards_of ?A = 0"
    using ok rewards_of_zero [of ?A] by (auto simp: summary_ok_def)
  have pre: "\<forall>(pid, pool) \<in> set (om_entries ?pools). pool_ok ?A pid pool \<and>
      pst_stake pool \<le> sd_active_stake (ss_stake_distribution ss)"
    using summary_pool_ok [OF ok] by (auto simp: om_entries_iff)
  obtain lp where lp: "pay_leaders count avail (sd_active_stake (ss_stake_distribution ss)) ts pp (om_entries ?pools) ?lp = Some lp"
    "al_sorted (lp_accounts lp)" "stakes (lp_accounts lp) = stakes ?A"
    "rewards_of (lp_accounts lp) = lp_effective lp"
    "pots_complete ?A (om_entries ?pools) (lp_pools lp)"
    "of_nat (lp_effective lp) + sum_list (map (due_of ?A (lp_pools lp)) (om_entries ?pools)) \<le>
      (of_nat ?n / of_nat count * of_nat avail :: rat)"
    using pay_leaders_spec [OF pass, of ?lp "om_entries ?pools", unfolded leader_pass.select_convs,
        OF sorted om_entries_distinct pre blocks] zero by (auto simp del: times_divide_eq_left)
  have good: "\<forall>(k, a) \<in> set (lp_accounts lp). \<forall>pid pool. as_pool a = Some pid \<longrightarrow> om_lookup ?pools pid = Some pool \<longrightarrow>
      pool_ok ?A pid pool \<and> as_balance a \<le> pst_stake pool"
    using summary_pool_ok(1) [OF ok] balance_le_delegated [of _ _ "lp_accounts lp"] stakes_cong(1) [OF lp(3)]
    by (fastforce simp: pool_ok_def)
  obtain xs t where xs: "pay_members ?pools (lp_pools lp) ts (lp_accounts lp) = Some (xs, t)"
    "rewards_of xs = rewards_of (lp_accounts lp) + t" "map fst xs = map fst (lp_accounts lp)"
    "of_nat t \<le> sum_list (map (\<lambda>x. sum_list (map (member_cap (lp_pools lp) x) (om_entries ?pools))) (lp_accounts lp))"
    using pay_members_spec [OF good lp(5), of ts] pass by (auto simp: pass_ok_def)
  note xs(4)
  also have "sum_list (map (\<lambda>x. sum_list (map (member_cap (lp_pools lp) x) (om_entries ?pools))) (lp_accounts lp)) =
      sum_list (map (\<lambda>y. sum_list (map (\<lambda>x. member_cap (lp_pools lp) x y) (lp_accounts lp))) (om_entries ?pools))"
    by (rule sum_list_swap)
  also have "\<dots> = sum_list (map (due_of ?A (lp_pools lp)) (om_entries ?pools))"
  proof (intro arg_cong [where f = sum_list] map_cong refl)
    fix y assume "y \<in> set (om_entries ?pools)"
    moreover obtain pid pool where y: "y = (pid, pool)" by fastforce
    ultimately have "pool_ok ?A pid pool" using pre by auto
    then show "sum_list (map (\<lambda>x. member_cap (lp_pools lp) x y) (lp_accounts lp)) = due_of ?A (lp_pools lp) y"
      using y due_of_members [of pool pid "lp_accounts lp" "lp_pools lp"] due_cong(2) [OF lp(3)]
      by (simp add: pool_ok_def)
  qed
  finally have "of_nat (lp_effective lp + t) \<le> (of_nat ?n / of_nat count * of_nat avail :: rat)" using lp(6) by simp
  also have "\<dots> \<le> of_nat avail"
    using blocks pass by (intro mult_left_le_one_le) (auto simp: pass_ok_def)
  finally have "lp_effective lp + t \<le> avail" by simp
  then show ?thesis using lp xs by auto
qed

text \<open>
  The pots of an epoch: the incentives come out of the reserves, and with the
  fees they are divided into the tax and what is available.
\<close>

lemma epoch_pots:
  assumes "params_ok' pp" and "reserves + fees \<le> u64_max" and "0 \<le> efficiency"
  shows "\<exists>incentives tax.
    floor_to_lovelace (min 1 efficiency * monetary_expansion_rate pp * of_nat reserves) = Some incentives \<and>
    floor_to_lovelace (treasury_expansion_rate pp * of_nat (incentives + fees)) = Some tax \<and>
    incentives \<le> reserves \<and> tax \<le> incentives + fees"
proof -
  have rate: "0 \<le> min 1 efficiency * monetary_expansion_rate pp" "min 1 efficiency * monetary_expansion_rate pp \<le> 1"
    using assms(1,3) by (auto simp: params_ok'_def intro: mult_le_one)
  have "\<exists>x. floor_to_lovelace (min 1 efficiency * monetary_expansion_rate pp * of_nat reserves) = Some x \<and>
      of_nat x \<le> min 1 efficiency * monetary_expansion_rate pp * of_nat reserves \<and> x \<le> reserves"
    using rate assms(2) by (intro floor_to_lovelace_bound mult_left_le_one_le) auto
  then obtain incentives where inc:
    "floor_to_lovelace (min 1 efficiency * monetary_expansion_rate pp * of_nat reserves) = Some incentives"
    "incentives \<le> reserves" by blast
  have "\<exists>x. floor_to_lovelace (treasury_expansion_rate pp * of_nat (incentives + fees)) = Some x \<and>
      of_nat x \<le> treasury_expansion_rate pp * of_nat (incentives + fees) \<and> x \<le> incentives + fees"
    using assms(1,2) inc(2) by (intro floor_to_lovelace_bound mult_left_le_one_le) (auto simp: params_ok'_def)
  with inc show ?thesis by blast
qed

lemma rewards_summary_new_spec:
  assumes "summary_ok ss" and "params_ok' pp" and "supply_ok ss g pots"
  shows "\<exists>rs. rewards_summary_new ss g pp issuers pots = Some rs \<and>
    rs_effective_rewards rs \<le> rs_available_rewards rs \<and>
    rewards_of (rs_accounts rs) = rs_effective_rewards rs \<and> al_sorted (rs_accounts rs) \<and>
    rs_available_rewards rs + rs_treasury_tax rs = rs_incentives rs + pot_fees pots \<and>
    rs_incentives rs \<le> pot_reserves pots"
proof -
  let ?pools = "sd_pools (ss_stake_distribution ss)" and ?active = "sd_active_stake (ss_stake_distribution ss)"
  let ?n = "length issuers" and ?ts = "max_lovelace_supply g - pot_reserves pots"
  let ?eff = "of_nat (?n * active_slot_coeff_inverse g) / of_nat (epoch_length g) :: rat"
  note sup = assms(3) [unfolded supply_ok_def]
  obtain incentives tax where pots:
    "floor_to_lovelace (min 1 ?eff * monetary_expansion_rate pp * of_nat (pot_reserves pots)) = Some incentives"
    "floor_to_lovelace (treasury_expansion_rate pp * of_nat (incentives + pot_fees pots)) = Some tax"
    "incentives \<le> pot_reserves pots" "tax \<le> incentives + pot_fees pots"
    using epoch_pots [OF assms(2), of "pot_reserves pots" "pot_fees pots" ?eff] sup by auto
  let ?avail = "incentives + pot_fees pots - tax"
  obtain blocks where blocks: "count_blocks issuers = (?n, blocks)" "\<And>x. amount_of blocks x = count_list issuers x"
    using count_blocks_spec [of issuers] by (cases "count_blocks issuers") auto
  have pass: "pass_ok pp (max ?n 1) ?avail ?active ?ts"
    using assms(2) sup pots(3) by (auto simp: pass_ok_def)
  have "sum_list (map (\<lambda>(pid, pool). amount_of blocks pid) (om_entries ?pools)) \<le> max ?n 1"
    using sum_count_list [of "map fst (om_entries ?pools)" issuers]
    by (simp add: blocks(2) comp_def case_prod_unfold le_max_iff_disj)
  then obtain lp xs t where paid:
    "pay_leaders (max ?n 1) ?avail ?active ?ts pp (om_entries ?pools)
      \<lparr>lp_accounts = ss_accounts ss, lp_recipients = om_empty, lp_blocks = blocks,
       lp_pools = om_empty, lp_effective = 0\<rparr> = Some lp"
    "pay_members ?pools (lp_pools lp) ?ts (lp_accounts lp) = Some (xs, t)"
    "rewards_of xs = lp_effective lp + t" "al_sorted xs" "lp_effective lp + t \<le> ?avail"
    using distribution_bound [OF assms(1) pass] by blast
  have subs: "u64_add incentives (pot_fees pots) = incentives + pot_fees pots"
    "u64_sub (incentives + pot_fees pots) tax = ?avail"
    "u64_sub (max_lovelace_supply g) (pot_reserves pots) = ?ts"
    using sup pots by (auto simp: u64_max_def)
  have "rewards_summary_new ss g pp issuers pots = Some \<lparr>rs_epoch = sd_epoch (ss_stake_distribution ss),
      rs_incentives = incentives, rs_treasury_tax = tax, rs_available_rewards = ?avail,
      rs_effective_rewards = lp_effective lp + t, rs_accounts = xs, rs_leader_recipients = lp_recipients lp\<rparr>"
    using pots(1,2) paid(1,2) sup
    by (simp add: rewards_summary_new_def blocks(1) Let_def safe_ratio_def subs)
  then show ?thesis using paid pots by auto
qed

section \<open>From computed to effective rewards\<close>

text \<open>
  The type parameter \<open>STEP\<close> of \<open>Rewards\<close> decides the type of \<open>unclaimed\<close>: the unit
  for computed rewards and a set of credentials for effective ones.
\<close>

record computed_rewards =
  cr_delta_reserves :: lovelace
  cr_delta_treasury :: lovelace
  cr_total_rewards :: lovelace
  cr_accounts :: "(credential, account_state) sorted_pairs"
  cr_pools_owners :: "credential oset"

record effective_rewards = computed_rewards +
  er_unclaimed :: "credential oset"

datatype rewards_state =
    NotReady
  | ComputedRewards computed_rewards
  | EffectiveRewards effective_rewards

definition computed_of_summary :: "rewards_summary \<Rightarrow> computed_rewards" where
  "computed_of_summary rs =
    \<lparr>cr_delta_reserves = rs_delta_reserves rs, cr_delta_treasury = rs_delta_treasury rs,
     cr_total_rewards = rs_effective_rewards rs, cr_accounts = rs_accounts rs,
     cr_pools_owners = rs_leader_recipients rs\<rparr>"

definition cr_unclaimed_rewards :: "computed_rewards \<Rightarrow> credential list \<Rightarrow> credential oset" where
  "cr_unclaimed_rewards cr unreachable =
    os_extend om_empty (filter (\<lambda>k. case sp_get (cr_accounts cr) k of Some st \<Rightarrow> 0 < as_rewards st | None \<Rightarrow> False) unreachable)"

definition effective_new :: "computed_rewards \<Rightarrow> credential oset \<Rightarrow> effective_rewards" where
  "effective_new cr unclaimed =
    \<lparr>cr_delta_reserves = cr_delta_reserves cr, cr_delta_treasury = cr_delta_treasury cr,
     cr_total_rewards = cr_total_rewards cr, cr_accounts = cr_accounts cr,
     cr_pools_owners = cr_pools_owners cr, er_unclaimed = unclaimed\<rparr>"

definition to_computed :: "effective_rewards \<Rightarrow> computed_rewards" where
  "to_computed er =
    \<lparr>cr_delta_reserves = cr_delta_reserves er, cr_delta_treasury = cr_delta_treasury er,
     cr_total_rewards = cr_total_rewards er, cr_accounts = cr_accounts er,
     cr_pools_owners = cr_pools_owners er\<rparr>"

definition reward_of :: "effective_rewards \<Rightarrow> credential \<Rightarrow> lovelace" where
  "reward_of er k =
    (if om_contains (er_unclaimed er) k then 0
     else case sp_get (cr_accounts er) k of Some st \<Rightarrow> as_rewards st | None \<Rightarrow> 0)"

definition total_unclaimed_rewards :: "effective_rewards \<Rightarrow> lovelace" where
  "total_unclaimed_rewards er =
    sum_list (map (\<lambda>k. case sp_get (cr_accounts er) k of Some st \<Rightarrow> as_rewards st | None \<Rightarrow> 0)
      (om_keys (er_unclaimed er)))"

definition er_delta_treasury :: "effective_rewards \<Rightarrow> lovelace" where
  "er_delta_treasury er = cr_delta_treasury er + total_unclaimed_rewards er"

fun take_computed_rewards :: "rewards_state \<Rightarrow> computed_rewards option \<times> rewards_state" where
  "take_computed_rewards NotReady = (None, NotReady)" |
  "take_computed_rewards (EffectiveRewards _) = (None, NotReady)" |
  "take_computed_rewards (ComputedRewards c) = (Some c, NotReady)"

fun rollback_rewards :: "rewards_state \<Rightarrow> rewards_state" where
  "rollback_rewards NotReady = NotReady" |
  "rollback_rewards (ComputedRewards c) = ComputedRewards c" |
  "rollback_rewards (EffectiveRewards e) = ComputedRewards (to_computed e)"

lemma to_computed_effective [simp]: "to_computed (effective_new cr u) = cr"
  by (simp add: to_computed_def effective_new_def)

section \<open>Properties\<close>

text \<open>
  C2. From a snapshot of the ledger whose governance summary is defined, the calculation
  of rewards never panics, whatever blocks were issued: what it pays does not exceed
  what is available, the rewards of all accounts add up to what it pays, incentives
  and fees are what is available plus the tax, and the incentives are in the reserves.
\<close>

theorem rewards_never_exceed_available:
  assumes "governance_summary_new db h = Ok gs" and "distinct (map fst (sn_accounts db))"
    and "pool_rows_ok (sn_pools db)" and "params_ok' pp" and "supply_ok (stake_summary_new db gs) g pots"
  shows "\<exists>rs. rewards_summary_new (stake_summary_new db gs) g pp issuers pots = Some rs \<and>
    rs_effective_rewards rs \<le> rs_available_rewards rs \<and>
    rewards_of (rs_accounts rs) = rs_effective_rewards rs \<and>
    rs_available_rewards rs + rs_treasury_tax rs = rs_incentives rs + pot_fees pots \<and>
    rs_incentives rs \<le> pot_reserves pots"
  using rewards_summary_new_spec [OF stake_summary_new_ok [OF assms(1-3)] assms(4,5), of issuers] by blast

definition example_globals :: global_parameters where
  "example_globals = \<lparr>consensus_security_param = 2, epoch_length_scale_factor = 2,
     active_slot_coeff_inverse = 2, max_lovelace_supply = 200\<rparr>"

definition example_pots :: pots where
  "example_pots = \<lparr>pot_treasury = 50, pot_reserves = 100, pot_fees = 10, pot_donations = 0\<rparr>"

lemma example_pool_rows: "pool_rows_ok (sn_pools example_snapshot)"
  by (simp add: pool_rows_ok_def example_snapshot_def pool_row_new_def example_params_def)

lemma example_params_ok': "params_ok' example_parameters"
  by (simp add: params_ok'_def example_parameters_def)

lemma example_supply: "supply_ok (stake_summary_new example_snapshot example_governance) example_globals example_pots"
  unfolding supply_ok_def example_active_stake
  by (simp add: example_globals_def example_pots_def epoch_length_def u64_max_def)

theorem rewards_never_exceed_available_witness:
  "\<exists>rs. rewards_summary_new (stake_summary_new example_snapshot example_governance) example_globals
      example_parameters [7, 7] example_pots = Some rs \<and>
    rs_effective_rewards rs \<le> rs_available_rewards rs \<and>
    rewards_of (rs_accounts rs) = rs_effective_rewards rs \<and>
    rs_available_rewards rs + rs_treasury_tax rs = rs_incentives rs + pot_fees example_pots \<and>
    rs_incentives rs \<le> pot_reserves example_pots"
  by (rule rewards_never_exceed_available [OF example_governance_ok example_accounts_distinct
        example_pool_rows example_params_ok' example_supply])

text \<open>
  C25. What leaves the reserves, together with the fees, is what enters the treasury and
  what accounts receive, as long as the fees are covered by the tax and the rewards;
  when they are not, the subtraction of \<open>delta_reserves\<close> goes below zero and wraps
  around, so that the node would take almost \<open>2\<^sup>6\<^sup>4\<close> lovelace from its reserves.
\<close>

theorem reserves_delta_balances:
  assumes "summary_ok ss" and "params_ok' pp" and "supply_ok ss g pots"
    and "rewards_summary_new ss g pp issuers pots = Some rs"
  shows "if pot_fees pots \<le> rs_effective_rewards rs + rs_treasury_tax rs
    then rs_delta_reserves rs + pot_fees pots = rs_delta_treasury rs + rs_effective_rewards rs
    else rs_delta_reserves rs = 2 ^ 64 - (pot_fees pots - (rs_effective_rewards rs + rs_treasury_tax rs))"
proof -
  have rs: "rs_effective_rewards rs \<le> rs_available_rewards rs"
    "rs_available_rewards rs + rs_treasury_tax rs = rs_incentives rs + pot_fees pots"
    "rs_incentives rs \<le> pot_reserves pots"
    using rewards_summary_new_spec [OF assms(1-3), of issuers] assms(4) by auto
  have "pot_reserves pots + pot_fees pots \<le> u64_max" using assms(3) by (simp add: supply_ok_def)
  then have small: "rs_incentives rs < 2 ^ 64" "rs_effective_rewards rs < 2 ^ 64" "rs_available_rewards rs < 2 ^ 64"
    using rs by (simp_all add: u64_max_def)
  have "rs_incentives rs + rs_effective_rewards rs - rs_available_rewards rs < 2 ^ 64"
    using rs(1) small(1) by linarith
  then show ?thesis
    using rs u64_add_sub [OF small] by (auto simp: rs_delta_reserves_def rs_delta_treasury_def)
qed

lemma example_summary_ok: "summary_ok (stake_summary_new example_snapshot example_governance)"
  by (rule stake_summary_new_ok [OF example_governance_ok [of mainnet_era_history] example_accounts_distinct example_pool_rows])

theorem reserves_delta_balances_witness:
  "\<exists>rs. rewards_summary_new (stake_summary_new example_snapshot example_governance) example_globals
      example_parameters [] example_pots = Some rs \<and>
    (if pot_fees example_pots \<le> rs_effective_rewards rs + rs_treasury_tax rs
     then rs_delta_reserves rs + pot_fees example_pots = rs_delta_treasury rs + rs_effective_rewards rs
     else rs_delta_reserves rs = 2 ^ 64 - (pot_fees example_pots - (rs_effective_rewards rs + rs_treasury_tax rs)))"
  using rewards_summary_new_spec [OF example_summary_ok example_params_ok' example_supply, of "[]"]
    reserves_delta_balances [OF example_summary_ok example_params_ok' example_supply, of "[]"] by blast

section \<open>Rewards after parameter updates\<close>

text \<open>The last value that a sequence of updates gives to a parameter.\<close>

definition latest :: "(protocol_param_update \<Rightarrow> 'a option) \<Rightarrow> 'a \<Rightarrow> protocol_param_update list \<Rightarrow> 'a" where
  "latest get x us = last (x # List.map_filter get us)"

text \<open>The values of an update that the calculation of rewards depends on are in range.\<close>

definition update_ok :: "protocol_param_update \<Rightarrow> bool" where
  "update_ok u =
    (u_desired_number_of_stake_pools u \<noteq> Some 0 \<and> pred_option (\<lambda>x. 0 \<le> x) (u_pool_pledge_influence u) \<and>
     pred_option (\<lambda>x. 0 \<le> x \<and> x \<le> 1) (u_expansion_rate u) \<and> pred_option (\<lambda>x. 0 \<le> x \<and> x \<le> 1) (u_treasury_growth_rate u))"

lemma latest_snoc: "latest get x (us @ [u]) = set_field (latest get x us) (get u)"
  by (simp add: latest_def List.map_filter_def set_field_def split: option.splits)

lemma updates_rates:
  "monetary_expansion_rate (foldl pp_update pp us) = latest u_treasury_growth_rate (monetary_expansion_rate pp) us"
  "treasury_expansion_rate (foldl pp_update pp us) = latest u_expansion_rate (treasury_expansion_rate pp) us"
  by (induction us rule: rev_induct) (simp_all add: latest_snoc pp_update_def, simp_all add: latest_def List.map_filter_def)

lemma pp_update_params_ok: "params_ok' pp \<Longrightarrow> update_ok u \<Longrightarrow> params_ok' (pp_update pp u)"
  by (auto simp: params_ok'_def update_ok_def pp_update_def set_field_def split: option.splits)

lemma updates_params_ok: "params_ok' pp \<Longrightarrow> \<forall>u \<in> set us. update_ok u \<Longrightarrow> params_ok' (foldl pp_update pp us)"
  by (induction us arbitrary: pp) (simp_all add: pp_update_params_ok)

lemma floor_to_lovelace_value: "floor_to_lovelace r = Some x \<Longrightarrow> 0 \<le> r \<Longrightarrow> int x = \<lfloor>r\<rfloor>"
  by (auto simp: floor_to_lovelace_def split: if_splits)

lemma rewards_summary_pots:
  assumes "rewards_summary_new ss g pp issuers pots = Some rs" and "eff = of_nat (length issuers * active_slot_coeff_inverse g) / of_nat (epoch_length g)"
  shows "floor_to_lovelace (min 1 eff * monetary_expansion_rate pp * of_nat (pot_reserves pots)) = Some (rs_incentives rs)"
    and "floor_to_lovelace (treasury_expansion_rate pp * of_nat (u64_add (rs_incentives rs) (pot_fees pots))) = Some (rs_treasury_tax rs)"
  using assms count_blocks_spec(1) [of issuers]
  by (auto simp: rewards_summary_new_def safe_ratio_def Let_def split: prod.splits if_splits Option.bind_splits)

text \<open>
  C17. Any sequence of parameter updates in range, enacted one after the other, leaves a
  calculation of rewards that succeeds.  What it takes from the reserves follows the last
  treasury growth rate of the updates, and the tax for the treasury follows their last
  expansion rate: the two rates of an update act in each other's place, since an update
  is meant to set the monetary expansion with the expansion rate (key 10) and the
  treasury's share with the growth rate (key 11).
\<close>

theorem rewards_follow_exchanged_rates:
  assumes "summary_ok ss" and "supply_ok ss g pots" and "params_ok' pp" and "\<forall>u \<in> set us. update_ok u"
  shows "\<exists>rs. rewards_summary_new ss g (foldl pp_update pp us) issuers pots = Some rs \<and>
    int (rs_incentives rs) =
      \<lfloor>min 1 (of_nat (length issuers * active_slot_coeff_inverse g) / of_nat (epoch_length g)) *
        latest u_treasury_growth_rate (monetary_expansion_rate pp) us * of_nat (pot_reserves pots)\<rfloor> \<and>
    int (rs_treasury_tax rs) =
      \<lfloor>latest u_expansion_rate (treasury_expansion_rate pp) us * of_nat (rs_incentives rs + pot_fees pots)\<rfloor>"
proof -
  let ?pp = "foldl pp_update pp us"
  have ok: "params_ok' ?pp" by (rule updates_params_ok [OF assms(3,4)])
  obtain rs where rs: "rewards_summary_new ss g ?pp issuers pots = Some rs" "rs_incentives rs \<le> pot_reserves pots"
    using rewards_summary_new_spec [OF assms(1) ok assms(2)] by blast
  have "pot_reserves pots + pot_fees pots < 2 ^ 64" using assms(2) by (simp add: supply_ok_def u64_max_def)
  then have total: "u64_add (rs_incentives rs) (pot_fees pots) = rs_incentives rs + pot_fees pots" using rs(2) by simp
  note pots = rewards_summary_pots [OF rs(1) refl, unfolded total]
  have rates: "0 \<le> monetary_expansion_rate ?pp" "0 \<le> treasury_expansion_rate ?pp" using ok by (simp_all add: params_ok'_def)
  show ?thesis
    using rs(1) floor_to_lovelace_value [OF pots(1)] floor_to_lovelace_value [OF pots(2)] rates
    unfolding updates_rates by (simp add: zero_le_divide_iff)
qed

text \<open>
  An update to an expansion rate of zero: the two blocks of the epoch still take a
  quarter of the reserves, and the treasury gets nothing.
\<close>

theorem rewards_follow_exchanged_rates_witness:
  "\<exists>rs. rewards_summary_new (stake_summary_new example_snapshot example_governance) example_globals
      (foldl pp_update example_parameters [no_update\<lparr>u_expansion_rate := Some 0\<rparr>]) [7, 7] example_pots = Some rs \<and>
    rs_incentives rs = 25 \<and> rs_treasury_tax rs = 0"
proof -
  let ?u = "no_update\<lparr>u_expansion_rate := Some 0\<rparr>"
  have "update_ok ?u" by (simp add: update_ok_def no_update_def)
  moreover have l: "latest u_treasury_growth_rate (monetary_expansion_rate example_parameters) [?u] = 1 / 2"
      "latest u_expansion_rate (treasury_expansion_rate example_parameters) [?u] = 0"
    by (simp_all add: latest_def List.map_filter_def no_update_def example_parameters_def)
  moreover have "epoch_length example_globals = 8" "active_slot_coeff_inverse example_globals = 2" "pot_reserves example_pots = 100"
    by (simp_all add: example_globals_def epoch_length_def example_pots_def)
  ultimately show ?thesis
    using rewards_follow_exchanged_rates [OF example_summary_ok example_supply example_params_ok', of "[?u]" "[7, 7]", unfolded l]
    by auto
qed

end
