(* ===== verification/Ledger_Store.thy ===== *)
theory Ledger_Store
  imports Volatile_Aggregate Rewards
begin

text \<open>
  The stable store of the ledger: the columns of
  \<open>amaru-stores/src/rocksdb/ledger/columns/*.rs\<close>, the transactional operations of
  \<open>amaru-stores/src/rocksdb/mod.rs\<close>, and how the fragment of a block becomes a
  store update and is saved (\<open>state/volatile/fragment.rs\<close>, \<open>State::apply_block\<close>).
  A column is a map from its keys to its rows; the failures of the database
  itself are left out, the errors and panics of the code are values.
\<close>

section \<open>The store\<close>

datatype epoch_transition_progress = EpochEnded | SnapshotTaken

datatype store_error =
    InternalError era_history_error
  | MissingKey string
  | AssertionFailed
  | Unreachable

record 'out ledger_store =
  st_incremental_save :: bool
  st_tip :: "point option"
  st_progress :: "epoch_transition_progress option"
  st_protocol_parameters :: "protocol_parameters option"
  st_constitutional_committee :: "cc_status option"
  st_constitution :: "constitution option"
  st_proposals_roots :: "proposals_roots option"
  st_governance_activity :: "nat option"
  st_pots :: pots
  st_utxo :: "(tx_input, 'out) omap"
  st_pools :: "(pool_id, pool_row) omap"
  st_accounts :: "(credential, account_row) omap"
  st_recently_unregistered :: "(credential, epoch) omap"
  st_dreps :: "(credential, drep_row) omap"
  st_cc_members :: "(credential, cc_member_row) omap"
  st_proposals :: "(proposal_id, proposal_row) omap"
  st_recently_pruned :: "(proposal_id, ratification_status) omap"
  st_votes :: "(ballot_id, ballot) omap"
  st_slots :: "(slot, pool_id) omap"

section \<open>Columns\<close>

subsection \<open>Accounts\<close>

datatype account_value =
    Create "(pool_id \<times> cert_pointer) resettable" "(drep \<times> cert_pointer) resettable" lovelace lovelace
  | Update "(pool_id \<times> cert_pointer) resettable" "(drep \<times> cert_pointer) resettable"

definition set_delegations ::
  "(pool_id \<times> cert_pointer) resettable \<Rightarrow> (drep \<times> cert_pointer) resettable \<Rightarrow> account_row \<Rightarrow> account_row" where
  "set_delegations pool drep row =
    row\<lparr>arow_pool := snd (set_or_reset pool (arow_pool row)), arow_drep := snd (set_or_reset drep (arow_drep row))\<rparr>"

fun accounts_add ::
  "(credential \<times> account_value) list \<Rightarrow> 'out ledger_store \<Rightarrow> (store_error, 'out ledger_store) result" where
  "accounts_add [] st = Ok st" |
  "accounts_add ((credential, Create pool drep deposit rewards) # rows) st =
    accounts_add rows
      (st\<lparr>st_accounts := om_insert credential
            (set_delegations pool drep
              \<lparr>arow_pool = None, arow_deposit = deposit, arow_drep = None, arow_rewards = rewards\<rparr>)
            (st_accounts st),
          st_recently_unregistered := om_remove credential (st_recently_unregistered st)\<rparr>)" |
  "accounts_add ((credential, Update pool drep) # rows) st =
    (case om_lookup (st_accounts st) credential of
       Some row \<Rightarrow> accounts_add rows
         (st\<lparr>st_accounts := om_insert credential (set_delegations pool drep row) (st_accounts st)\<rparr>)
     | None \<Rightarrow> Err Unreachable)"

definition accounts_reset_many :: "credential list \<Rightarrow> 'out ledger_store \<Rightarrow> 'out ledger_store" where
  "accounts_reset_many rows st =
    foldl (\<lambda>st credential.
        case om_lookup (st_accounts st) credential of
          Some row \<Rightarrow> st\<lparr>st_accounts := om_insert credential (row\<lparr>arow_rewards := 0\<rparr>) (st_accounts st)\<rparr>
        | None \<Rightarrow> st) st rows"

text \<open>\<open>set_rewards\<close> returns what could not be allocated to the account.\<close>

definition accounts_set_rewards ::
  "credential \<Rightarrow> (lovelace \<Rightarrow> lovelace) \<Rightarrow> 'out ledger_store \<Rightarrow> lovelace \<times> 'out ledger_store" where
  "accounts_set_rewards credential f st =
    (case om_lookup (st_accounts st) credential of
       Some row \<Rightarrow>
         (0, st\<lparr>st_accounts := om_insert credential (row\<lparr>arow_rewards := f (arow_rewards row)\<rparr>) (st_accounts st)\<rparr>)
     | None \<Rightarrow> (f 0, st))"

definition accounts_remove :: "credential list \<Rightarrow> epoch \<Rightarrow> 'out ledger_store \<Rightarrow> 'out ledger_store" where
  "accounts_remove rows epoch st =
    foldl (\<lambda>st credential.
        st\<lparr>st_recently_unregistered := om_insert credential epoch (st_recently_unregistered st),
           st_accounts := om_remove credential (st_accounts st)\<rparr>) st rows"

definition prune_recently_unregistered_accounts :: "epoch \<Rightarrow> 'out ledger_store \<Rightarrow> 'out ledger_store" where
  "prune_recently_unregistered_accounts epoch st =
    st\<lparr>st_recently_unregistered :=
      om_filter (\<lambda>_ unregistered_at. \<not> unregistered_at + 3 \<le> epoch) (st_recently_unregistered st)\<rparr>"

subsection \<open>Delegate representatives\<close>

text \<open>
  A known representative registers again or only updates its anchor; an unknown one
  must come with a registration.
\<close>

fun drep_row_on :: "epoch \<Rightarrow> drep_row option \<Rightarrow> drep_registration option \<Rightarrow> drep_row option" where
  "drep_row_on valid_until_on_update (Some row) (Some r) =
    Some (row\<lparr>drow_deposit := dr_deposit r, drow_registered_at := dr_registered_at r,
      drow_valid_until := dr_valid_until r\<rparr>)" |
  "drep_row_on valid_until_on_update (Some row) None = Some (row\<lparr>drow_valid_until := valid_until_on_update\<rparr>)" |
  "drep_row_on valid_until_on_update None (Some r) =
    Some \<lparr>drow_deposit = dr_deposit r, drow_anchor = None, drow_registered_at = dr_registered_at r,
      drow_valid_until = dr_valid_until r\<rparr>" |
  "drep_row_on valid_until_on_update None None = None"

fun dreps_add ::
  "epoch \<Rightarrow> (credential \<times> anchor resettable \<times> drep_registration option) list \<Rightarrow> 'out ledger_store \<Rightarrow>
    'out ledger_store" where
  "dreps_add valid_until_on_update [] st = st" |
  "dreps_add valid_until_on_update ((credential, anchor, registration) # rows) st =
    dreps_add valid_until_on_update rows
      (case drep_row_on valid_until_on_update (om_lookup (st_dreps st) credential) registration of
         Some row \<Rightarrow>
           st\<lparr>st_dreps := om_insert credential
                (row\<lparr>drow_anchor := snd (set_or_reset anchor (drow_anchor row))\<rparr>) (st_dreps st)\<rparr>
       | None \<Rightarrow> st)"

definition dreps_set_valid_until :: "credential oset \<Rightarrow> epoch \<Rightarrow> 'out ledger_store \<Rightarrow> 'out ledger_store" where
  "dreps_set_valid_until credentials valid_until st =
    foldl (\<lambda>st credential.
        case om_lookup (st_dreps st) credential of
          Some row \<Rightarrow> st\<lparr>st_dreps := om_insert credential (row\<lparr>drow_valid_until := valid_until\<rparr>) (st_dreps st)\<rparr>
        | None \<Rightarrow> st) st (om_keys credentials)"

definition dreps_remove :: "(credential \<times> cert_pointer) list \<Rightarrow> 'out ledger_store \<Rightarrow> 'out ledger_store" where
  "dreps_remove rows st =
    foldl (\<lambda>st (drep, _).
        if om_contains (st_dreps st) drep then st\<lparr>st_dreps := om_remove drep (st_dreps st)\<rparr> else st) st rows"

definition dreps_reactivate :: "nat \<Rightarrow> epoch \<Rightarrow> 'out ledger_store \<Rightarrow> 'out ledger_store" where
  "dreps_reactivate dormant_epochs current_epoch st =
    st\<lparr>st_dreps := om_map (\<lambda>_ row.
        let actual_expiry = drow_valid_until row + dormant_epochs in
        if current_epoch \<le> actual_expiry then row\<lparr>drow_valid_until := actual_expiry\<rparr> else row) (st_dreps st)\<rparr>"

subsection \<open>Committee members\<close>

definition cc_members_upsert ::
  "(credential \<times> cc_member_status resettable \<times> epoch resettable) list \<Rightarrow> 'out ledger_store \<Rightarrow>
    'out ledger_store" where
  "cc_members_upsert rows st =
    foldl (\<lambda>st (cold_credential, status, valid_until).
        let row = (case om_lookup (st_cc_members st) cold_credential of
                     Some row \<Rightarrow> row
                   | None \<Rightarrow> \<lparr>ccrow_status = None, ccrow_valid_until = None\<rparr>)
        in st\<lparr>st_cc_members := om_insert cold_credential
             (row\<lparr>ccrow_valid_until := snd (set_or_reset valid_until (ccrow_valid_until row)),
                  ccrow_status := snd (set_or_reset status (ccrow_status row))\<rparr>) (st_cc_members st)\<rparr>) st rows"

subsection \<open>Pools\<close>

text \<open>
  \<open>Row::extend\<close> splices the encoded certificate before the final break of the
  encoded row, that is, appends it to the pending certificates.
\<close>

definition pool_row_extend :: "pool_row \<Rightarrow> pool_certificate \<Rightarrow> pool_row" where
  "pool_row_extend row certificate =
    row\<lparr>pr_pending_certificates := pr_pending_certificates row @ [certificate]\<rparr>"

definition pools_add :: "pool_registration list \<Rightarrow> 'out ledger_store \<Rightarrow> 'out ledger_store" where
  "pools_add rows st =
    foldl (\<lambda>st (params, registered_at, deposit).
        st\<lparr>st_pools := om_insert (pool_id params)
             (case om_lookup (st_pools st) (pool_id params) of
                None \<Rightarrow> pool_row_new registered_at deposit params
              | Some existing \<Rightarrow> pool_row_extend existing (Registration params)) (st_pools st)\<rparr>) st rows"

definition pools_remove :: "(pool_id \<times> epoch) list \<Rightarrow> 'out ledger_store \<Rightarrow> 'out ledger_store" where
  "pools_remove rows st =
    foldl (\<lambda>st (pool, epoch).
        case om_lookup (st_pools st) pool of
          None \<Rightarrow> st
        | Some existing \<Rightarrow> st\<lparr>st_pools := om_insert pool (pool_row_extend existing (Retirement epoch)) (st_pools st)\<rparr>)
      st rows"

subsection \<open>Outputs, slots, proposals and votes\<close>

definition utxo_add :: "(tx_input \<times> 'out) list \<Rightarrow> 'out ledger_store \<Rightarrow> 'out ledger_store" where
  "utxo_add rows st = foldl (\<lambda>st (i, out). st\<lparr>st_utxo := om_insert i out (st_utxo st)\<rparr>) st rows"

definition utxo_remove :: "tx_input list \<Rightarrow> 'out ledger_store \<Rightarrow> 'out ledger_store" where
  "utxo_remove rows st = foldl (\<lambda>st i. st\<lparr>st_utxo := om_remove i (st_utxo st)\<rparr>) st rows"

definition slots_put :: "slot \<Rightarrow> pool_id \<Rightarrow> 'out ledger_store \<Rightarrow> 'out ledger_store" where
  "slots_put slot issuer st = st\<lparr>st_slots := om_insert slot issuer (st_slots st)\<rparr>"

definition proposals_add ::
  "(proposal_id \<times> proposal_row) list \<Rightarrow> 'out ledger_store \<Rightarrow> nat \<times> 'out ledger_store" where
  "proposals_add rows st =
    foldl (\<lambda>(n, st) (k, row). (n + 1, st\<lparr>st_proposals := om_insert k row (st_proposals st)\<rparr>)) (0, st) rows"

definition votes_iter_by_proposal :: "proposal_id \<Rightarrow> 'out ledger_store \<Rightarrow> ballot_id list" where
  "votes_iter_by_proposal proposal st = filter (\<lambda>(p, _). p = proposal) (om_keys (st_votes st))"

definition proposals_remove :: "proposal_id list \<Rightarrow> 'out ledger_store \<Rightarrow> 'out ledger_store" where
  "proposals_remove proposals st =
    foldl (\<lambda>st k.
        let st' = foldl (\<lambda>st vote. st\<lparr>st_votes := om_remove vote (st_votes st)\<rparr>) st (votes_iter_by_proposal k st)
        in st'\<lparr>st_proposals := om_remove k (st_proposals st')\<rparr>) st proposals"

definition recently_pruned_replace_all ::
  "(proposal_id \<times> ratification_status) list \<Rightarrow> 'out ledger_store \<Rightarrow> 'out ledger_store" where
  "recently_pruned_replace_all rows st = st\<lparr>st_recently_pruned := om_extend om_empty rows\<rparr>"

fun voting_drep :: "voter \<Rightarrow> credential option" where
  "voting_drep (VoterDRepKey h) = Some (KeyHash h)" |
  "voting_drep (VoterDRepScript h) = Some (ScriptHash h)" |
  "voting_drep _ = None"

definition votes_add ::
  "(ballot_id \<times> ballot) list \<Rightarrow> 'out ledger_store \<Rightarrow> credential oset \<times> 'out ledger_store" where
  "votes_add rows st =
    foldl (\<lambda>(voting_dreps, st) ((proposal, voter), ballot).
        ((case voting_drep voter of Some c \<Rightarrow> os_insert c voting_dreps | None \<Rightarrow> voting_dreps),
         st\<lparr>st_votes := om_insert (proposal, voter) ballot (st_votes st)\<rparr>)) (om_empty, st) rows"

section \<open>Saving a block\<close>

record 'out store_update =
  su_point :: point
  su_issuer :: pool_id
  su_fees :: lovelace
  su_donations :: lovelace
  su_withdrawals :: "credential list"
  su_add_utxo :: "(tx_input \<times> 'out) list"
  su_add_pools :: "pool_registration list"
  su_add_accounts :: "(credential \<times> account_value) list"
  su_add_dreps :: "(credential \<times> anchor resettable \<times> drep_registration option) list"
  su_add_cc_members :: "(credential \<times> cc_member_status resettable \<times> epoch resettable) list"
  su_add_proposals :: "(proposal_id \<times> proposal_row) list"
  su_add_votes :: "(ballot_id \<times> ballot) list"
  su_remove_utxo :: "tx_input list"
  su_remove_pools :: "(pool_id \<times> epoch) list"
  su_remove_accounts :: "credential list"
  su_remove_dreps :: "(credential \<times> cert_pointer) list"

definition add_pools :: "(pool_id \<times> pool_registration registrations) list \<Rightarrow> pool_registration list" where
  "add_pools entries = concat (map (\<lambda>(_, registrations). regs_iter registrations) entries)"

definition add_accounts ::
  "(credential \<times> (pool_id \<times> cert_pointer, drep \<times> cert_pointer, lovelace) vbind) list \<Rightarrow>
    (credential \<times> account_value) list" where
  "add_accounts entries =
    map (\<lambda>(credential, b). (credential,
      case bvalue b of
        Some deposit \<Rightarrow> Create (left b) (right b) deposit 0
      | None \<Rightarrow> Update (left b) (right b))) entries"

definition add_dreps ::
  "(credential \<times> (anchor, unit, drep_registration) vbind) list \<Rightarrow>
    (credential \<times> anchor resettable \<times> drep_registration option) list" where
  "add_dreps entries = map (\<lambda>(credential, b). (credential, left b, bvalue b)) entries"

text \<open>Every removed representative must have a deregistration; a missing one is a panic.\<close>

fun remove_dreps ::
  "credential list \<Rightarrow> (credential, cert_pointer option) omap \<Rightarrow> (credential \<times> cert_pointer) list option" where
  "remove_dreps [] deregistrations = Some []" |
  "remove_dreps (credential # rest) deregistrations =
    (case om_lookup deregistrations credential of
       None \<Rightarrow> None
     | Some pointer \<Rightarrow>
         map_option (\<lambda>rows. (case pointer of Some p \<Rightarrow> [(credential, p)] | None \<Rightarrow> []) @ rows)
           (remove_dreps rest (om_remove credential deregistrations)))"

definition add_committee ::
  "(credential \<times> (cc_member_status, epoch, unit) vbind) list \<Rightarrow>
    (credential \<times> cc_member_status resettable \<times> epoch resettable) list" where
  "add_committee entries = map (\<lambda>(credential, b). (credential, left b, right b)) entries"

definition add_proposals :: "(proposal_id \<times> proposal_state) list \<Rightarrow> (proposal_id \<times> proposal_row) list" where
  "add_proposals entries =
    map (\<lambda>(proposal_id, s). (proposal_id,
      \<lparr>prow_proposed_in = ps_proposed_in s, prow_valid_until = ps_valid_until s, prow_proposal = ps_proposal s\<rparr>)) entries"

definition into_store_update :: "'out anchored_fragment \<Rightarrow> 'out store_update option" where
  "into_store_update a =
    (let f = af_fragment a in
     map_option (\<lambda>removed_dreps.
       \<lparr>su_point = fst (af_anchor a), su_issuer = snd (af_anchor a), su_fees = unat (vf_fees f),
        su_donations = unat (vf_donations f), su_withdrawals = om_keys (vf_withdrawals f),
        su_add_utxo = om_entries (produced (vf_utxo f)),
        su_add_pools = add_pools (om_entries (er_registered (vf_pools f))),
        su_add_accounts = add_accounts (om_entries (registered (vf_accounts f))),
        su_add_dreps = add_dreps (om_entries (registered (vf_dreps f))),
        su_add_cc_members = add_committee (om_entries (registered (vf_committee f))),
        su_add_proposals = add_proposals (om_entries (vf_proposals f)),
        su_add_votes = om_entries (produced (vf_votes f)),
        su_remove_utxo = om_keys (consumed (vf_utxo f)),
        su_remove_pools = om_entries (er_unregistered (vf_pools f)),
        su_remove_accounts = om_keys (unregistered (vf_accounts f)),
        su_remove_dreps = removed_dreps\<rparr>)
       (remove_dreps (om_keys (unregistered (vf_dreps f))) (vf_dreps_deregistrations f)))"

text \<open>
  The stored tip is a network point, without height; \<open>resolve_tip\<close> recovers it from
  the chain store and may fail.
\<close>

fun network_point :: "point \<Rightarrow> point" where
  "network_point Origin = Origin" |
  "network_point (Specific slot hash _) = Specific slot hash 0"

definition is_newer :: "(point \<Rightarrow> point option) \<Rightarrow> point \<Rightarrow> 'out ledger_store \<Rightarrow> bool" where
  "is_newer resolve_tip point st =
    (case (point, Option.bind (st_tip st) resolve_tip) of
       (Specific new _ _, Some (Specific current _ _)) \<Rightarrow> current < new \<or> st_incremental_save st
     | _ \<Rightarrow> True)"

definition drep_validity_on :: "epoch \<Rightarrow> protocol_parameters \<Rightarrow> nat option \<Rightarrow> epoch" where
  "drep_validity_on current_epoch pp governance_activity =
    u64_sub (u64_add current_epoch (drep_expiry pp))
      (case governance_activity of Some dormant \<Rightarrow> dormant | None \<Rightarrow> 0)"

definition save_columns ::
  "epoch \<Rightarrow> protocol_parameters \<Rightarrow> nat option \<Rightarrow> 'out store_update \<Rightarrow> 'out ledger_store \<Rightarrow>
    (store_error, 'out ledger_store) result" where
  "save_columns current_epoch pp governance_activity su st =
    (let drep_validity = drep_validity_on current_epoch pp governance_activity;
         st1 = cc_members_upsert (su_add_cc_members su)
           (dreps_add drep_validity (su_add_dreps su) (pools_add (su_add_pools su) (utxo_add (su_add_utxo su) st)))
     in res_bind (accounts_add (su_add_accounts su) st1) (\<lambda>st2.
       let (proposals_count, st3) = proposals_add (su_add_proposals su) st2;
           (voting_dreps, st4) = votes_add (su_add_votes su) st3;
           st5 = (if \<not> om_is_empty voting_dreps \<and> \<not> st_incremental_save st
                  then dreps_set_valid_until voting_dreps drep_validity st4 else st4);
           st6 = accounts_reset_many (su_withdrawals su) st5;
           st7 = dreps_remove (su_remove_dreps su)
             (accounts_remove (su_remove_accounts su) current_epoch
               (pools_remove (su_remove_pools su) (utxo_remove (su_remove_utxo su) st6)))
       in Ok (case governance_activity of
           None \<Rightarrow> st7
         | Some dormant \<Rightarrow>
             let reactivating = (0 < dormant \<and> 0 < proposals_count \<and> \<not> st_incremental_save st);
                 st8 = (if reactivating then dreps_reactivate dormant current_epoch st7 else st7)
             in if reactivating \<or> st_incremental_save st
                then st8\<lparr>st_governance_activity := Some (if reactivating then 0 else dormant)\<rparr>
                else st8)))"

definition save ::
  "(point \<Rightarrow> point option) \<Rightarrow> era_history \<Rightarrow> protocol_parameters \<Rightarrow> nat option \<Rightarrow> point \<Rightarrow> pool_id option \<Rightarrow>
    'out store_update \<Rightarrow> 'out ledger_store \<Rightarrow> (store_error, 'out ledger_store) result" where
  "save resolve_tip h pp governance_activity point issuer su st =
    (if \<not> is_newer resolve_tip point st then Ok st
     else
       let tip = point_slot point; st0 = st\<lparr>st_tip := Some (network_point point)\<rparr> in
       case slot_to_epoch h tip tip of
         Err e \<Rightarrow> Err (InternalError e)
       | Ok current_epoch \<Rightarrow>
           save_columns current_epoch pp governance_activity su
             (case issuer of Some i \<Rightarrow> slots_put tip i st0 | None \<Rightarrow> st0))"

text \<open>
  \<open>State::apply_block\<close>: the block is saved, its fees and donations join the pots and
  the progress of the epoch transition is cleared, in one transaction.
\<close>

definition apply_block ::
  "(point \<Rightarrow> point option) \<Rightarrow> era_history \<Rightarrow> protocol_parameters \<Rightarrow> nat \<Rightarrow> 'out anchored_fragment \<Rightarrow>
    'out ledger_store \<Rightarrow> (store_error, 'out ledger_store) result" where
  "apply_block resolve_tip h pp governance_activity now_stable st =
    (case into_store_update now_stable of
       None \<Rightarrow> Err Unreachable
     | Some su \<Rightarrow>
         res_bind (save resolve_tip h pp (Some governance_activity) (su_point su) (Some (su_issuer su)) su st)
           (\<lambda>st'. Ok (st'\<lparr>st_pots := (st_pots st')\<lparr>pot_fees := u64_add (pot_fees (st_pots st')) (su_fees su),
               pot_donations := u64_add (pot_donations (st_pots st')) (su_donations su)\<rparr>,
             st_progress := None\<rparr>)))"

section \<open>What the operations change\<close>

text \<open>Every operation on a column rewrites its own part of the store and nothing else.\<close>

named_theorems store_ops

lemma utxo_add_eq [store_ops]: "utxo_add rows st = st\<lparr>st_utxo := om_extend (st_utxo st) rows\<rparr>"
  by (induction rows arbitrary: st) (auto simp: utxo_add_def)

lemma utxo_remove_eq [store_ops]: "utxo_remove rows st = st\<lparr>st_utxo := om_remove_all rows (st_utxo st)\<rparr>"
  by (induction rows arbitrary: st) (auto simp: utxo_remove_def)

definition pools_add_rows :: "pool_registration list \<Rightarrow> (pool_id, pool_row) omap \<Rightarrow> (pool_id, pool_row) omap" where
  "pools_add_rows rows m = foldl (\<lambda>m (params, registered_at, deposit).
     om_insert (pool_id params)
       (case om_lookup m (pool_id params) of
          None \<Rightarrow> pool_row_new registered_at deposit params
        | Some existing \<Rightarrow> pool_row_extend existing (Registration params)) m) m rows"

definition pools_remove_rows :: "(pool_id \<times> epoch) list \<Rightarrow> (pool_id, pool_row) omap \<Rightarrow> (pool_id, pool_row) omap" where
  "pools_remove_rows rows m = foldl (\<lambda>m (pool, epoch).
     case om_lookup m pool of
       None \<Rightarrow> m
     | Some existing \<Rightarrow> om_insert pool (pool_row_extend existing (Retirement epoch)) m) m rows"

lemma pools_add_eq [store_ops]: "pools_add rows st = st\<lparr>st_pools := pools_add_rows rows (st_pools st)\<rparr>"
  by (induction rows arbitrary: st) (auto simp: pools_add_def pools_add_rows_def)

lemma pools_remove_eq [store_ops]: "pools_remove rows st = st\<lparr>st_pools := pools_remove_rows rows (st_pools st)\<rparr>"
  by (induction rows arbitrary: st) (auto simp: pools_remove_def pools_remove_rows_def split: option.splits)

definition upsert_row ::
  "(cc_member_status resettable \<times> epoch resettable) \<Rightarrow> cc_member_row option \<Rightarrow> cc_member_row" where
  "upsert_row change row =
    (let row = (case row of Some row \<Rightarrow> row | None \<Rightarrow> \<lparr>ccrow_status = None, ccrow_valid_until = None\<rparr>)
     in row\<lparr>ccrow_valid_until := snd (set_or_reset (snd change) (ccrow_valid_until row)),
            ccrow_status := snd (set_or_reset (fst change) (ccrow_status row))\<rparr>)"

definition upsert_rows ::
  "(credential \<times> cc_member_status resettable \<times> epoch resettable) list \<Rightarrow>
    (credential, cc_member_row) omap \<Rightarrow> (credential, cc_member_row) omap" where
  "upsert_rows rows m = foldl (\<lambda>m (k, change). om_insert k (upsert_row change (om_lookup m k)) m) m rows"

lemma cc_members_upsert_eq [store_ops]:
  "cc_members_upsert rows st = st\<lparr>st_cc_members := upsert_rows rows (st_cc_members st)\<rparr>"
  by (induction rows arbitrary: st) (auto simp: cc_members_upsert_def upsert_rows_def upsert_row_def Let_def)

lemma upsert_rows_lookup:
  "distinct (map fst rows) \<Longrightarrow>
    om_lookup (upsert_rows rows m) k =
      (case map_of rows k of Some change \<Rightarrow> Some (upsert_row change (om_lookup m k)) | None \<Rightarrow> om_lookup m k)"
proof (induction rows arbitrary: m)
  case (Cons row rows)
  obtain x change where row: "row = (x, change)" by (cases row)
  have "map_of rows x = None" using Cons.prems row by (simp add: map_of_eq_None_iff)
  then show ?case using Cons.IH [of "om_insert x (upsert_row change (om_lookup m x)) m"] Cons.prems row
    by (auto simp: upsert_rows_def split: option.splits)
qed (simp add: upsert_rows_def)

lemma proposals_add_eq [store_ops]:
  "proposals_add rows st = (length rows, st\<lparr>st_proposals := om_extend (st_proposals st) rows\<rparr>)"
proof -
  have "foldl (\<lambda>(n, st) (k, row). (n + 1, st\<lparr>st_proposals := om_insert k row (st_proposals st)\<rparr>)) (n, st) rows =
      (n + length rows, st\<lparr>st_proposals := om_extend (st_proposals st) rows\<rparr>)" for n
    by (induction rows arbitrary: n st) auto
  then show ?thesis by (simp add: proposals_add_def)
qed

lemma votes_add_eq [store_ops]:
  "votes_add rows st =
    (os_extend om_empty (List.map_filter (\<lambda>((_, voter), _). voting_drep voter) rows),
     st\<lparr>st_votes := om_extend (st_votes st) rows\<rparr>)"
proof -
  have "foldl (\<lambda>(voting_dreps, st) ((proposal, voter), ballot).
        ((case voting_drep voter of Some c \<Rightarrow> os_insert c voting_dreps | None \<Rightarrow> voting_dreps),
         st\<lparr>st_votes := om_insert (proposal, voter) ballot (st_votes st)\<rparr>)) (s, st) rows =
      (os_extend s (List.map_filter (\<lambda>((_, voter), _). voting_drep voter) rows),
       st\<lparr>st_votes := om_extend (st_votes st) rows\<rparr>)" for s
    by (induction rows arbitrary: s st) (auto simp: os_extend_def split: option.splits)
  then show ?thesis by (simp add: votes_add_def)
qed

text \<open>Delegate representatives: which of them there are after an operation.\<close>

lemma drep_row_on_None: "drep_row_on v row r = None \<longleftrightarrow> row = None \<and> r = None"
  by (cases row; cases r) auto

lemma dreps_add_frame:
  "\<exists>m. dreps_add v rows st = st\<lparr>st_dreps := m\<rparr> \<and>
    (\<forall>k. om_contains m k \<longleftrightarrow> om_contains (st_dreps st) k \<or> (\<exists>a r. (k, a, Some r) \<in> set rows))"
proof (induction rows arbitrary: st)
  case Nil
  then show ?case by (auto intro!: exI [of _ "st_dreps st"])
next
  case (Cons x rows)
  obtain k a r where x: "x = (k, a, r)" by (cases x)
  show ?case
  proof (cases "drep_row_on v (om_lookup (st_dreps st) k) r")
    case None
    then show ?thesis using Cons.IH [of st] x by (auto simp: drep_row_on_None)
  next
    case (Some row)
    let ?m = "om_insert k (row\<lparr>drow_anchor := snd (set_or_reset a (drow_anchor row))\<rparr>) (st_dreps st)"
    have "om_contains ?m y \<longleftrightarrow> om_contains (st_dreps st) y \<or> y = k" for y by (simp add: om_contains_def)
    moreover have "om_contains (st_dreps st) k \<or> r \<noteq> None"
      using Some drep_row_on_None [of v "om_lookup (st_dreps st) k" r] by (auto simp: om_contains_def)
    ultimately show ?thesis using Cons.IH [of "st\<lparr>st_dreps := ?m\<rparr>"] Some x by auto metis+
  qed
qed

lemma dreps_set_valid_until_frame:
  "\<exists>m. dreps_set_valid_until ks v st = st\<lparr>st_dreps := m\<rparr> \<and> (\<forall>k. om_contains m k \<longleftrightarrow> om_contains (st_dreps st) k)"
proof -
  have "\<exists>m. foldl (\<lambda>st k. case om_lookup (st_dreps st) k of
        Some row \<Rightarrow> st\<lparr>st_dreps := om_insert k (row\<lparr>drow_valid_until := v\<rparr>) (st_dreps st)\<rparr>
      | None \<Rightarrow> st) st xs = st\<lparr>st_dreps := m\<rparr> \<and> (\<forall>k. om_contains m k \<longleftrightarrow> om_contains (st_dreps st) k)" for xs
  proof (induction xs arbitrary: st)
    case Nil
    then show ?case by (auto intro!: exI [of _ "st_dreps st"])
  next
    case (Cons x xs)
    show ?case
    proof (cases "om_lookup (st_dreps st) x")
      case None
      then show ?thesis using Cons.IH [of st] by simp
    next
      case (Some row)
      let ?m = "om_insert x (row\<lparr>drow_valid_until := v\<rparr>) (st_dreps st)"
      have "om_contains ?m k \<longleftrightarrow> om_contains (st_dreps st) k" for k
        using Some by (simp add: om_contains_def)
      then show ?thesis using Cons.IH [of "st\<lparr>st_dreps := ?m\<rparr>"] Some by auto
    qed
  qed
  then show ?thesis by (simp add: dreps_set_valid_until_def)
qed

lemma dreps_remove_eq [store_ops]:
  "dreps_remove rows st = st\<lparr>st_dreps := om_remove_all (map fst rows) (st_dreps st)\<rparr>"
proof (induction rows arbitrary: st)
  case (Cons row rows)
  obtain k p where row: "row = (k, p)" by (cases row)
  have "\<not> om_contains (st_dreps st) k \<Longrightarrow> om_remove k (st_dreps st) = st_dreps st"
    by (rule om_eqI) (auto simp: om_contains_def fun_eq_iff)
  then show ?case using Cons row by (auto simp: dreps_remove_def)
qed (simp add: dreps_remove_def)

section \<open>Accounts after a block\<close>

fun account_row_on :: "account_value \<Rightarrow> account_row option \<Rightarrow> account_row option" where
  "account_row_on (Create pool drep deposit rewards) row =
    Some (set_delegations pool drep \<lparr>arow_pool = None, arow_deposit = deposit, arow_drep = None, arow_rewards = rewards\<rparr>)" |
  "account_row_on (Update pool drep) row = map_option (set_delegations pool drep) row"

fun is_create :: "account_value \<Rightarrow> bool" where
  "is_create (Create _ _ _ _) = True" |
  "is_create (Update _ _) = False"

text \<open>
  Adding accounts succeeds exactly when every account that is only updated is
  there; the index of recently unregistered accounts forgets the created ones.
\<close>

lemma accounts_add_Cons:
  "accounts_add ((k, v) # rows) st =
    (case account_row_on v (om_lookup (st_accounts st) k) of
       None \<Rightarrow> Err Unreachable
     | Some row \<Rightarrow> accounts_add rows
         (st\<lparr>st_accounts := om_insert k row (st_accounts st),
             st_recently_unregistered :=
               (if is_create v then om_remove k (st_recently_unregistered st) else st_recently_unregistered st)\<rparr>))"
  by (cases v) (auto split: option.splits)

lemma account_row_on_Some: "account_row_on v row = Some r \<Longrightarrow> is_create v \<or> row \<noteq> None"
  by (cases v) auto

lemma accounts_add_spec:
  assumes "distinct (map fst rows)" and "accounts_add rows st = Ok st'"
  shows "\<exists>m i. st' = st\<lparr>st_accounts := m, st_recently_unregistered := i\<rparr> \<and>
    (\<forall>k. om_lookup m k = (case map_of rows k of Some v \<Rightarrow> account_row_on v (om_lookup (st_accounts st) k)
      | None \<Rightarrow> om_lookup (st_accounts st) k)) \<and>
    (\<forall>k. om_lookup i k = (case map_of rows k of
        Some v \<Rightarrow> if is_create v then None else om_lookup (st_recently_unregistered st) k
      | None \<Rightarrow> om_lookup (st_recently_unregistered st) k)) \<and>
    (\<forall>(k, v) \<in> set rows. is_create v \<or> om_contains (st_accounts st) k)"
  using assms
proof (induction rows arbitrary: st)
  case Nil
  then show ?case by (auto intro!: exI [of _ "st_accounts st"] exI [of _ "st_recently_unregistered st"])
next
  case (Cons x rows)
  obtain k v where x: "x = (k, v)" by (cases x)
  have fresh: "map_of rows k = None" "k \<notin> fst ` set rows" "distinct (map fst rows)"
    using Cons.prems(1) x by (auto simp: map_of_eq_None_iff)
  obtain row where row: "account_row_on v (om_lookup (st_accounts st) k) = Some row"
    using Cons.prems(2) x by (cases "account_row_on v (om_lookup (st_accounts st) k)") (auto simp: accounts_add_Cons)
  define i1 where "i1 = (if is_create v then om_remove k (st_recently_unregistered st) else st_recently_unregistered st)"
  define st1 where "st1 = st\<lparr>st_accounts := om_insert k row (st_accounts st), st_recently_unregistered := i1\<rparr>"
  have "accounts_add rows st1 = Ok st'" using Cons.prems(2) x row by (simp add: accounts_add_Cons st1_def i1_def)
  from Cons.IH [OF fresh(3) this] obtain m i where mi:
    "st' = st1\<lparr>st_accounts := m, st_recently_unregistered := i\<rparr>"
    "\<forall>y. om_lookup m y = (case map_of rows y of Some v \<Rightarrow> account_row_on v (om_lookup (st_accounts st1) y)
      | None \<Rightarrow> om_lookup (st_accounts st1) y)"
    "\<forall>y. om_lookup i y = (case map_of rows y of
        Some v \<Rightarrow> if is_create v then None else om_lookup (st_recently_unregistered st1) y
      | None \<Rightarrow> om_lookup (st_recently_unregistered st1) y)"
    "\<forall>(k, v) \<in> set rows. is_create v \<or> om_contains (st_accounts st1) k"
    by blast
  have "om_lookup m y = (case map_of (x # rows) y of Some v \<Rightarrow> account_row_on v (om_lookup (st_accounts st) y)
      | None \<Rightarrow> om_lookup (st_accounts st) y)" for y
    using mi(2) [THEN spec, of y] x row fresh(1) by (cases "y = k") (simp_all add: st1_def cong: option.case_cong)
  moreover have "om_lookup i y = (case map_of (x # rows) y of
        Some v \<Rightarrow> if is_create v then None else om_lookup (st_recently_unregistered st) y
      | None \<Rightarrow> om_lookup (st_recently_unregistered st) y)" for y
    using mi(3) [THEN spec, of y] x fresh(1)
    by (cases "y = k"; cases "map_of rows y") (simp_all add: st1_def i1_def)
  moreover have "is_create w \<or> om_contains (st_accounts st) y" if "(y, w) \<in> set (x # rows)" for y w
  proof (cases "y = k")
    case True
    then have "w = v" using that x fresh(2) by force
    then show ?thesis using True account_row_on_Some [OF row] by (simp add: om_contains_def)
  next
    case False
    then show ?thesis using that mi(4) x by (auto simp: om_contains_def st1_def)
  qed
  moreover have "st' = st\<lparr>st_accounts := m, st_recently_unregistered := i\<rparr>" using mi(1) by (simp add: st1_def)
  ultimately show ?case by (intro exI [of _ m] exI [of _ i]) blast
qed

lemma accounts_reset_many_spec:
  "\<exists>m. accounts_reset_many rows st = st\<lparr>st_accounts := m\<rparr> \<and>
    (\<forall>k. om_lookup m k = (if k \<in> set rows then map_option (\<lambda>row. row\<lparr>arow_rewards := 0\<rparr>) (om_lookup (st_accounts st) k)
      else om_lookup (st_accounts st) k))"
proof (induction rows arbitrary: st)
  case Nil
  then show ?case by (auto simp: accounts_reset_many_def intro!: exI [of _ "st_accounts st"])
next
  case (Cons x rows)
  show ?case
  proof (cases "om_lookup (st_accounts st) x")
    case None
    then show ?thesis using Cons.IH [of st] by (auto simp: accounts_reset_many_def)
  next
    case (Some row)
    let ?st = "st\<lparr>st_accounts := om_insert x (row\<lparr>arow_rewards := 0\<rparr>) (st_accounts st)\<rparr>"
    obtain m where m: "accounts_reset_many rows ?st = ?st\<lparr>st_accounts := m\<rparr>"
      "\<And>k. om_lookup m k = (if k \<in> set rows then map_option (\<lambda>row. row\<lparr>arow_rewards := 0\<rparr>) (om_lookup (st_accounts ?st) k)
        else om_lookup (st_accounts ?st) k)"
      using Cons.IH [of ?st] by blast
    have "accounts_reset_many (x # rows) st = st\<lparr>st_accounts := m\<rparr>"
      using m(1) Some by (simp add: accounts_reset_many_def)
    then show ?thesis using m(2) Some by (intro exI [of _ m]) auto
  qed
qed

lemma accounts_remove_eq [store_ops]:
  "accounts_remove rows e st =
    st\<lparr>st_accounts := om_remove_all rows (st_accounts st),
       st_recently_unregistered := om_extend (st_recently_unregistered st) (map (\<lambda>k. (k, e)) rows)\<rparr>"
  by (induction rows arbitrary: st) (auto simp: accounts_remove_def)

lemma map_of_add_accounts:
  "map_of (add_accounts (om_entries m)) k =
    map_option (\<lambda>b. case bvalue b of Some deposit \<Rightarrow> Create (left b) (right b) deposit 0
      | None \<Rightarrow> Update (left b) (right b)) (om_lookup m k)"
  unfolding add_accounts_def om_lookup_entries by (rule map_of_map_pair)

section \<open>The store after a block\<close>

definition account_on :: "'out store_update \<Rightarrow> credential \<Rightarrow> account_row option \<Rightarrow> account_row option" where
  "account_on su k row = (case map_of (su_add_accounts su) k of Some v \<Rightarrow> account_row_on v row | None \<Rightarrow> row)"

definition account_after :: "'out store_update \<Rightarrow> credential \<Rightarrow> account_row option \<Rightarrow> account_row option" where
  "account_after su k row =
    (if k \<in> set (su_remove_accounts su) then None
     else if k \<in> set (su_withdrawals su) then map_option (\<lambda>row. row\<lparr>arow_rewards := 0\<rparr>) (account_on su k row)
     else account_on su k row)"

definition index_after :: "epoch \<Rightarrow> 'out store_update \<Rightarrow> credential \<Rightarrow> epoch option \<Rightarrow> epoch option" where
  "index_after e su k marker =
    (if k \<in> set (su_remove_accounts su) then Some e
     else case map_of (su_add_accounts su) k of Some v \<Rightarrow> if is_create v then None else marker | None \<Rightarrow> marker)"

lemma om_lookup_extend_const:
  "om_lookup (om_extend m (map (\<lambda>k. (k, v)) ks)) x = (if x \<in> set ks then Some v else om_lookup m x)"
  by (induction ks arbitrary: m) auto

text \<open>Saving the columns of a block as one update of the store.\<close>

lemma save_columns_form:
  assumes "distinct (map fst (su_add_accounts su))" and "save_columns e pp ga su st = Ok st'"
  shows "\<exists>m i d g. st' = st\<lparr>
      st_utxo := om_remove_all (su_remove_utxo su) (om_extend (st_utxo st) (su_add_utxo su)),
      st_pools := pools_remove_rows (su_remove_pools su) (pools_add_rows (su_add_pools su) (st_pools st)),
      st_cc_members := upsert_rows (su_add_cc_members su) (st_cc_members st),
      st_proposals := om_extend (st_proposals st) (su_add_proposals su),
      st_votes := om_extend (st_votes st) (su_add_votes su),
      st_accounts := m, st_recently_unregistered := i, st_dreps := d, st_governance_activity := g\<rparr> \<and>
    (\<forall>k. om_lookup m k = account_after su k (om_lookup (st_accounts st) k)) \<and>
    (\<forall>k. om_lookup i k = index_after e su k (om_lookup (st_recently_unregistered st) k)) \<and>
    (\<forall>(k, v) \<in> set (su_add_accounts su). is_create v \<or> om_contains (st_accounts st) k)"
proof -
  define v where "v = drep_validity_on e pp ga"
  note vs = v_def [symmetric]
  obtain d1 where d1: "dreps_add v (su_add_dreps su) (pools_add (su_add_pools su) (utxo_add (su_add_utxo su) st)) =
      (pools_add (su_add_pools su) (utxo_add (su_add_utxo su) st))\<lparr>st_dreps := d1\<rparr>"
    using dreps_add_frame by blast
  define st1 where "st1 = cc_members_upsert (su_add_cc_members su)
    ((pools_add (su_add_pools su) (utxo_add (su_add_utxo su) st))\<lparr>st_dreps := d1\<rparr>)"
  obtain st2 where st2: "accounts_add (su_add_accounts su) st1 = Ok st2"
    using assms(2) by (cases "accounts_add (su_add_accounts su) st1")
      (auto simp: save_columns_def Let_def vs d1 st1_def)
  obtain m2 i2 where form2: "st2 = st1\<lparr>st_accounts := m2, st_recently_unregistered := i2\<rparr>"
    and m2: "\<forall>k. om_lookup m2 k = account_on su k (om_lookup (st_accounts st1) k)"
    and i2: "\<forall>k. om_lookup i2 k = (case map_of (su_add_accounts su) k of
        Some v \<Rightarrow> if is_create v then None else om_lookup (st_recently_unregistered st1) k
      | None \<Rightarrow> om_lookup (st_recently_unregistered st1) k)"
    and up: "\<forall>(k, v) \<in> set (su_add_accounts su). is_create v \<or> om_contains (st_accounts st1) k"
    using accounts_add_spec [OF assms(1) st2] unfolding account_on_def by blast
  define st4 where "st4 = snd (votes_add (su_add_votes su) (snd (proposals_add (su_add_proposals su) st2)))"
  define dv where "dv = fst (votes_add (su_add_votes su) (snd (proposals_add (su_add_proposals su) st2)))"
  obtain d4 where d4: "dreps_set_valid_until dv v st4 = st4\<lparr>st_dreps := d4\<rparr>"
    using dreps_set_valid_until_frame by blast
  define d5 where "d5 = (if \<not> om_is_empty dv \<and> \<not> st_incremental_save st then d4 else st_dreps st4)"
  have d5: "(if \<not> om_is_empty dv \<and> \<not> st_incremental_save st
      then dreps_set_valid_until dv v st4 else st4) = st4\<lparr>st_dreps := d5\<rparr>"
    by (simp add: d4 d5_def)
  obtain m6 where m6: "accounts_reset_many (su_withdrawals su) (st4\<lparr>st_dreps := d5\<rparr>) = st4\<lparr>st_dreps := d5, st_accounts := m6\<rparr>"
    "\<forall>k. om_lookup m6 k = (if k \<in> set (su_withdrawals su)
      then map_option (\<lambda>row. row\<lparr>arow_rewards := 0\<rparr>) (om_lookup (st_accounts (st4\<lparr>st_dreps := d5\<rparr>)) k)
      else om_lookup (st_accounts (st4\<lparr>st_dreps := d5\<rparr>)) k)"
    using accounts_reset_many_spec [of "su_withdrawals su" "st4\<lparr>st_dreps := d5\<rparr>"] by auto
  define st7 where "st7 = dreps_remove (su_remove_dreps su) (accounts_remove (su_remove_accounts su) e
    (pools_remove (su_remove_pools su) (utxo_remove (su_remove_utxo su) (st4\<lparr>st_dreps := d5, st_accounts := m6\<rparr>))))"
  obtain d g where st': "st' = st7\<lparr>st_dreps := d, st_governance_activity := g\<rparr>"
  proof -
    have "st' = (case ga of None \<Rightarrow> st7 | Some dormant \<Rightarrow>
        let reactivating = (0 < dormant \<and> 0 < fst (proposals_add (su_add_proposals su) st2) \<and> \<not> st_incremental_save st);
            st8 = (if reactivating then dreps_reactivate dormant e st7 else st7)
        in if reactivating \<or> st_incremental_save st
           then st8\<lparr>st_governance_activity := Some (if reactivating then 0 else dormant)\<rparr> else st8)"
      using assms(2)
      unfolding save_columns_def Let_def vs d1 st1_def [symmetric] st2 res_bind_simps case_prod_unfold
        st4_def [symmetric] dv_def [symmetric] d5 m6(1) st7_def [symmetric]
      by simp
    then show ?thesis
      by (intro that [of "st_governance_activity st'" "st_dreps st'"])
        (auto simp: dreps_reactivate_def Let_def split: option.splits if_splits)
  qed
  have same: "st_accounts st1 = st_accounts st" "st_recently_unregistered st1 = st_recently_unregistered st"
    "st_accounts st4 = m2"
    by (simp_all add: st1_def st4_def form2 store_ops)
  define m where "m = om_remove_all (su_remove_accounts su) m6"
  define i where "i = om_extend i2 (map (\<lambda>k. (k, e)) (su_remove_accounts su))"
  have "om_lookup m k = account_after su k (om_lookup (st_accounts st) k)" for k
    using m2 m6(2) by (simp add: m_def account_after_def same)
  moreover have "om_lookup i k = index_after e su k (om_lookup (st_recently_unregistered st) k)" for k
    using i2 [unfolded same] by (simp add: i_def index_after_def om_lookup_extend_const)
  ultimately show ?thesis
    using up by (intro exI [of _ m] exI [of _ i] exI [of _ d] exI [of _ g] conjI)
      (simp_all add: st' st7_def store_ops st4_def form2 st1_def m_def i_def)
qed

text \<open>
  Saving a newer block: the tip and the slot are recorded, and the columns are
  updated for the epoch of its slot.
\<close>

lemma apply_block_form:
  assumes "apply_block resolve_tip h pp ga a st = Ok st'" and "is_newer resolve_tip (af_tip a) st"
  shows "\<exists>su e st1. into_store_update a = Some su \<and> slot_to_epoch h (point_slot (af_tip a)) (point_slot (af_tip a)) = Ok e \<and>
    save_columns e pp (Some ga) su
      (st\<lparr>st_tip := Some (network_point (af_tip a)), st_slots := om_insert (point_slot (af_tip a)) (snd (af_anchor a)) (st_slots st)\<rparr>) = Ok st1 \<and>
    st' = st1\<lparr>st_pots := (st_pots st1)\<lparr>pot_fees := u64_add (pot_fees (st_pots st1)) (unat (vf_fees (af_fragment a))),
      pot_donations := u64_add (pot_donations (st_pots st1)) (unat (vf_donations (af_fragment a)))\<rparr>, st_progress := None\<rparr>"
proof -
  obtain su where su: "into_store_update a = Some su"
    using assms(1) by (auto simp: apply_block_def split: option.splits)
  have fields: "su_point su = af_tip a" "su_issuer su = snd (af_anchor a)"
    "su_fees su = unat (vf_fees (af_fragment a))" "su_donations su = unat (vf_donations (af_fragment a))"
    using su by (auto simp: into_store_update_def Let_def af_tip_def)
  obtain e where e: "slot_to_epoch h (point_slot (af_tip a)) (point_slot (af_tip a)) = Ok e"
    using assms su fields
    by (cases "slot_to_epoch h (point_slot (af_tip a)) (point_slot (af_tip a))") (auto simp: apply_block_def save_def Let_def)
  then show ?thesis
    using assms su fields
    by (auto simp: apply_block_def save_def Let_def slots_put_def res_bind_ok_iff)
qed

lemma into_store_update_rows:
  assumes "into_store_update a = Some su"
  shows "su_add_accounts su = add_accounts (om_entries (registered (vf_accounts (af_fragment a))))"
    and "su_remove_accounts su = om_keys (unregistered (vf_accounts (af_fragment a)))"
    and "su_withdrawals su = om_keys (vf_withdrawals (af_fragment a))"
    and "su_add_utxo su = om_entries (produced (vf_utxo (af_fragment a)))"
    and "su_remove_utxo su = om_keys (consumed (vf_utxo (af_fragment a)))"
    and "su_add_cc_members su = add_committee (om_entries (registered (vf_committee (af_fragment a))))"
    and "distinct (map fst (su_add_accounts su))" "distinct (map fst (su_add_cc_members su))"
  using assms
  by (auto simp: into_store_update_def Let_def add_accounts_def add_committee_def comp_def case_prod_unfold)

text \<open>
  What the diff of a block says of an account, applied to its row: the delegations
  and the deposit follow the verdict, and the rewards are reset by a withdrawal.
\<close>

definition account_entity ::
  "account_row \<Rightarrow> (pool_id \<times> cert_pointer) option \<times> (drep \<times> cert_pointer) option \<times> lovelace" where
  "account_entity row = (arow_pool row, arow_drep row, arow_deposit row)"

lemma set_or_reset_into_option: "snd (set_or_reset r field) = into_option r field"
  by (cases r) auto

lemma account_entity_reset:
  "map_option account_entity (map_option (\<lambda>row. row\<lparr>arow_rewards := x\<rparr>) row) = map_option account_entity row"
  by (cases row) (simp_all add: account_entity_def)

lemma account_after_verdict:
  assumes "into_store_update a = Some su" and "db_ok (vf_accounts (af_fragment a))"
  shows "map_option account_entity (account_after su k row) =
    apply_verdict (db_get (vf_accounts (af_fragment a)) k) (map_option account_entity row)"
proof -
  note rows = into_store_update_rows [OF assms(1)]
  let ?d = "vf_accounts (af_fragment a)"
  have "map_option account_entity (account_on su k row) =
      (case om_lookup (registered ?d) k of Some b \<Rightarrow> apply_verdict (Exists b) (map_option account_entity row)
       | None \<Rightarrow> map_option account_entity row)"
    by (cases "om_lookup (registered ?d) k"; cases row)
      (auto simp: account_on_def rows map_of_add_accounts account_entity_def set_delegations_def
        set_or_reset_into_option split: option.splits)
  moreover have "om_contains (unregistered ?d) k \<Longrightarrow> om_lookup (registered ?d) k = None"
    using assms(2) by (simp add: db_ok_iff)
  ultimately show ?thesis
    by (auto simp: account_after_def rows set_om_keys_contains db_get_def account_entity_reset
        split: option.splits)
qed

section \<open>Stabilising the volatile window\<close>

text \<open>The blocks of a window, from the oldest, each newer than the tip of the store it finds.\<close>

fun apply_blocks ::
  "(point \<Rightarrow> point option) \<Rightarrow> era_history \<Rightarrow> protocol_parameters \<Rightarrow> nat \<Rightarrow> 'out anchored_fragment list \<Rightarrow>
    'out ledger_store \<Rightarrow> (store_error, 'out ledger_store) result" where
  "apply_blocks resolve_tip h pp ga [] st = Ok st" |
  "apply_blocks resolve_tip h pp ga (a # as) st =
    res_bind (apply_block resolve_tip h pp ga a st) (apply_blocks resolve_tip h pp ga as)"

fun newer_blocks ::
  "(point \<Rightarrow> point option) \<Rightarrow> era_history \<Rightarrow> protocol_parameters \<Rightarrow> nat \<Rightarrow> 'out anchored_fragment list \<Rightarrow>
    'out ledger_store \<Rightarrow> bool" where
  "newer_blocks resolve_tip h pp ga [] st = True" |
  "newer_blocks resolve_tip h pp ga (a # as) st =
    (is_newer resolve_tip (af_tip a) st \<and>
     (case apply_block resolve_tip h pp ga a st of Ok st' \<Rightarrow> newer_blocks resolve_tip h pp ga as st' | Err _ \<Rightarrow> False))"

lemma apply_block_account:
  assumes "apply_block resolve_tip h pp ga a st = Ok st'" and "is_newer resolve_tip (af_tip a) st"
    and "db_ok (vf_accounts (af_fragment a))"
  shows "map_option account_entity (om_lookup (st_accounts st') k) =
      apply_verdict (db_get (vf_accounts (af_fragment a)) k) (map_option account_entity (om_lookup (st_accounts st) k))"
    and "db_get (vf_accounts (af_fragment a)) k = Exists b \<Longrightarrow> bvalue b = None \<Longrightarrow> om_lookup (st_accounts st) k \<noteq> None"
proof -
  obtain su e st1 where su: "into_store_update a = Some su"
    and save: "save_columns e pp (Some ga) su (st\<lparr>st_tip := Some (network_point (af_tip a)),
      st_slots := om_insert (point_slot (af_tip a)) (snd (af_anchor a)) (st_slots st)\<rparr>) = Ok st1"
    and st': "st_accounts st' = st_accounts st1"
    using apply_block_form [OF assms(1,2)] by auto
  have acc: "om_lookup (st_accounts st1) k = account_after su k (om_lookup (st_accounts st) k)"
    and up: "\<forall>(k, v) \<in> set (su_add_accounts su). is_create v \<or> om_contains (st_accounts st) k"
    using save_columns_form [OF into_store_update_rows(7) [OF su] save] by auto
  show "map_option account_entity (om_lookup (st_accounts st') k) =
      apply_verdict (db_get (vf_accounts (af_fragment a)) k) (map_option account_entity (om_lookup (st_accounts st) k))"
    using account_after_verdict [OF su assms(3), of k] acc st' by simp
  assume "db_get (vf_accounts (af_fragment a)) k = Exists b" and b: "bvalue b = None"
  then have "om_lookup (registered (vf_accounts (af_fragment a))) k = Some b"
    by (auto simp: db_get_def split: option.splits if_splits)
  then have "map_of (su_add_accounts su) k = Some (Update (left b) (right b))"
    using b by (simp add: into_store_update_rows(1) [OF su] map_of_add_accounts)
  then have "(k, Update (left b) (right b)) \<in> set (su_add_accounts su)" by (rule map_of_SomeD)
  then show "om_lookup (st_accounts st) k \<noteq> None" using up by (auto simp: om_contains_def)
qed

lemma apply_blocks_account:
  assumes "apply_blocks resolve_tip h pp ga as st = Ok st'" and "newer_blocks resolve_tip h pp ga as st"
    and "\<forall>a \<in> set as. db_ok (vf_accounts (af_fragment a))"
  shows "map_option account_entity (om_lookup (st_accounts st') k) =
    apply_verdict (db_get (db_fold (map (\<lambda>a. vf_accounts (af_fragment a)) as)) k)
      (map_option account_entity (om_lookup (st_accounts st) k))"
  using assms
proof (induction as arbitrary: st' rule: rev_induct)
  case Nil
  then show ?case by (simp add: db_fold_def)
next
  case (snoc a as)
  have split: "apply_blocks resolve_tip h pp ga (as @ [a]) st =
      res_bind (apply_blocks resolve_tip h pp ga as st) (apply_block resolve_tip h pp ga a)" for st :: "'a ledger_store"
    by (induction as arbitrary: st) (auto simp: res_bind_def split: sum.splits)
  then obtain st1 where st1: "apply_blocks resolve_tip h pp ga as st = Ok st1" "apply_block resolve_tip h pp ga a st1 = Ok st'"
    using snoc.prems(1) by (auto simp: res_bind_ok_iff)
  have "newer_blocks resolve_tip h pp ga as st \<and> is_newer resolve_tip (af_tip a) st1"
    using snoc.prems(2) st1(1) by (induction as arbitrary: st) (auto simp: res_bind_ok_iff split: sum.splits)
  then have newer: "newer_blocks resolve_tip h pp ga as st" "is_newer resolve_tip (af_tip a) st1" by simp_all
  have ok: "db_ok (vf_accounts (af_fragment a))" "\<forall>a \<in> set as. db_ok (vf_accounts (af_fragment a))"
    using snoc.prems(3) by simp_all
  let ?x = "db_get (vf_accounts (af_fragment a)) k"
  let ?y = "db_get (db_fold (map (\<lambda>a. vf_accounts (af_fragment a)) as)) k"
  have IH: "map_option account_entity (om_lookup (st_accounts st1) k) =
      apply_verdict ?y (map_option account_entity (om_lookup (st_accounts st) k))"
    by (rule snoc.IH [OF st1(1) newer(1) ok(2)])
  have "?y \<noteq> Gone" if "?x = Exists b" "bvalue b = None" for b
    using apply_block_account(2) [OF st1(2) newer(2) ok(1) that] IH by auto
  then have "apply_verdict (over ?x ?y) (map_option account_entity (om_lookup (st_accounts st) k)) =
      apply_verdict ?x (apply_verdict ?y (map_option account_entity (om_lookup (st_accounts st) k)))"
    by (rule apply_verdict_over)
  moreover have "db_get (db_fold (map (\<lambda>a. vf_accounts (af_fragment a)) (as @ [a]))) k = over ?x ?y"
    using db_get_extend [OF ok(1)] by (simp add: db_fold_def)
  ultimately show ?case using apply_block_account(1) [OF st1(2) newer(2) ok(1)] IH by simp
qed

text \<open>
  C4. Moving blocks of the volatile window into the stable store does not change what is
  read of an account: after any number of blocks are applied, the delegations and the
  deposit of every account are those that the merged diff of the blocks gives over the
  store before.
\<close>

theorem stabilising_preserves_accounts:
  assumes "apply_blocks resolve_tip h pp ga as st = Ok st'" and "newer_blocks resolve_tip h pp ga as st"
    and "\<forall>a \<in> set as. db_ok (vf_accounts (af_fragment a))"
  shows "map_option account_entity (om_lookup (st_accounts st') k) =
    apply_verdict (db_get (db_fold (map (\<lambda>a. vf_accounts (af_fragment a)) as)) k)
      (map_option account_entity (om_lookup (st_accounts st) k))"
  by (rule apply_blocks_account [OF assms])

definition example_store :: "unit ledger_store" where
  "example_store =
    \<lparr>st_incremental_save = False, st_tip = None, st_progress = None, st_protocol_parameters = Some example_parameters,
     st_constitutional_committee = None, st_constitution = None, st_proposals_roots = None,
     st_governance_activity = None, st_pots = example_pots, st_utxo = om_empty, st_pools = om_empty,
     st_accounts = om_insert (KeyHash 3) \<lparr>arow_pool = None, arow_deposit = 2, arow_drep = None, arow_rewards = 4\<rparr> om_empty,
     st_recently_unregistered = om_empty, st_dreps = om_empty, st_cc_members = om_empty,
     st_proposals = om_empty, st_recently_pruned = om_empty, st_votes = om_empty, st_slots = om_empty\<rparr>"

definition example_block :: "slot \<Rightarrow> account_diff \<Rightarrow> unit anchored_fragment" where
  "example_block s d = \<lparr>af_anchor = (Specific s s s, 7), af_fragment = vf_default\<lparr>vf_accounts := d\<rparr>\<rparr>"

definition example_blocks :: "unit anchored_fragment list" where
  "example_blocks =
    [example_block 5 (unregister (KeyHash 3) db_default),
     example_block 6 (db_default\<lparr>registered := om_insert (KeyHash 3)
       \<lparr>left = Set (7, ((6, 0), 0)), right = Reset, bvalue = Some 9\<rparr> om_empty\<rparr>),
     example_block 8 (db_default\<lparr>registered := om_insert (KeyHash 3)
       \<lparr>left = Unchanged, right = Set (DRepAbstain, ((8, 0), 0)), bvalue = None\<rparr> om_empty\<rparr>)]"

lemmas example_block_defs = example_blocks_def example_block_def vf_default_def ds_default_def er_default_def
  db_default_def unregister_def os_insert_def af_tip_def

lemma mainnet_first_epoch: "s < 21600 \<Longrightarrow> slot_to_epoch mainnet_era_history s s = Ok 0"
  by (simp add: mainnet_era_history_def scan_defs era_test_defs era_summary_of_def era_bound_at_def
      era_slot_to_epoch_def elapsed_from_def)

lemma example_blocks_apply:
  "\<exists>st'. apply_blocks Some mainnet_era_history example_parameters 0 example_blocks example_store = Ok st'"
  "newer_blocks Some mainnet_era_history example_parameters 0 example_blocks example_store"
  by (simp_all add: example_block_defs example_store_def apply_block_def into_store_update_def Let_def save_def is_newer_def
      mainnet_first_epoch save_columns_def store_ops slots_put_def om_keys_def om_is_empty_def add_pools_def add_accounts_def
      add_dreps_def add_committee_def add_proposals_def pools_add_rows_def pools_remove_rows_def upsert_rows_def
      accounts_reset_many_def os_extend_def al_remove_def set_delegations_def)

theorem stabilising_preserves_accounts_witness:
  "\<exists>st'. apply_blocks Some mainnet_era_history example_parameters 0 example_blocks example_store = Ok st' \<and>
    map_option account_entity (om_lookup (st_accounts st') (KeyHash 3)) =
      Some (Some (7, ((6, 0), 0)), Some (DRepAbstain, ((8, 0), 0)), 9)"
proof -
  have ok: "\<forall>a \<in> set example_blocks. db_ok (vf_accounts (af_fragment a))"
    by (simp add: example_block_defs db_ok_def om_keys_def om_contains_def)
  have "apply_verdict (db_get (db_fold (map (\<lambda>a. vf_accounts (af_fragment a)) example_blocks)) (KeyHash 3))
      (map_option account_entity (om_lookup (st_accounts example_store) (KeyHash 3))) =
      Some (Some (7, ((6, 0), 0)), Some (DRepAbstain, ((8, 0), 0)), 9)"
    by code_simp
  then show ?thesis
    using example_blocks_apply(1) stabilising_preserves_accounts [OF _ example_blocks_apply(2) ok] by metis
qed

section \<open>The index of recently unregistered accounts\<close>

text \<open>
  The index and the accounts exclude each other.  A block keeps that: it marks the
  accounts it removes with its epoch, and forgets those it creates.
\<close>

definition index_ok :: "'out ledger_store \<Rightarrow> bool" where
  "index_ok st = (\<forall>k. om_contains (st_accounts st) k \<longrightarrow> om_lookup (st_recently_unregistered st) k = None)"

lemma apply_block_index:
  assumes "apply_block resolve_tip h pp ga a st = Ok st'" and "is_newer resolve_tip (af_tip a) st"
    and "slot_to_epoch h (point_slot (af_tip a)) (point_slot (af_tip a)) = Ok e" and "db_ok (vf_accounts (af_fragment a))"
  shows "om_lookup (st_recently_unregistered st') k =
    (case db_get (vf_accounts (af_fragment a)) k of
       Gone \<Rightarrow> Some e
     | Exists b \<Rightarrow> if bvalue b \<noteq> None then None else om_lookup (st_recently_unregistered st) k
     | Unknown \<Rightarrow> om_lookup (st_recently_unregistered st) k)"
proof -
  obtain su st1 where su: "into_store_update a = Some su"
    and save: "save_columns e pp (Some ga) su (st\<lparr>st_tip := Some (network_point (af_tip a)),
      st_slots := om_insert (point_slot (af_tip a)) (snd (af_anchor a)) (st_slots st)\<rparr>) = Ok st1"
    and st': "st_recently_unregistered st' = st_recently_unregistered st1"
    using apply_block_form [OF assms(1,2)] assms(3) by auto
  have i: "om_lookup (st_recently_unregistered st1) k = index_after e su k (om_lookup (st_recently_unregistered st) k)"
    using save_columns_form [OF into_store_update_rows(7) [OF su] save] by auto
  show ?thesis
    using assms(4) i st'
    by (auto simp: index_after_def into_store_update_rows [OF su] map_of_add_accounts set_om_keys_contains
        db_get_def db_ok_iff split: option.splits)
qed

lemma apply_block_index_ok:
  assumes "index_ok st" and "apply_block resolve_tip h pp ga a st = Ok st'" and "is_newer resolve_tip (af_tip a) st"
    and "db_ok (vf_accounts (af_fragment a))"
  shows "index_ok st'"
proof -
  obtain e where e: "slot_to_epoch h (point_slot (af_tip a)) (point_slot (af_tip a)) = Ok e"
    using apply_block_form [OF assms(2,3)] by blast
  have "om_lookup (st_recently_unregistered st') k = None" if k: "om_contains (st_accounts st') k" for k
  proof -
    have some: "apply_verdict (db_get (vf_accounts (af_fragment a)) k) (map_option account_entity (om_lookup (st_accounts st) k)) \<noteq> None"
      using k apply_block_account(1) [OF assms(2-4), of k] unfolding om_contains_def by (metis option.map_disc_iff)
    show ?thesis
    proof (cases "db_get (vf_accounts (af_fragment a)) k")
      case (Exists b)
      then show ?thesis
        using apply_block_index [OF assms(2,3) e assms(4), of k] apply_block_account(2) [OF assms(2-4) Exists] assms(1)
        by (auto simp: index_ok_def om_contains_def)
    next
      case Gone
      then show ?thesis using some by simp
    next
      case Unknown
      then show ?thesis
        using some apply_block_index [OF assms(2,3) e assms(4), of k] assms(1)
        by (auto simp: index_ok_def om_contains_def)
    qed
  qed
  then show ?thesis by (simp add: index_ok_def)
qed

end
