(* ===== verification/Epoch_Boundary.thy ===== *)
theory Epoch_Boundary
  imports Ledger_Store
begin

text \<open>
  The epoch boundary: what it writes to the stable store
  (\<open>amaru-ledger/src/store/epoch_transition.rs\<close>), the overlay that keeps the
  changes of a boundary until they are stable
  (\<open>amaru-ledger/src/state/volatile/overlay.rs\<close>), and the view that tells which
  accounts can no longer be paid (\<open>state/volatile/view.rs\<close>).
\<close>

section \<open>Governance updates\<close>

record governance_updates =
  gu_roots :: proposals_roots
  gu_protocol_parameters :: protocol_parameters
  gu_pruned_proposals :: "(proposal_id, ratification_status) omap"
  gu_deposit_refunds :: "(credential, lovelace) omap"
  gu_treasury_withdrawals :: "(credential, lovelace) omap"
  gu_is_dormant_epoch :: bool
  gu_constitutional_committee :: "cc_update option"
  gu_new_constitution :: "constitution option"

definition payout :: "governance_updates \<Rightarrow> credential \<Rightarrow> lovelace" where
  "payout gu account = amount_of (gu_deposit_refunds gu) account + amount_of (gu_treasury_withdrawals gu) account"

section \<open>End of an epoch\<close>

definition try_epoch_transition ::
  "epoch_transition_progress option \<Rightarrow> epoch_transition_progress option \<Rightarrow> 'out ledger_store \<Rightarrow>
    bool \<times> 'out ledger_store" where
  "try_epoch_transition source target st =
    (if st_progress st \<noteq> source then (False, st) else (True, st\<lparr>st_progress := target\<rparr>))"

text \<open>
  \<open>pay_rewards\<close> walks through all accounts, asserts that what was paid and what is
  unclaimed is the total, and moves the pots.
\<close>

definition pay_row :: "effective_rewards \<Rightarrow> credential \<Rightarrow> account_row \<Rightarrow> account_row" where
  "pay_row er credential row =
    (let rewards = reward_of er credential in
     if 0 < rewards then row\<lparr>arow_rewards := arow_rewards row + rewards\<rparr> else row)"

definition rewards_paid :: "effective_rewards \<Rightarrow> (credential, account_row) omap \<Rightarrow> lovelace" where
  "rewards_paid er accounts = sum_list (map (\<lambda>(credential, _). reward_of er credential) (om_entries accounts))"

definition pay_rewards :: "effective_rewards \<Rightarrow> 'out ledger_store \<Rightarrow> (store_error, 'out ledger_store) result" where
  "pay_rewards er st =
    (if rewards_paid er (st_accounts st) + total_unclaimed_rewards er \<noteq> cr_total_rewards er then Err AssertionFailed
     else
       let pots = st_pots st in
       Ok (st\<lparr>st_accounts := om_map (pay_row er) (st_accounts st),
              st_pots := pots\<lparr>pot_treasury := u64_add (pot_treasury pots) (er_delta_treasury er),
                pot_reserves := u64_sub (pot_reserves pots) (cr_delta_reserves er)\<rparr>\<rparr>))"

definition reset_recently_pruned_proposals ::
  "(proposal_id, ratification_status) omap \<Rightarrow> 'out ledger_store \<Rightarrow> 'out ledger_store" where
  "reset_recently_pruned_proposals pruned st = recently_pruned_replace_all (om_entries pruned) st"

section \<open>Start of an epoch\<close>

definition reset_fees_and_donations :: "'out ledger_store \<Rightarrow> 'out ledger_store" where
  "reset_fees_and_donations st =
    (let pots = st_pots st in
     st\<lparr>st_pots := pots\<lparr>pot_fees := 0, pot_treasury := u64_add (pot_treasury pots) (pot_donations pots),
       pot_donations := 0\<rparr>\<rparr>)"

definition reset_blocks_count :: "'out ledger_store \<Rightarrow> 'out ledger_store" where
  "reset_blocks_count st = st\<lparr>st_slots := om_empty\<rparr>"

definition refund_account :: "credential \<Rightarrow> lovelace \<Rightarrow> 'out ledger_store \<Rightarrow> lovelace \<times> 'out ledger_store" where
  "refund_account credential deposit st = accounts_set_rewards credential (\<lambda>balance. balance + deposit) st"

definition refund_accounts ::
  "(credential \<times> lovelace) list \<Rightarrow> lovelace \<times> 'out ledger_store \<Rightarrow> lovelace \<times> 'out ledger_store" where
  "refund_accounts payouts start =
    foldl (\<lambda>(leftovers, st) (account, deposit).
        let (leftover, st') = refund_account account deposit st in (leftovers + leftover, st')) start payouts"

definition pay_or_refund_accounts :: "(credential \<times> lovelace) list \<Rightarrow> 'out ledger_store \<Rightarrow> 'out ledger_store" where
  "pay_or_refund_accounts payouts st =
    (let (leftovers, st') = refund_accounts payouts (0, st); pots = st_pots st' in
     if 0 < leftovers
     then st'\<lparr>st_pots := pots\<lparr>pot_treasury := u64_add (pot_treasury pots) leftovers\<rparr>\<rparr>
     else st')"

definition update_or_retire_pools ::
  "(pool_id, pool_row) omap \<Rightarrow> pool_id oset \<Rightarrow> 'out ledger_store \<Rightarrow> 'out ledger_store" where
  "update_or_retire_pools updates retirements st =
    st\<lparr>st_pools :=
      om_map (\<lambda>id row. case om_lookup updates id of Some pool \<Rightarrow> pool | None \<Rightarrow> row)
        (om_filter (\<lambda>id _. \<not> om_contains retirements id) (st_pools st))\<rparr>"

text \<open>The operation of the store: the status, then the removed members, then the added ones.\<close>

definition store_update_committee ::
  "cc_status \<Rightarrow> (credential, epoch) omap \<Rightarrow> credential oset \<Rightarrow> 'out ledger_store \<Rightarrow> 'out ledger_store" where
  "store_update_committee status added removed st =
    cc_members_upsert (map (\<lambda>(cold, valid_until). (cold, Unchanged, Set valid_until)) (om_entries added))
      (cc_members_upsert (map (\<lambda>cold. (cold, Unchanged, Reset)) (om_keys removed))
        (st\<lparr>st_constitutional_committee := Some status\<rparr>))"

definition prune_non_elected :: "'out ledger_store \<Rightarrow> 'out ledger_store" where
  "prune_non_elected st =
    st\<lparr>st_cc_members := om_filter (\<lambda>_ row. ccrow_valid_until row \<noteq> None) (st_cc_members st)\<rparr>"

definition update_constitutional_committee ::
  "cc_update option \<Rightarrow> 'out ledger_store \<Rightarrow> (store_error, 'out ledger_store) result" where
  "update_constitutional_committee committee_update st =
    res_bind
      (case committee_update of
         Some CCNoConfidence \<Rightarrow>
           Ok ((store_update_committee CCStatusNoConfidence om_empty om_empty st)\<lparr>st_cc_members := om_empty\<rparr>)
       | Some (ChangeMembers removed added threshold) \<Rightarrow>
           (let (numer, denom) = quotient_of threshold in
            if u64_max < nat numer \<or> u64_max < nat denom then Err Unreachable
            else Ok (store_update_committee (Trusted threshold) added removed st))
       | None \<Rightarrow> Ok st)
      (\<lambda>st'. Ok (prune_non_elected st'))"

text \<open>What was enacted: the parameters, the dormant epochs and the guardrail script.\<close>

type_synonym enacted = "protocol_parameters \<times> nat \<times> hash option"

definition set_constitution_of ::
  "governance_updates \<Rightarrow> 'out ledger_store \<Rightarrow> (store_error, hash option \<times> 'out ledger_store) result" where
  "set_constitution_of gu st =
    (case gu_new_constitution gu of
       Some c \<Rightarrow> Ok (con_guardrail_script c, st\<lparr>st_constitution := Some c\<rparr>)
     | None \<Rightarrow>
         (case st_constitution st of
            Some c \<Rightarrow> Ok (con_guardrail_script c, st)
          | None \<Rightarrow> Err (MissingKey ''constitution'')))"

definition withdraw_treasury :: "governance_updates \<Rightarrow> 'out ledger_store \<Rightarrow> 'out ledger_store" where
  "withdraw_treasury gu st =
    (if om_is_empty (gu_treasury_withdrawals gu) then st
     else st\<lparr>st_pots := (st_pots st)\<lparr>pot_treasury :=
       u64_sub (pot_treasury (st_pots st)) (om_sum (\<lambda>x. x) (gu_treasury_withdrawals gu))\<rparr>\<rparr>)"

definition update_governance_activity ::
  "governance_updates \<Rightarrow> 'out ledger_store \<Rightarrow> nat \<times> 'out ledger_store" where
  "update_governance_activity gu st =
    (let dormant = (case st_governance_activity st of Some n \<Rightarrow> n | None \<Rightarrow> 0) in
     if gu_is_dormant_epoch gu then (dormant + 1, st\<lparr>st_governance_activity := Some (dormant + 1)\<rparr>)
     else (dormant, st))"

definition apply_governance_updates ::
  "governance_updates \<Rightarrow> 'out ledger_store \<Rightarrow> (store_error, enacted \<times> 'out ledger_store) result" where
  "apply_governance_updates gu st =
    res_bind (set_constitution_of gu (st\<lparr>st_proposals_roots := Some (gu_roots gu)\<rparr>)) (\<lambda>(guardrail_script, st1).
    res_bind (update_constitutional_committee (gu_constitutional_committee gu) st1) (\<lambda>st2.
      let st3 = st2\<lparr>st_protocol_parameters := Some (gu_protocol_parameters gu)\<rparr>;
          st4 = pay_or_refund_accounts
            (om_entries (gu_deposit_refunds gu) @ om_entries (gu_treasury_withdrawals gu)) st3;
          (dormant, st5) = update_governance_activity gu (withdraw_treasury gu st4);
          st6 = proposals_remove (om_keys (gu_pruned_proposals gu)) st5
      in Ok ((gu_protocol_parameters gu, dormant, guardrail_script), st6)))"

section \<open>The overlay\<close>

record state_overlay =
  ov_epoch :: epoch
  ov_most_recent_snapshot :: "epoch option"
  ov_rewards :: rewards_state
  ov_pools_updates :: "pools_updates option"
  ov_governance_updates :: "governance_updates option"
  ov_treasury_delta :: treasury_delta

definition overlay_new :: "epoch \<Rightarrow> state_overlay" where
  "overlay_new epoch =
    \<lparr>ov_epoch = epoch, ov_most_recent_snapshot = None, ov_rewards = NotReady, ov_pools_updates = None,
     ov_governance_updates = None, ov_treasury_delta = Zero\<rparr>"

definition overlay_rollback :: "state_overlay \<Rightarrow> state_overlay" where
  "overlay_rollback ov = ov\<lparr>ov_rewards := rollback_rewards (ov_rewards ov), ov_pools_updates := None,
     ov_governance_updates := None, ov_treasury_delta := Zero, ov_epoch := u64_sub (ov_epoch ov) 1\<rparr>"

definition unpayable :: "(credential \<Rightarrow> bool) \<Rightarrow> (credential \<times> lovelace) list \<Rightarrow> lovelace" where
  "unpayable account_exists payouts =
    foldl (\<lambda>total (credential, amount). if account_exists credential then total else total + amount) 0 payouts"

definition overlay_transition ::
  "effective_rewards option \<Rightarrow> pools_updates \<Rightarrow> governance_updates \<Rightarrow> lovelace \<Rightarrow> (credential \<Rightarrow> bool) \<Rightarrow>
    state_overlay \<Rightarrow> state_overlay" where
  "overlay_transition effective_rewards pu gu donations account_exists ov =
    ov\<lparr>ov_epoch := ov_epoch ov + 1,
      ov_treasury_delta :=
        td_add (td_add (td_add (Debit (om_sum (\<lambda>x. x) (gu_treasury_withdrawals gu)))
            (case effective_rewards of Some er \<Rightarrow> er_delta_treasury er | None \<Rightarrow> 0))
          donations)
          (unpayable account_exists (om_entries (pu_refunds pu) @ om_entries (gu_deposit_refunds gu) @
            om_entries (gu_treasury_withdrawals gu))),
      ov_rewards := (case effective_rewards of Some er \<Rightarrow> EffectiveRewards er | None \<Rightarrow> NotReady),
      ov_pools_updates := Some pu, ov_governance_updates := Some gu\<rparr>"

definition overlay_pruned_proposals :: "state_overlay \<Rightarrow> (proposal_id, ratification_status) omap" where
  "overlay_pruned_proposals ov =
    (case ov_governance_updates ov of Some gu \<Rightarrow> gu_pruned_proposals gu | None \<Rightarrow> om_empty)"

definition overlay_is_empty :: "state_overlay \<Rightarrow> bool" where
  "overlay_is_empty ov =
    ((case ov_rewards ov of EffectiveRewards _ \<Rightarrow> False | _ \<Rightarrow> True) \<and> ov_pools_updates ov = None \<and>
     ov_governance_updates ov = None)"

definition is_pool_retired :: "state_overlay \<Rightarrow> pool_id \<Rightarrow> bool" where
  "is_pool_retired ov pool =
    (case ov_pools_updates ov of Some pu \<Rightarrow> om_contains (pu_retired pu) pool | None \<Rightarrow> False)"

definition has_pruned_proposal :: "state_overlay \<Rightarrow> proposal_id \<Rightarrow> bool" where
  "has_pruned_proposal ov pid =
    (case ov_governance_updates ov of Some gu \<Rightarrow> om_contains (gu_pruned_proposals gu) pid | None \<Rightarrow> False)"

definition pending_reward_credit :: "state_overlay \<Rightarrow> credential \<Rightarrow> lovelace" where
  "pending_reward_credit ov credential =
    (case ov_rewards ov of EffectiveRewards er \<Rightarrow> reward_of er credential | _ \<Rightarrow> 0) +
    (case ov_pools_updates ov of Some pu \<Rightarrow> refund pu credential | None \<Rightarrow> 0) +
    (case ov_governance_updates ov of Some gu \<Rightarrow> payout gu credential | None \<Rightarrow> 0)"

section \<open>Flushing the overlay\<close>

text \<open>
  The disk: the live store and a checkpoint per epoch.  A transaction sees the live
  store and replaces it when it succeeds; a checkpoint copies what is committed.
\<close>

record 'out disk =
  dk_live :: "'out ledger_store"
  dk_snapshots :: "(epoch, 'out ledger_store) omap"

datatype state_error = Storage store_error | NoEffectiveRewards

definition end_of_epoch ::
  "state_overlay \<Rightarrow> 'out ledger_store \<Rightarrow> (state_error, state_overlay \<times> 'out ledger_store) result" where
  "end_of_epoch ov st =
    (let (should_end_epoch, st1) = try_epoch_transition None (Some EpochEnded) st; ov' = ov\<lparr>ov_rewards := NotReady\<rparr> in
     if should_end_epoch then
       (case ov_rewards ov of
          EffectiveRewards er \<Rightarrow>
            (case pay_rewards er st1 of
               Err e \<Rightarrow> Err (Storage e)
             | Ok st2 \<Rightarrow> Ok (ov', reset_recently_pruned_proposals (overlay_pruned_proposals ov) st2))
        | _ \<Rightarrow> Err NoEffectiveRewards)
     else Ok (ov', st1))"

definition take_snapshot :: "state_overlay \<Rightarrow> 'out disk \<Rightarrow> state_overlay \<times> 'out disk" where
  "take_snapshot ov d =
    (let (should_snapshot, st1) = try_epoch_transition (Some EpochEnded) (Some SnapshotTaken) (dk_live d) in
     if should_snapshot then
       (ov\<lparr>ov_most_recent_snapshot := Some (u64_sub (ov_epoch ov) 1)\<rparr>,
        d\<lparr>dk_snapshots := om_insert (u64_sub (ov_epoch ov) 1) (dk_live d) (dk_snapshots d), dk_live := st1\<rparr>)
     else (ov, d\<lparr>dk_live := st1\<rparr>))"

definition start_of_epoch ::
  "state_overlay \<Rightarrow> 'out ledger_store \<Rightarrow>
    (state_error, enacted option \<times> state_overlay \<times> 'out ledger_store) result" where
  "start_of_epoch ov st =
    (let (should_begin_epoch, st1) = try_epoch_transition (Some SnapshotTaken) None st;
         ov' = ov\<lparr>ov_pools_updates := None, ov_governance_updates := None\<rparr> in
     if should_begin_epoch then
       let st2 = reset_fees_and_donations (reset_blocks_count
             (prune_recently_unregistered_accounts (ov_epoch ov) st1));
           st3 = (case ov_pools_updates ov of
               Some pu \<Rightarrow> pay_or_refund_accounts (om_entries (pu_refunds pu))
                 (update_or_retire_pools (pu_updated pu) (pu_retired pu) st2)
             | None \<Rightarrow> st2)
       in (case ov_governance_updates ov of
             Some gu \<Rightarrow>
               (case apply_governance_updates gu st3 of
                  Err e \<Rightarrow> Err (Storage e)
                | Ok (updated, st4) \<Rightarrow> Ok (Some updated, ov', st4))
           | None \<Rightarrow> Ok (None, ov', st3))
     else Ok (None, ov', st1))"

text \<open>
  The three transactions, one after the other: a failure keeps what the earlier ones
  have committed.
\<close>

definition overlay_apply ::
  "state_overlay \<Rightarrow> 'out disk \<Rightarrow> 'out disk \<times> (state_error, enacted option \<times> state_overlay) result" where
  "overlay_apply ov d =
    (case end_of_epoch ov (dk_live d) of
       Err e \<Rightarrow> (d, Err e)
     | Ok (ov1, st1) \<Rightarrow>
         (let (ov2, d2) = take_snapshot ov1 (d\<lparr>dk_live := st1\<rparr>) in
          (case start_of_epoch ov2 (dk_live d2) of
             Err e \<Rightarrow> (d2, Err e)
           | Ok (updated, ov3, st3) \<Rightarrow>
               (d2\<lparr>dk_live := st3\<rparr>, Ok (updated, ov3\<lparr>ov_treasury_delta := Zero\<rparr>)))))"

section \<open>Accounts that can no longer be paid\<close>

text \<open>
  The view of the volatile window: the accounts it registers and those it removes,
  from the merged diff of its blocks.
\<close>

definition view_registered :: "account_diff \<Rightarrow> credential oset" where
  "view_registered accounts =
    os_extend om_empty (map fst (filter (\<lambda>(_, b). bvalue b \<noteq> None) (om_entries (registered accounts))))"

definition view_unregistered :: "account_diff \<Rightarrow> credential oset" where
  "view_unregistered accounts = unregistered accounts"

text \<open>
  The iterator, run to its end: the index of the store first, then the accounts the
  window removes, then the owners of pools that are still unaccounted for.
\<close>

definition iter_unreachable_accounts ::
  "(credential \<Rightarrow> bool) \<Rightarrow> credential list \<Rightarrow> credential oset \<Rightarrow> credential oset \<Rightarrow> credential oset \<Rightarrow> credential list" where
  "iter_unreachable_accounts account_exists recently_unregistered registrations deregistrations pools_owners =
    (let owners1 = om_remove_all recently_unregistered pools_owners;
         from_index = filter (\<lambda>account. \<not> om_contains registrations account) recently_unregistered;
         from_window = om_keys deregistrations;
         owners2 = om_remove_all from_window owners1;
         from_owners = filter (\<lambda>account. \<not> om_contains registrations account \<and> \<not> account_exists account) (om_keys owners2)
     in from_index @ from_window @ from_owners)"

definition unreachable_accounts ::
  "'out ledger_store \<Rightarrow> account_diff \<Rightarrow> credential oset \<Rightarrow> credential list" where
  "unreachable_accounts st accounts pools_owners =
    iter_unreachable_accounts (\<lambda>account. om_contains (st_accounts st) account)
      (om_keys (st_recently_unregistered st)) (view_registered accounts) (view_unregistered accounts) pools_owners"

lemma db_ok_fold: "\<forall>d \<in> set ds. db_ok d \<Longrightarrow> db_ok (db_fold ds)"
proof (induction ds rule: rev_induct)
  case Nil
  show ?case by (simp add: db_fold_def db_ok_def db_default_def)
next
  case (snoc d ds)
  then show ?case by (simp add: db_fold_def db_ok_extend)
qed

lemma set_unreachable_accounts:
  "k \<in> set (unreachable_accounts st d owners) \<longleftrightarrow>
    (om_lookup (st_recently_unregistered st) k \<noteq> None \<and> \<not> om_contains (view_registered d) k) \<or>
    om_contains (unregistered d) k \<or>
    (om_contains owners k \<and> \<not> om_contains (view_registered d) k \<and> \<not> om_contains (st_accounts st) k \<and>
     om_lookup (st_recently_unregistered st) k = None)"
  by (auto simp: unreachable_accounts_def iter_unreachable_accounts_def view_unregistered_def Let_def
      om_keys_set om_contains_def)

lemma view_registered_iff:
  "om_contains (view_registered d) k \<longleftrightarrow> (\<exists>b. om_lookup (registered d) k = Some b \<and> bvalue b \<noteq> None)"
  by (force simp: view_registered_def om_contains_os_set om_entries_iff)

text \<open>
  The accounts reported at the boundary, from the store and the window, are those that
  are gone once the window has been applied to the store.  The answer is only right
  for accounts that are looked for: those in the store or in its index, and the owners.
\<close>

lemma unreachable_iff_gone:
  assumes "index_ok st" and "apply_blocks r h pp ga as st = Ok st'" and "newer_blocks r h pp ga as st"
    and ok: "\<forall>a \<in> set as. db_ok (vf_accounts (af_fragment a))"
    and known: "om_contains owners k \<or> om_contains (st_accounts st) k \<or> om_lookup (st_recently_unregistered st) k \<noteq> None"
  shows "k \<in> set (unreachable_accounts st (db_fold (map (\<lambda>a. vf_accounts (af_fragment a)) as)) owners) \<longleftrightarrow>
    om_lookup (st_accounts st') k = None"
proof -
  let ?d = "db_fold (map (\<lambda>a. vf_accounts (af_fragment a)) as)"
  have dok: "db_ok ?d" using ok by (intro db_ok_fold) auto
  have after: "om_lookup (st_accounts st') k = None \<longleftrightarrow>
      apply_verdict (db_get ?d k) (map_option account_entity (om_lookup (st_accounts st) k)) = None"
    using apply_blocks_account [OF assms(2,3) ok, of k] by (metis option.map_disc_iff)
  have out: "om_contains (st_accounts st) k \<Longrightarrow> om_lookup (st_recently_unregistered st) k = None"
    using assms(1) by (simp add: index_ok_def)
  show ?thesis
  proof (cases "db_get ?d k")
    case (Exists b)
    then have b: "om_lookup (registered ?d) k = Some b" "\<not> om_contains (unregistered ?d) k"
      using dok by (auto simp: db_get_def db_ok_iff split: option.splits if_splits)
    show ?thesis
      using known out after Exists b unfolding set_unreachable_accounts view_registered_iff
      by (cases "bvalue b"; cases "om_lookup (st_accounts st) k") (auto simp: om_contains_def)
  next
    case Gone
    then have "om_contains (unregistered ?d) k" by (auto simp: db_get_def split: option.splits if_splits)
    then show ?thesis using after Gone by (simp add: set_unreachable_accounts)
  next
    case Unknown
    then have "om_lookup (registered ?d) k = None" "\<not> om_contains (unregistered ?d) k"
      by (auto simp: db_get_def split: option.splits if_splits)
    then show ?thesis
      using known out after Unknown unfolding set_unreachable_accounts view_registered_iff
      by (auto simp: om_contains_def)
  qed
qed

section \<open>Rewards are paid in full\<close>

definition owed :: "effective_rewards \<Rightarrow> credential \<Rightarrow> lovelace" where
  "owed er k = (case sp_get (cr_accounts er) k of Some a \<Rightarrow> as_rewards a | None \<Rightarrow> 0)"

lemma sum_list_om_keys: "sum_list (map f (om_keys m)) = sum f (set (om_keys m))"
  by (simp add: sum_list_distinct_conv_sum_set strict_sorted_distinct [OF om_keys_sorted])

lemma rewards_of_owed:
  assumes "al_sorted (cr_accounts er)"
  shows "rewards_of (cr_accounts er) = sum (owed er) (fst ` set (cr_accounts er))"
proof -
  have dist: "distinct (map fst (cr_accounts er))" using assms by (rule strict_sorted_distinct)
  have "rewards_of (cr_accounts er) = sum_list (map (owed er) (map fst (cr_accounts er)))"
    unfolding rewards_of_def map_map using dist
    by (intro arg_cong [where f = sum_list] map_cong) (auto simp: owed_def sp_get_map_of [OF assms])
  then show ?thesis using sum_list_distinct_conv_sum_set [OF dist, of "owed er"] by simp
qed

lemma rewards_paid_in_full:
  assumes sorted: "al_sorted (cr_accounts er)"
    and exact: "\<And>k. 0 < owed er k \<Longrightarrow> om_contains (er_unclaimed er) k \<longleftrightarrow> \<not> om_contains accounts k"
  shows "rewards_paid er accounts + total_unclaimed_rewards er = rewards_of (cr_accounts er)"
proof -
  let ?K = "set (om_keys accounts)" and ?U = "set (om_keys (er_unclaimed er))" and ?C = "fst ` set (cr_accounts er)"
  have zero: "owed er k = 0" if "k \<notin> ?C" for k
    using that unfolding owed_def sp_get_map_of [OF sorted] by (simp add: map_of_eq_None_iff [THEN iffD2])
  have U: "om_contains (er_unclaimed er) k \<longleftrightarrow> k \<in> ?U" and K: "om_contains accounts k \<longleftrightarrow> k \<in> ?K" for k
    by (simp_all add: om_keys_set om_contains_def)
  have "rewards_paid er accounts = sum_list (map (reward_of er) (om_keys accounts))"
    by (simp add: rewards_paid_def om_keys_def comp_def case_prod_unfold)
  also have "\<dots> = (\<Sum>k\<in>?K. if k \<in> ?U then 0 else owed er k)"
    unfolding sum_list_om_keys reward_of_def owed_def U ..
  also have "\<dots> = sum (owed er) (?K - ?U)"
    by (simp add: sum.If_cases Diff_eq)
  finally have paid: "rewards_paid er accounts = sum (owed er) (?K - ?U)" .
  have "total_unclaimed_rewards er = sum (owed er) ?U"
    unfolding total_unclaimed_rewards_def owed_def [abs_def] sum_list_om_keys ..
  then have "rewards_paid er accounts + total_unclaimed_rewards er = sum (owed er) ((?K - ?U) \<union> ?U)"
    unfolding paid by (subst sum.union_disjoint) auto
  also have "\<dots> = sum (owed er) ?C"
  proof (rule sum.mono_neutral_cong)
    fix k assume "k \<in> ?C - ((?K - ?U) \<union> ?U)"
    then show "owed er k = 0" using exact [of k] U [of k] K [of k] by (cases "owed er k = 0") auto
  qed (auto intro: zero)
  finally show ?thesis using rewards_of_owed [OF sorted] by simp
qed

text \<open>The accounts of a reward calculation are those it started from and the recipients it recorded.\<close>

definition keys_grow :: "leader_pass \<Rightarrow> leader_pass \<Rightarrow> bool" where
  "keys_grow lp lp' =
    (fst ` set (lp_accounts lp') \<subseteq> fst ` set (lp_accounts lp) \<union> os_set (lp_recipients lp') \<and>
     os_set (lp_recipients lp) \<subseteq> os_set (lp_recipients lp'))"

lemma keys_grow_trans:
  assumes "keys_grow a b" and "keys_grow b c"
  shows "keys_grow a c"
proof -
  have "fst ` set (lp_accounts c) \<subseteq> fst ` set (lp_accounts b) \<union> os_set (lp_recipients c)"
    "fst ` set (lp_accounts b) \<subseteq> fst ` set (lp_accounts a) \<union> os_set (lp_recipients c)"
    using assms unfolding keys_grow_def by blast+
  then show ?thesis using assms unfolding keys_grow_def by blast
qed

lemma keys_sp_modify: "al_sorted xs \<Longrightarrow> fst ` set (sp_modify k f xs) = fst ` set xs"
  by (simp add: sp_modify_map image_image case_prod_unfold)

lemma pay_leader_keys:
  assumes "al_sorted (lp_accounts lp)"
  shows "keys_grow lp (pay_leader k n lp)"
proof -
  have "fst ` set (sp_insert k v (lp_accounts lp)) = insert k (fst ` set (lp_accounts lp))" for v
    using set_al_insert_keys [of k v "lp_accounts lp"] by (simp add: sp_insert_al_insert [OF assms])
  then show ?thesis
    using keys_sp_modify [OF assms]
    by (auto simp: pay_leader_def keys_grow_def split: option.splits)
qed

lemma pay_leaders_keys:
  "pay_leaders n avail active ts pp pools lp = Some lp' \<Longrightarrow> al_sorted (lp_accounts lp) \<Longrightarrow> keys_grow lp lp'"
proof (induction n avail active ts pp pools lp rule: pay_leaders.induct)
  case (1 n avail active ts pp lp)
  then show ?case by (simp add: keys_grow_def)
next
  case (2 n avail active ts pp pid pool pools lp)
  let ?k = "snd (pool_reward_account (pst_parameters pool))"
  let ?lp0 = "lp\<lparr>lp_blocks := om_remove (pool_id (pst_parameters pool)) (lp_blocks lp)\<rparr>"
  obtain lp1 pots where one: "apply_leader_rewards n avail active ts pp pool lp = Some (lp1, pots)"
    using "2.prems"(1) by (cases "apply_leader_rewards n avail active ts pp pool lp") auto
  then obtain leader where lp1: "lp1 = pay_leader ?k leader ?lp0"
    by (auto simp: apply_leader_rewards_def Let_def split: option.splits bind_splits)
  define lp2 where "lp2 = lp1\<lparr>lp_effective := lp_effective lp1 + pw_leader pots, lp_pools := om_insert pid pots (lp_pools lp1)\<rparr>"
  have "al_sorted (lp_accounts lp2)" using pay_leader_spec(1) [of ?lp0] "2.prems"(2) by (simp add: lp2_def lp1)
  moreover have "pay_leaders n avail active ts pp pools lp2 = Some lp'" using "2.prems"(1) one by (simp add: lp2_def)
  ultimately have "keys_grow lp2 lp'" using "2.IH" [OF one refl, folded lp2_def] by simp
  moreover have "keys_grow lp lp1" using pay_leader_keys [of ?lp0 ?k leader] "2.prems"(2) by (simp add: lp1 keys_grow_def)
  moreover have "keys_grow lp1 lp' = keys_grow lp2 lp'" by (simp add: keys_grow_def lp2_def)
  ultimately show ?case using keys_grow_trans by blast
qed

lemma pay_members_keys: "pay_members pools pots ts xs = Some (ys, t) \<Longrightarrow> map fst ys = map fst xs"
proof (induction pools pots ts xs arbitrary: ys t rule: pay_members.induct)
  case (2 pools pots ts k a xs)
  obtain a' r where one: "pay_member pools pots ts k a = Some (a', r)"
    using "2.prems" by (cases "pay_member pools pots ts k a") auto
  obtain zs u where "pay_members pools pots ts xs = Some (zs, u)"
    using "2.prems" one by (cases "pay_members pools pots ts xs") auto
  then show ?case using 2 one by auto
qed simp

lemma rewards_summary_keys:
  assumes "rewards_summary_new ss g pp issuers pots = Some rs" and "al_sorted (ss_accounts ss)"
  shows "fst ` set (rs_accounts rs) \<subseteq> fst ` set (ss_accounts ss) \<union> os_set (rs_leader_recipients rs)"
proof -
  obtain n avail ts blocks lp t where
    lp: "pay_leaders n avail (sd_active_stake (ss_stake_distribution ss)) ts pp (om_entries (sd_pools (ss_stake_distribution ss)))
      \<lparr>lp_accounts = ss_accounts ss, lp_recipients = om_empty, lp_blocks = blocks, lp_pools = om_empty, lp_effective = 0\<rparr> = Some lp"
    and mem: "pay_members (sd_pools (ss_stake_distribution ss)) (lp_pools lp) ts (lp_accounts lp) = Some (rs_accounts rs, t)"
    and rec: "rs_leader_recipients rs = lp_recipients lp"
    using assms(1) by (auto simp: rewards_summary_new_def Let_def split: prod.splits bind_splits)
  show ?thesis
    using pay_leaders_keys [OF lp] pay_members_keys [OF mem] assms(2) rec
    by (simp add: keys_grow_def flip: set_map)
qed

section \<open>Payouts\<close>

text \<open>What a list of payouts gives to an account, and what is left over because the account is gone.\<close>

definition paid_to :: "(credential \<times> lovelace) list \<Rightarrow> credential \<Rightarrow> lovelace" where
  "paid_to payouts k = sum_list (map (\<lambda>(c, amount). if c = k then amount else 0) payouts)"

definition lost :: "(credential \<Rightarrow> bool) \<Rightarrow> (credential \<times> lovelace) list \<Rightarrow> lovelace" where
  "lost account_exists payouts = sum_list (map (\<lambda>(c, amount). if account_exists c then 0 else amount) payouts)"

definition credit :: "(credential \<times> lovelace) list \<Rightarrow> (credential, account_row) omap \<Rightarrow> (credential, account_row) omap" where
  "credit payouts accounts =
    om_map (\<lambda>k row. row\<lparr>arow_rewards := arow_rewards row + paid_to payouts k\<rparr>) accounts"

lemma unpayable_lost: "unpayable account_exists payouts = lost account_exists payouts"
proof -
  have "foldl (\<lambda>total (c, amount). if account_exists c then total else total + amount) n payouts =
      n + lost account_exists payouts" for n
    by (induction payouts arbitrary: n) (auto simp: lost_def)
  then show ?thesis by (simp add: unpayable_def)
qed

lemma paid_to_entries: "paid_to (om_entries m) k = amount_of m k"
  using sum_list_lookup [OF om_entries_distinct [of m], of "\<lambda>x. x" k]
  by (simp add: paid_to_def amount_of_def om_lookup_entries)

lemma paid_to_append [simp]: "paid_to (xs @ ys) k = paid_to xs k + paid_to ys k"
  by (simp add: paid_to_def)

lemma lost_append [simp]: "lost f (xs @ ys) = lost f xs + lost f ys"
  by (simp add: lost_def)

lemma lost_cong: "\<forall>(c, _) \<in> set ps. f c \<longleftrightarrow> g c \<Longrightarrow> lost f ps = lost g ps"
  by (induction ps) (auto simp: lost_def)

lemma credit_lookup:
  "om_lookup (credit ps m) k = map_option (\<lambda>row. row\<lparr>arow_rewards := arow_rewards row + paid_to ps k\<rparr>) (om_lookup m k)"
  by (simp add: credit_def)

lemma credit_gone: "om_lookup m c = None \<Longrightarrow> credit ((c, x) # ps) m = credit ps m"
proof (intro om_eqI ext)
  fix y assume "om_lookup m c = None"
  then show "om_lookup (credit ((c, x) # ps) m) y = om_lookup (credit ps m) y"
    by (cases "om_lookup m y"; cases "y = c") (simp_all add: credit_lookup paid_to_def)
qed

lemma credit_paid:
  "om_lookup m c = Some row \<Longrightarrow>
    credit ((c, x) # ps) m = credit ps (om_insert c (row\<lparr>arow_rewards := arow_rewards row + x\<rparr>) m)"
proof (intro om_eqI ext)
  fix y assume "om_lookup m c = Some row"
  then show "om_lookup (credit ((c, x) # ps) m) y =
      om_lookup (credit ps (om_insert c (row\<lparr>arow_rewards := arow_rewards row + x\<rparr>) m)) y"
    by (cases "om_lookup m y"; cases "y = c") (simp_all add: credit_lookup paid_to_def)
qed

lemma contains_credit [simp]: "om_contains (credit ps m) k = om_contains m k"
  by (simp add: credit_def om_contains_def)

lemma credit_Nil [simp]: "credit [] m = m"
  by (rule om_eqI) (auto simp: credit_def paid_to_def option.map_ident)

lemma refund_accounts_eq:
  "refund_accounts payouts (n, st) =
    (n + lost (om_contains (st_accounts st)) payouts, st\<lparr>st_accounts := credit payouts (st_accounts st)\<rparr>)"
proof (induction payouts arbitrary: n st)
  case Nil
  then show ?case by (simp add: refund_accounts_def lost_def)
next
  case (Cons p payouts)
  obtain c x where p: "p = (c, x)" by (cases p)
  show ?case
  proof (cases "om_lookup (st_accounts st) c")
    case None
    show ?thesis
      using Cons.IH [of "n + x" st] None p credit_gone [OF None]
      by (simp add: refund_accounts_def refund_account_def accounts_set_rewards_def lost_def om_contains_def)
  next
    case (Some row)
    let ?m = "om_insert c (row\<lparr>arow_rewards := arow_rewards row + x\<rparr>) (st_accounts st)"
    have "om_contains ?m = om_contains (st_accounts st)"
      using Some by (auto simp: om_contains_def fun_eq_iff)
    then show ?thesis
      using Cons.IH [of n "st\<lparr>st_accounts := ?m\<rparr>"] Some p credit_paid [OF Some]
      by (simp add: refund_accounts_def refund_account_def accounts_set_rewards_def lost_def om_contains_def)
  qed
qed

lemma pay_or_refund_accounts_eq:
  "pay_or_refund_accounts ps st = st\<lparr>st_accounts := credit ps (st_accounts st),
     st_pots := (st_pots st)\<lparr>pot_treasury := (if lost (om_contains (st_accounts st)) ps = 0 then pot_treasury (st_pots st)
       else u64_add (pot_treasury (st_pots st)) (lost (om_contains (st_accounts st)) ps))\<rparr>\<rparr>"
  by (simp add: pay_or_refund_accounts_def refund_accounts_eq Let_def)

lemma proposals_remove_frame: "\<exists>v p. proposals_remove ks st = st\<lparr>st_votes := v, st_proposals := p\<rparr>"
proof (induction ks arbitrary: st)
  case Nil
  show ?case by (intro exI [of _ "st_votes st"] exI [of _ "st_proposals st"]) (simp add: proposals_remove_def)
next
  case (Cons k ks)
  have votes: "foldl (\<lambda>st vote. st\<lparr>st_votes := om_remove vote (st_votes st)\<rparr>) st vs =
      st\<lparr>st_votes := om_remove_all vs (st_votes st)\<rparr>" for vs and st :: "'a ledger_store"
    by (induction vs arbitrary: st) auto
  let ?st = "st\<lparr>st_votes := om_remove_all (votes_iter_by_proposal k st) (st_votes st), st_proposals := om_remove k (st_proposals st)\<rparr>"
  have "proposals_remove (k # ks) st = proposals_remove ks ?st"
    by (simp add: proposals_remove_def Let_def votes)
  then show ?case using Cons.IH [of ?st] by auto
qed

lemma update_committee_frame:
  assumes "update_constitutional_committee u st = Ok st'"
  shows "\<exists>c m. st' = st\<lparr>st_constitutional_committee := c, st_cc_members := m\<rparr>"
proof -
  have "st' = st\<lparr>st_constitutional_committee := st_constitutional_committee st', st_cc_members := st_cc_members st'\<rparr>"
    using assms
    by (auto simp: update_constitutional_committee_def res_bind_ok_iff store_update_committee_def store_ops Let_def
        prune_non_elected_def split: option.splits cc_update.splits if_splits prod.splits)
  then show ?thesis by blast
qed

text \<open>What the governance updates write, as one update of the store.\<close>

lemma apply_governance_updates_form:
  assumes "apply_governance_updates gu st = Ok (x, st')"
  shows "\<exists>c cc m g v p. st' = st\<lparr>st_proposals_roots := Some (gu_roots gu), st_constitution := c,
      st_constitutional_committee := cc, st_cc_members := m,
      st_protocol_parameters := Some (gu_protocol_parameters gu), st_governance_activity := g, st_votes := v, st_proposals := p,
      st_accounts := credit (om_entries (gu_deposit_refunds gu) @ om_entries (gu_treasury_withdrawals gu)) (st_accounts st),
      st_pots := st_pots (withdraw_treasury gu (pay_or_refund_accounts
        (om_entries (gu_deposit_refunds gu) @ om_entries (gu_treasury_withdrawals gu)) st))\<rparr>"
proof -
  let ?ps = "om_entries (gu_deposit_refunds gu) @ om_entries (gu_treasury_withdrawals gu)"
  let ?st0 = "st\<lparr>st_proposals_roots := Some (gu_roots gu)\<rparr>"
  obtain s st1 st2 where st1: "set_constitution_of gu ?st0 = Ok (s, st1)"
    and st2: "update_constitutional_committee (gu_constitutional_committee gu) st1 = Ok st2"
    and st': "st' = proposals_remove (om_keys (gu_pruned_proposals gu)) (snd (update_governance_activity gu
      (withdraw_treasury gu (pay_or_refund_accounts ?ps (st2\<lparr>st_protocol_parameters := Some (gu_protocol_parameters gu)\<rparr>)))))"
    using assms by (auto simp: apply_governance_updates_def res_bind_ok_iff Let_def case_prod_unfold)
  obtain c where c: "st1 = ?st0\<lparr>st_constitution := c\<rparr>"
    using st1 by (intro that [of "st_constitution st1"]) (auto simp: set_constitution_of_def split: option.splits)
  obtain cc m where m: "st2 = st1\<lparr>st_constitutional_committee := cc, st_cc_members := m\<rparr>"
    using update_committee_frame [OF st2] by blast
  define st3 where "st3 = withdraw_treasury gu (pay_or_refund_accounts ?ps (st2\<lparr>st_protocol_parameters := Some (gu_protocol_parameters gu)\<rparr>))"
  obtain g where g: "snd (update_governance_activity gu st3) = st3\<lparr>st_governance_activity := g\<rparr>"
    by (cases "gu_is_dormant_epoch gu") (auto simp: update_governance_activity_def Let_def intro!: that [of "st_governance_activity st3"])
  obtain v p where "st' = st3\<lparr>st_governance_activity := g, st_votes := v, st_proposals := p\<rparr>"
    using proposals_remove_frame [of "om_keys (gu_pruned_proposals gu)" "st3\<lparr>st_governance_activity := g\<rparr>"]
      st' [folded st3_def] g by auto
  then show ?thesis
    by (intro exI [of _ c] exI [of _ cc] exI [of _ m] exI [of _ g] exI [of _ v] exI [of _ p])
      (simp add: st3_def m c withdraw_treasury_def pay_or_refund_accounts_eq)
qed

section \<open>The overlay, flushed\<close>

text \<open>The state of a store after the end of an epoch and after the start of the next one.\<close>

definition ended :: "state_overlay \<Rightarrow> effective_rewards \<Rightarrow> 'out ledger_store \<Rightarrow> 'out ledger_store" where
  "ended ov er st = st\<lparr>st_progress := Some EpochEnded, st_accounts := om_map (pay_row er) (st_accounts st),
     st_pots := (st_pots st)\<lparr>pot_treasury := u64_add (pot_treasury (st_pots st)) (er_delta_treasury er),
       pot_reserves := u64_sub (pot_reserves (st_pots st)) (cr_delta_reserves er)\<rparr>,
     st_recently_pruned := om_extend om_empty (om_entries (overlay_pruned_proposals ov))\<rparr>"

lemma end_of_epoch_form:
  assumes "st_progress st = None" and "end_of_epoch ov st = Ok (ov1, st1)"
  shows "\<exists>er. ov_rewards ov = EffectiveRewards er \<and> ov1 = ov\<lparr>ov_rewards := NotReady\<rparr> \<and> st1 = ended ov er st \<and>
    rewards_paid er (st_accounts st) + total_unclaimed_rewards er = cr_total_rewards er"
  using assms
  by (auto simp: end_of_epoch_def try_epoch_transition_def pay_rewards_def ended_def Let_def
      reset_recently_pruned_proposals_def recently_pruned_replace_all_def split: rewards_state.splits if_splits sum.splits)

text \<open>The payouts of a boundary: refunds of pools, then refunds of proposals and withdrawals.\<close>

definition pool_payouts :: "state_overlay \<Rightarrow> (credential \<times> lovelace) list" where
  "pool_payouts ov = (case ov_pools_updates ov of Some pu \<Rightarrow> om_entries (pu_refunds pu) | None \<Rightarrow> [])"

definition governance_payouts :: "state_overlay \<Rightarrow> (credential \<times> lovelace) list" where
  "governance_payouts ov = (case ov_governance_updates ov of
     Some gu \<Rightarrow> om_entries (gu_deposit_refunds gu) @ om_entries (gu_treasury_withdrawals gu) | None \<Rightarrow> [])"

text \<open>The store when the updates of governance are about to be written.\<close>

definition begun :: "state_overlay \<Rightarrow> 'out ledger_store \<Rightarrow> 'out ledger_store" where
  "begun ov st =
    (let st2 = reset_fees_and_donations (reset_blocks_count (prune_recently_unregistered_accounts (ov_epoch ov) (st\<lparr>st_progress := None\<rparr>))) in
     case ov_pools_updates ov of
       Some pu \<Rightarrow> pay_or_refund_accounts (om_entries (pu_refunds pu)) (update_or_retire_pools (pu_updated pu) (pu_retired pu) st2)
     | None \<Rightarrow> st2)"

lemma begun_frame:
  "st_accounts (begun ov st) = credit (pool_payouts ov) (st_accounts st)"
  "st_progress (begun ov st) = None"
  "st_recently_unregistered (begun ov st) = st_recently_unregistered (prune_recently_unregistered_accounts (ov_epoch ov) st)"
  by (cases "ov_pools_updates ov";
      simp add: begun_def pay_or_refund_accounts_eq update_or_retire_pools_def pool_payouts_def reset_fees_and_donations_def
        reset_blocks_count_def prune_recently_unregistered_accounts_def Let_def)+

lemma start_of_epoch_form:
  assumes "st_progress st = Some SnapshotTaken" and "start_of_epoch ov st = Ok (x, ov', st')"
  shows "case ov_governance_updates ov of None \<Rightarrow> st' = begun ov st
    | Some gu \<Rightarrow> (\<exists>y. apply_governance_updates gu (begun ov st) = Ok (y, st'))"
  using assms by (cases "ov_pools_updates ov"; cases "ov_governance_updates ov")
    (auto simp: start_of_epoch_def try_epoch_transition_def begun_def Let_def split: sum.splits)

lemma start_of_epoch_accounts:
  assumes "st_progress st = Some SnapshotTaken" and "start_of_epoch ov st = Ok (x, ov', st')"
  shows "st_accounts st' = credit (governance_payouts ov) (credit (pool_payouts ov) (st_accounts st))"
    and "st_recently_unregistered st' = st_recently_unregistered (prune_recently_unregistered_accounts (ov_epoch ov) st)"
    and "st_progress st' = None"
proof -
  have "st_accounts st' = credit (governance_payouts ov) (st_accounts (begun ov st)) \<and> st_progress st' = st_progress (begun ov st) \<and>
      st_recently_unregistered st' = st_recently_unregistered (begun ov st)"
  proof (cases "ov_governance_updates ov")
    case None
    then show ?thesis using start_of_epoch_form [OF assms] by (simp add: governance_payouts_def)
  next
    case (Some gu)
    then obtain y where "apply_governance_updates gu (begun ov st) = Ok (y, st')"
      using start_of_epoch_form [OF assms] by auto
    from apply_governance_updates_form [OF this] show ?thesis using Some by (auto simp: governance_payouts_def)
  qed
  then show "st_accounts st' = credit (governance_payouts ov) (credit (pool_payouts ov) (st_accounts st))"
    "st_recently_unregistered st' = st_recently_unregistered (prune_recently_unregistered_accounts (ov_epoch ov) st)"
    "st_progress st' = None"
    by (simp_all add: begun_frame)
qed

text \<open>A flush that starts from a clean store and succeeds.\<close>

lemma overlay_apply_form:
  assumes "st_progress (dk_live d) = None" and "overlay_apply ov d = (d', Ok (x, ov'))"
  shows "\<exists>er ov2 ov3. ov_rewards ov = EffectiveRewards er \<and>
    rewards_paid er (st_accounts (dk_live d)) + total_unclaimed_rewards er = cr_total_rewards er \<and>
    ov2 = ov\<lparr>ov_rewards := NotReady, ov_most_recent_snapshot := Some (u64_sub (ov_epoch ov) 1)\<rparr> \<and>
    start_of_epoch ov2 ((ended ov er (dk_live d))\<lparr>st_progress := Some SnapshotTaken\<rparr>) = Ok (x, ov3, dk_live d') \<and>
    dk_snapshots d' = om_insert (u64_sub (ov_epoch ov) 1) (ended ov er (dk_live d)) (dk_snapshots d) \<and>
    ov' = ov3\<lparr>ov_treasury_delta := Zero\<rparr>"
proof -
  obtain ov1 st1 where one: "end_of_epoch ov (dk_live d) = Ok (ov1, st1)"
    using assms(2) by (auto simp: overlay_apply_def split: sum.splits)
  obtain er where er: "ov_rewards ov = EffectiveRewards er" "ov1 = ov\<lparr>ov_rewards := NotReady\<rparr>" "st1 = ended ov er (dk_live d)"
    "rewards_paid er (st_accounts (dk_live d)) + total_unclaimed_rewards er = cr_total_rewards er"
    using end_of_epoch_form [OF assms(1) one] by blast
  have "st_progress st1 = Some EpochEnded" by (simp add: er(3) ended_def)
  then have "take_snapshot ov1 (d\<lparr>dk_live := st1\<rparr>) =
      (ov1\<lparr>ov_most_recent_snapshot := Some (u64_sub (ov_epoch ov) 1)\<rparr>,
       d\<lparr>dk_snapshots := om_insert (u64_sub (ov_epoch ov) 1) st1 (dk_snapshots d), dk_live := st1\<lparr>st_progress := Some SnapshotTaken\<rparr>\<rparr>)"
    by (simp add: take_snapshot_def try_epoch_transition_def er(2))
  then show ?thesis
    using assms(2) one er by (auto simp: overlay_apply_def split: sum.splits)
qed

section \<open>No rewarded account is overlooked\<close>

text \<open>
  The index covers the snapshots of the last three epochs: an account of such a
  snapshot is still registered, or it was marked in a later epoch.
\<close>

definition index_covers :: "epoch \<Rightarrow> 'out disk \<Rightarrow> bool" where
  "index_covers e d = (\<forall>e' snap k. om_lookup (dk_snapshots d) e' = Some snap \<longrightarrow> e' < e \<longrightarrow> e \<le> e' + 3 \<longrightarrow>
    om_contains (st_accounts snap) k \<longrightarrow>
    om_contains (st_accounts (dk_live d)) k \<or> (\<exists>u. om_lookup (st_recently_unregistered (dk_live d)) k = Some u \<and> e' < u))"

text \<open>
  The life of the disk: blocks of the current epoch are applied, and boundaries are
  flushed.  Snapshots of epochs to come do not exist.
\<close>

inductive disk_run :: "(point \<Rightarrow> point option) \<Rightarrow> era_history \<Rightarrow> epoch \<Rightarrow> 'out disk \<Rightarrow> bool" for r h where
  disk_start: "index_ok (dk_live d) \<Longrightarrow> index_covers e d \<Longrightarrow> (\<And>e'. e \<le> e' \<Longrightarrow> om_lookup (dk_snapshots d) e' = None) \<Longrightarrow>
    e < 2 ^ 64 \<Longrightarrow> disk_run r h e d"
| disk_block: "disk_run r h e d \<Longrightarrow> apply_block r h pp ga a (dk_live d) = Ok st \<Longrightarrow> is_newer r (af_tip a) (dk_live d) \<Longrightarrow>
    slot_to_epoch h (point_slot (af_tip a)) (point_slot (af_tip a)) = Ok e \<Longrightarrow> db_ok (vf_accounts (af_fragment a)) \<Longrightarrow>
    disk_run r h e (d\<lparr>dk_live := st\<rparr>)"
| disk_boundary: "disk_run r h e d \<Longrightarrow> st_progress (dk_live d) = None \<Longrightarrow> ov_epoch ov = e + 1 \<Longrightarrow> e + 1 < 2 ^ 64 \<Longrightarrow>
    overlay_apply ov d = (d', Ok x) \<Longrightarrow> disk_run r h (e + 1) d'"

lemma contains_pay_row [simp]: "om_contains (om_map (pay_row er) m) k = om_contains m k"
  by (simp add: om_contains_def)

lemma overlay_apply_accounts:
  assumes "st_progress (dk_live d) = None" and "overlay_apply ov d = (d', Ok x)"
  shows "om_contains (st_accounts (dk_live d')) k = om_contains (st_accounts (dk_live d)) k"
    and "om_lookup (st_recently_unregistered (dk_live d')) k =
      (case om_lookup (st_recently_unregistered (dk_live d)) k of
         Some u \<Rightarrow> if u + 3 \<le> ov_epoch ov then None else Some u | None \<Rightarrow> None)"
    and "\<exists>snap. dk_snapshots d' = om_insert (u64_sub (ov_epoch ov) 1) snap (dk_snapshots d) \<and>
      (\<forall>k. om_contains (st_accounts snap) k = om_contains (st_accounts (dk_live d)) k)"
proof -
  obtain y ov' where x: "x = (y, ov')" by (cases x)
  obtain er ov2 ov3 where f: "ov2 = ov\<lparr>ov_rewards := NotReady, ov_most_recent_snapshot := Some (u64_sub (ov_epoch ov) 1)\<rparr>"
    "start_of_epoch ov2 ((ended ov er (dk_live d))\<lparr>st_progress := Some SnapshotTaken\<rparr>) = Ok (y, ov3, dk_live d')"
    "dk_snapshots d' = om_insert (u64_sub (ov_epoch ov) 1) (ended ov er (dk_live d)) (dk_snapshots d)"
    using overlay_apply_form [OF assms(1) assms(2) [unfolded x]] by blast
  note start = start_of_epoch_accounts [OF _ f(2), simplified]
  show "om_contains (st_accounts (dk_live d')) k = om_contains (st_accounts (dk_live d)) k"
    by (simp add: start(1) ended_def)
  show "om_lookup (st_recently_unregistered (dk_live d')) k =
      (case om_lookup (st_recently_unregistered (dk_live d)) k of
         Some u \<Rightarrow> if u + 3 \<le> ov_epoch ov then None else Some u | None \<Rightarrow> None)"
    by (simp add: start(2) ended_def prune_recently_unregistered_accounts_def f(1) split: option.splits)
  show "\<exists>snap. dk_snapshots d' = om_insert (u64_sub (ov_epoch ov) 1) snap (dk_snapshots d) \<and>
      (\<forall>k. om_contains (st_accounts snap) k = om_contains (st_accounts (dk_live d)) k)"
    using f(3) by (auto simp: ended_def)
qed

lemma index_covers_block:
  assumes "index_covers e d" and "apply_block r h pp ga a (dk_live d) = Ok st" and "is_newer r (af_tip a) (dk_live d)"
    and e: "slot_to_epoch h (point_slot (af_tip a)) (point_slot (af_tip a)) = Ok e" and ok: "db_ok (vf_accounts (af_fragment a))"
  shows "index_covers e (d\<lparr>dk_live := st\<rparr>)"
proof -
  have "om_contains (st_accounts st) k \<or> (\<exists>u. om_lookup (st_recently_unregistered st) k = Some u \<and> e' < u)"
    if "e' < e" and k: "om_contains (st_accounts (dk_live d)) k \<or>
      (\<exists>u. om_lookup (st_recently_unregistered (dk_live d)) k = Some u \<and> e' < u)" for e' k
  proof -
    have acc: "om_contains (st_accounts st) k \<longleftrightarrow>
        apply_verdict (db_get (vf_accounts (af_fragment a)) k) (map_option account_entity (om_lookup (st_accounts (dk_live d)) k)) \<noteq> None"
      using apply_block_account(1) [OF assms(2,3) ok, of k] unfolding om_contains_def by (metis option.map_disc_iff)
    note idx = apply_block_index [OF assms(2,3) e ok, of k]
    show ?thesis
    proof (cases "db_get (vf_accounts (af_fragment a)) k")
      case (Exists b)
      then show ?thesis using k acc idx by (cases "bvalue b") (auto simp: om_contains_def)
    next
      case Gone
      then show ?thesis using idx that(1) by simp
    next
      case Unknown
      then show ?thesis using k acc idx by (auto simp: om_contains_def)
    qed
  qed
  then show ?thesis using assms(1) unfolding index_covers_def by simp
qed

lemma disk_run_invariant:
  assumes "disk_run r h e d"
  shows "index_ok (dk_live d) \<and> index_covers e d \<and> (\<forall>e' \<ge> e. om_lookup (dk_snapshots d) e' = None) \<and> e < 2 ^ 64"
  using assms
proof (induction rule: disk_run.induct)
  case (disk_start d e)
  then show ?case by simp
next
  case (disk_block e d pp ga a st)
  then show ?case
    using apply_block_index_ok [OF _ disk_block.hyps(2,3,5)] index_covers_block [OF _ disk_block.hyps(2-5)] by simp
next
  case (disk_boundary e d ov d' x)
  note ap = overlay_apply_accounts [OF disk_boundary.hyps(2,5)]
  obtain snap where snap: "dk_snapshots d' = om_insert e snap (dk_snapshots d)"
    "\<forall>k. om_contains (st_accounts snap) k = om_contains (st_accounts (dk_live d)) k"
    using ap(3) disk_boundary.hyps(3) by auto
  have IH: "index_ok (dk_live d)" "index_covers e d" "\<forall>e' \<ge> e. om_lookup (dk_snapshots d) e' = None"
    using disk_boundary.IH by simp_all
  have "index_ok (dk_live d')"
    using IH(1) ap(1,2) by (simp add: index_ok_def)
  moreover have "index_covers (e + 1) d'"
    unfolding index_covers_def
  proof (intro allI impI)
    fix e' s k assume s: "om_lookup (dk_snapshots d') e' = Some s" "e' < e + 1" "e + 1 \<le> e' + 3" "om_contains (st_accounts s) k"
    show "om_contains (st_accounts (dk_live d')) k \<or> (\<exists>u. om_lookup (st_recently_unregistered (dk_live d')) k = Some u \<and> e' < u)"
    proof (cases "e' = e")
      case True
      then show ?thesis using s snap ap(1) by auto
    next
      case False
      then have "om_contains (st_accounts (dk_live d)) k \<or>
          (\<exists>u. om_lookup (st_recently_unregistered (dk_live d)) k = Some u \<and> e' < u)"
        using s snap(1) IH(2) unfolding index_covers_def by auto
      then show ?thesis using ap(1,2) [of k] s(3) disk_boundary.hyps(3) by auto
    qed
  qed
  ultimately show ?case using IH(3) snap(1) disk_boundary.hyps(4) by auto
qed

text \<open>The rewards of a boundary, given the store and the window at that moment.\<close>

definition boundary_rewards :: "'out ledger_store \<Rightarrow> account_diff \<Rightarrow> rewards_summary \<Rightarrow> effective_rewards" where
  "boundary_rewards st accounts rs =
    (let computed_rewards = computed_of_summary rs in
     effective_new computed_rewards
       (cr_unclaimed_rewards computed_rewards (unreachable_accounts st accounts (cr_pools_owners computed_rewards))))"

lemma owed_boundary: "owed (boundary_rewards st acc rs) k = (case sp_get (rs_accounts rs) k of Some a \<Rightarrow> as_rewards a | None \<Rightarrow> 0)"
  by (simp add: owed_def boundary_rewards_def effective_new_def computed_of_summary_def Let_def)

lemma unclaimed_boundary:
  "0 < owed (boundary_rewards st acc rs) k \<Longrightarrow> om_contains (er_unclaimed (boundary_rewards st acc rs)) k \<longleftrightarrow>
    k \<in> set (unreachable_accounts st acc (rs_leader_recipients rs))"
  unfolding owed_boundary
  by (auto simp: boundary_rewards_def effective_new_def computed_of_summary_def Let_def cr_unclaimed_rewards_def
      om_contains_os_set split: option.splits)

lemma rewarded_accounts_known:
  assumes "index_covers e d" and "om_lookup (dk_snapshots d) e' = Some snap" and "e' < e" and "e \<le> e' + 3"
    and db: "sn_accounts db = om_entries (st_accounts snap)"
    and rs: "rewards_summary_new (stake_summary_new db gs) g pp issuers pots = Some rs"
    and sorted: "al_sorted (rs_accounts rs)" and "0 < owed (boundary_rewards st acc rs) k"
  shows "om_contains (rs_leader_recipients rs) k \<or> om_contains (st_accounts (dk_live d)) k \<or>
    om_lookup (st_recently_unregistered (dk_live d)) k \<noteq> None"
proof -
  have dist: "distinct (map fst (sn_accounts db))" by (simp add: db)
  have acc: "ss_accounts (stake_summary_new db gs) = final_accounts db gs"
    by (simp add: stake_summary_new_def Let_def)
  have "k \<in> fst ` set (rs_accounts rs)"
    using assms(8) sorted by (force simp: owed_boundary sp_get_map_of dest: map_of_SomeD split: option.splits)
  then have "k \<in> fst ` set (final_accounts db gs) \<or> om_contains (rs_leader_recipients rs) k"
    using rewards_summary_keys [OF rs] al_sorted_final_accounts [OF dist] by (auto simp: acc om_contains_os_set)
  moreover have "om_contains (st_accounts snap) k" if "k \<in> fst ` set (final_accounts db gs)"
    using that final_accounts_iff [OF dist] by (auto simp: db om_entries_iff om_contains_def)
  ultimately show ?thesis using assms(1-4) unfolding index_covers_def by fastforce
qed

lemma boundary_rewards_paid:
  assumes run: "disk_run r h e d" and snap: "om_lookup (dk_snapshots d) e' = Some snap" "e' < e" "e \<le> e' + 3"
    and db: "sn_accounts db = om_entries (st_accounts snap)" and gs: "governance_summary_new db h = Ok gs"
    and ok: "pool_rows_ok (sn_pools db)" "params_ok' pp" "supply_ok (stake_summary_new db gs) g pots"
    and rs: "rewards_summary_new (stake_summary_new db gs) g pp issuers pots = Some rs"
    and as: "apply_blocks r h pp' ga as (dk_live d) = Ok st" "newer_blocks r h pp' ga as (dk_live d)"
      "\<forall>a \<in> set as. db_ok (vf_accounts (af_fragment a))"
    and er: "er = boundary_rewards (dk_live d) (db_fold (map (\<lambda>a. vf_accounts (af_fragment a)) as)) rs"
  shows "rewards_paid er (st_accounts st) + total_unclaimed_rewards er = cr_total_rewards er"
proof -
  note inv = disk_run_invariant [OF run]
  have dist: "distinct (map fst (sn_accounts db))" by (simp add: db)
  have spec: "rewards_of (rs_accounts rs) = rs_effective_rewards rs" "al_sorted (rs_accounts rs)"
    using rewards_summary_new_spec [OF stake_summary_new_ok [OF gs dist ok(1)] ok(2,3), of issuers] rs by auto
  have same: "cr_accounts er = rs_accounts rs" "cr_total_rewards er = rs_effective_rewards rs"
    by (simp_all add: er boundary_rewards_def effective_new_def computed_of_summary_def Let_def)
  have "om_contains (er_unclaimed er) k \<longleftrightarrow> \<not> om_contains (st_accounts st) k" if k: "0 < owed er k" for k
    using unreachable_iff_gone [OF _ as rewarded_accounts_known [OF _ snap db rs spec(2) k [unfolded er]]] inv
      unclaimed_boundary [OF k [unfolded er]]
    by (simp add: er om_contains_def)
  then show ?thesis using rewards_paid_in_full [of er "st_accounts st"] spec same by simp
qed

section \<open>The treasury at a boundary\<close>

text \<open>The movements of the treasury, up to the width of its integer.\<close>

definition same_u64 :: "int \<Rightarrow> int \<Rightarrow> bool" where
  "same_u64 a b = (a mod 2 ^ 64 = b mod 2 ^ 64)"

lemma same_u64_trans: "same_u64 a b \<Longrightarrow> same_u64 b c \<Longrightarrow> same_u64 a c"
  by (simp add: same_u64_def)

lemma same_u64_shift: "same_u64 a b \<Longrightarrow> same_u64 (a + c) (b + c)" "same_u64 a b \<Longrightarrow> same_u64 (a - c) (b - c)"
  unfolding same_u64_def by (auto intro: mod_add_cong mod_diff_cong)

lemma same_u64_add: "same_u64 (int (u64_add a b)) (int a + int b)"
  by (simp add: same_u64_def u64_add_def zmod_int)

lemma same_u64_sub: "b \<le> a + 2 ^ 64 \<Longrightarrow> same_u64 (int (u64_sub a b)) (int a - int b)"
proof (cases "b \<le> a")
  case False
  moreover assume "b \<le> a + 2 ^ 64"
  ultimately have "int (u64_sub a b) = int a - int b + 2 ^ 64" by (simp add: u64_sub_def)
  then show ?thesis by (simp add: same_u64_def)
qed (simp add: same_u64_def)

abbreviation treasury :: "'out ledger_store \<Rightarrow> int" where
  "treasury st \<equiv> int (pot_treasury (st_pots st))"

lemma treasury_refunds:
  "same_u64 (treasury (pay_or_refund_accounts ps st)) (treasury st + int (lost (om_contains (st_accounts st)) ps))"
  using same_u64_add by (auto simp: pay_or_refund_accounts_eq same_u64_def)

lemma treasury_withdrawn:
  assumes "om_sum (\<lambda>x. x) (gu_treasury_withdrawals gu) \<le> u64_max"
  shows "same_u64 (treasury (withdraw_treasury gu st)) (treasury st - int (om_sum (\<lambda>x. x) (gu_treasury_withdrawals gu)))"
proof (cases "om_is_empty (gu_treasury_withdrawals gu)")
  case True
  then have "om_sum (\<lambda>x. x) (gu_treasury_withdrawals gu) = 0"
    by (simp add: om_sum_def om_is_empty_def)
  then show ?thesis using True by (simp add: withdraw_treasury_def same_u64_def)
qed (use assms same_u64_sub in \<open>simp add: withdraw_treasury_def u64_max_def\<close>)

lemma treasury_begun:
  "same_u64 (treasury (begun ov st))
    (treasury st + int (pot_donations (st_pots st)) + int (lost (om_contains (st_accounts st)) (pool_payouts ov)))"
proof -
  define st2 where "st2 = reset_fees_and_donations (reset_blocks_count
    (prune_recently_unregistered_accounts (ov_epoch ov) (st\<lparr>st_progress := None\<rparr>)))"
  have st2: "st_accounts st2 = st_accounts st" "same_u64 (treasury st2) (treasury st + int (pot_donations (st_pots st)))"
    by (simp_all add: st2_def reset_fees_and_donations_def reset_blocks_count_def prune_recently_unregistered_accounts_def Let_def
        same_u64_add)
  show ?thesis
  proof (cases "ov_pools_updates ov")
    case None
    then show ?thesis using st2 by (simp add: begun_def st2_def [symmetric] pool_payouts_def lost_def)
  next
    case (Some pu)
    let ?st = "update_or_retire_pools (pu_updated pu) (pu_retired pu) st2"
    have "st_accounts ?st = st_accounts st" "treasury ?st = treasury st2" by (simp_all add: update_or_retire_pools_def st2)
    then show ?thesis
      using Some treasury_refunds [of "om_entries (pu_refunds pu)" ?st] same_u64_shift(1) [OF st2(2)]
      by (auto simp: begun_def st2_def [symmetric] pool_payouts_def intro: same_u64_trans)
  qed
qed

lemma start_of_epoch_treasury:
  assumes "st_progress st = Some SnapshotTaken" and "start_of_epoch ov st = Ok (x, ov', st')"
    and gu: "ov_governance_updates ov = Some gu" and "om_sum (\<lambda>x. x) (gu_treasury_withdrawals gu) \<le> u64_max"
  shows "same_u64 (treasury st') (treasury st + int (pot_donations (st_pots st)) +
    int (lost (om_contains (st_accounts st)) (pool_payouts ov @ governance_payouts ov)) -
    int (om_sum (\<lambda>x. x) (gu_treasury_withdrawals gu)))"
proof -
  let ?b = "begun ov st" and ?ps = "governance_payouts ov" and ?w = "om_sum (\<lambda>x. x) (gu_treasury_withdrawals gu)"
  obtain y where "apply_governance_updates gu ?b = Ok (y, st')" using start_of_epoch_form [OF assms(1,2)] gu by auto
  from apply_governance_updates_form [OF this]
  have "treasury st' = treasury (withdraw_treasury gu (pay_or_refund_accounts ?ps ?b))"
    by (auto simp: governance_payouts_def gu)
  then have "same_u64 (treasury st') (treasury (pay_or_refund_accounts ?ps ?b) - int ?w)"
    using treasury_withdrawn [OF assms(4)] by simp
  moreover have "om_contains (st_accounts ?b) = om_contains (st_accounts st)" by (auto simp: begun_frame)
  then have "same_u64 (treasury (pay_or_refund_accounts ?ps ?b)) (treasury ?b + int (lost (om_contains (st_accounts st)) ?ps))"
    using treasury_refunds [of ?ps ?b] by simp
  ultimately have "same_u64 (treasury st') (treasury ?b + int (lost (om_contains (st_accounts st)) ?ps) - int ?w)"
    using same_u64_shift(2) same_u64_trans by blast
  from same_u64_trans [OF this same_u64_shift(2) [OF same_u64_shift(1) [OF treasury_begun]]]
  show ?thesis by (simp add: algebra_simps)
qed

lemma treasury_bounded:
  assumes "st_progress st = Some SnapshotTaken" and "start_of_epoch ov st = Ok (x, ov', st')"
  shows "treasury st' < 2 ^ 64"
proof -
  have add: "pot_treasury (st_pots (pay_or_refund_accounts ps s)) < 2 ^ 64" if "pot_treasury (st_pots s) < 2 ^ 64"
    for ps and s :: "'a ledger_store"
    using that u64_add_less by (auto simp: pay_or_refund_accounts_eq)
  have withdraw: "pot_treasury (st_pots (withdraw_treasury gu s)) < 2 ^ 64" if "pot_treasury (st_pots s) < 2 ^ 64"
    for gu and s :: "'a ledger_store"
    using that by (simp add: withdraw_treasury_def u64_sub_def) linarith
  have b: "pot_treasury (st_pots (begun ov st)) < 2 ^ 64"
    by (cases "ov_pools_updates ov") (auto simp: begun_def Let_def update_or_retire_pools_def reset_fees_and_donations_def
        u64_add_less [simplified] intro!: add [simplified])
  show ?thesis
  proof (cases "ov_governance_updates ov")
    case None
    then show ?thesis using start_of_epoch_form [OF assms] b by simp
  next
    case (Some gu)
    obtain y where "apply_governance_updates gu (begun ov st) = Ok (y, st')" using start_of_epoch_form [OF assms] Some by auto
    from apply_governance_updates_form [OF this]
    have "pot_treasury (st_pots st') = pot_treasury (st_pots (withdraw_treasury gu (pay_or_refund_accounts (governance_payouts ov) (begun ov st))))"
      by (auto simp: governance_payouts_def Some)
    then have "pot_treasury (st_pots st') < 2 ^ 64" using withdraw [OF add [OF b]] by simp
    then show ?thesis by simp
  qed
qed

section \<open>Properties\<close>

text \<open>
  C1. The assertion of \<open>pay_rewards\<close> never fails.  The rewards were calculated from the
  snapshot taken up to three epochs before; the accounts that can no longer be paid were
  determined when the boundary was crossed, from the store and the window; and the
  rewards are paid when the whole window has become stable.  Then what is paid and what
  is unclaimed make up the total: nothing was forgotten and nothing is counted twice.
\<close>

theorem pay_rewards_never_fails:
  assumes "disk_run r h e d" "om_lookup (dk_snapshots d) e' = Some snap" "e' < e" "e \<le> e' + 3"
    and "sn_accounts db = om_entries (st_accounts snap)" "governance_summary_new db h = Ok gs"
    and "pool_rows_ok (sn_pools db)" "params_ok' pp" "supply_ok (stake_summary_new db gs) g pots"
    and "rewards_summary_new (stake_summary_new db gs) g pp issuers pots = Some rs"
    and "apply_blocks r h pp' ga as (dk_live d) = Ok st" "newer_blocks r h pp' ga as (dk_live d)"
    and "\<forall>a \<in> set as. db_ok (vf_accounts (af_fragment a))"
    and "er = boundary_rewards (dk_live d) (db_fold (map (\<lambda>a. vf_accounts (af_fragment a)) as)) rs"
  shows "\<exists>st'. pay_rewards er st = Ok st'"
  using boundary_rewards_paid [OF assms] by (simp add: pay_rewards_def Let_def)

definition boundary_snapshot :: ledger_snapshot where
  "boundary_snapshot = example_snapshot\<lparr>sn_accounts :=
    [(KeyHash 4, \<lparr>arow_pool = Some (7, ((2, 0), 1)), arow_deposit = 2, arow_drep = None, arow_rewards = 0\<rparr>),
     (KeyHash 5, \<lparr>arow_pool = Some (7, ((2, 0), 0)), arow_deposit = 2,
        arow_drep = Some (DRepKey 9, ((2, 0), 0)), arow_rewards = 1\<rparr>)]\<rparr>"

definition boundary_store :: "unit ledger_store" where
  "boundary_store = example_store\<lparr>st_accounts := om_extend om_empty (sn_accounts boundary_snapshot)\<rparr>"

text \<open>One account has left before the window, and another one leaves within it.\<close>

definition boundary_disk :: "unit disk" where
  "boundary_disk = \<lparr>dk_live = boundary_store\<lparr>st_accounts := om_remove (KeyHash 5) (st_accounts boundary_store),
      st_recently_unregistered := om_insert (KeyHash 5) 2 om_empty\<rparr>,
    dk_snapshots = om_insert 0 boundary_store om_empty\<rparr>"

definition boundary_blocks :: "unit anchored_fragment list" where
  "boundary_blocks = [example_block 64805 (unregister (KeyHash 4) db_default)]"

lemma mainnet_fourth_epoch: "slot_to_epoch mainnet_era_history 64805 64805 = Ok 3"
  by (simp add: mainnet_era_history_def scan_defs era_test_defs era_summary_of_def era_bound_at_def
      era_slot_to_epoch_def elapsed_from_def)

lemma boundary_disk_run: "disk_run Some mainnet_era_history 3 boundary_disk"
  by (rule disk_start)
    (auto simp: boundary_disk_def index_ok_def index_covers_def om_contains_def boundary_store_def boundary_snapshot_def
      split: if_splits)

lemma boundary_snapshot_ok:
  "sn_accounts boundary_snapshot = om_entries (st_accounts boundary_store)"
  "governance_summary_new boundary_snapshot h = Ok example_governance"
  "pool_rows_ok (sn_pools boundary_snapshot)"
  by (simp_all add: boundary_store_def boundary_snapshot_def governance_summary_new_def example_snapshot_def example_governance_def
      initial_dreps_def pool_rows_ok_def pool_row_new_def example_params_def less_credential_def)

lemma boundary_supply_ok: "supply_ok (stake_summary_new boundary_snapshot example_governance) example_globals example_pots"
proof -
  have "sd_active_stake (ss_stake_distribution (stake_summary_new boundary_snapshot example_governance)) = 51" by code_simp
  then show ?thesis by (simp add: supply_ok_def example_globals_def example_pots_def epoch_length_def u64_max_def)
qed

lemma boundary_blocks_apply:
  "\<exists>st. apply_blocks Some mainnet_era_history example_parameters 0 boundary_blocks (dk_live boundary_disk) = Ok st"
  "newer_blocks Some mainnet_era_history example_parameters 0 boundary_blocks (dk_live boundary_disk)"
  by (simp_all add: boundary_blocks_def example_block_defs boundary_disk_def boundary_store_def example_store_def apply_block_def
      into_store_update_def Let_def save_def is_newer_def mainnet_fourth_epoch save_columns_def store_ops slots_put_def om_keys_def
      om_is_empty_def add_pools_def add_accounts_def add_dreps_def add_committee_def add_proposals_def pools_add_rows_def
      pools_remove_rows_def upsert_rows_def accounts_reset_many_def os_extend_def al_remove_def set_delegations_def)

theorem pay_rewards_never_fails_witness:
  "\<exists>rs st st'. apply_blocks Some mainnet_era_history example_parameters 0 boundary_blocks (dk_live boundary_disk) = Ok st \<and>
    pay_rewards (boundary_rewards (dk_live boundary_disk) (db_fold (map (\<lambda>a. vf_accounts (af_fragment a)) boundary_blocks)) rs) st = Ok st'"
proof -
  have ok: "\<forall>a \<in> set boundary_blocks. db_ok (vf_accounts (af_fragment a))"
    by (simp add: boundary_blocks_def example_block_defs db_ok_def om_keys_def om_contains_def)
  have "distinct (map fst (sn_accounts boundary_snapshot))" by (simp add: boundary_snapshot_ok)
  then obtain rs where rs: "rewards_summary_new (stake_summary_new boundary_snapshot example_governance) example_globals
      example_parameters [7, 7] example_pots = Some rs"
    using rewards_summary_new_spec [OF stake_summary_new_ok [OF boundary_snapshot_ok(2) _ boundary_snapshot_ok(3)]
        example_params_ok' boundary_supply_ok, of "[7, 7]"] by blast
  obtain st where st: "apply_blocks Some mainnet_era_history example_parameters 0 boundary_blocks (dk_live boundary_disk) = Ok st"
    using boundary_blocks_apply by blast
  have snap: "om_lookup (dk_snapshots boundary_disk) 0 = Some boundary_store" by (simp add: boundary_disk_def)
  have "\<exists>st'. pay_rewards (boundary_rewards (dk_live boundary_disk)
      (db_fold (map (\<lambda>a. vf_accounts (af_fragment a)) boundary_blocks)) rs) st = Ok st'"
    by (rule pay_rewards_never_fails [OF boundary_disk_run snap _ _ boundary_snapshot_ok example_params_ok' boundary_supply_ok rs st
          boundary_blocks_apply(2) ok refl]) simp_all
  with st show ?thesis by blast
qed

text \<open>
  C3. Until the boundary is flushed, the balance of an account is its stored balance
  and the credit that the overlay holds for it.  The flush turns that into the stored
  balance: it adds to each account its pending credit, and changes nothing else of it.
\<close>

theorem flush_pays_the_pending_credit:
  assumes "st_progress (dk_live d) = None" and "overlay_apply ov d = (d', Ok (x, ov'))"
  shows "st_accounts (dk_live d') =
    om_map (\<lambda>k row. row\<lparr>arow_rewards := arow_rewards row + pending_reward_credit ov k\<rparr>) (st_accounts (dk_live d))"
proof -
  obtain er ov2 ov3 where f: "ov_rewards ov = EffectiveRewards er"
    "ov2 = ov\<lparr>ov_rewards := NotReady, ov_most_recent_snapshot := Some (u64_sub (ov_epoch ov) 1)\<rparr>"
    "start_of_epoch ov2 ((ended ov er (dk_live d))\<lparr>st_progress := Some SnapshotTaken\<rparr>) = Ok (x, ov3, dk_live d')"
    using overlay_apply_form [OF assms] by blast
  have acc: "st_accounts (dk_live d') =
      credit (governance_payouts ov) (credit (pool_payouts ov) (om_map (pay_row er) (st_accounts (dk_live d))))"
    using start_of_epoch_accounts(1) [OF _ f(3)] by (simp add: f(2) ended_def governance_payouts_def pool_payouts_def)
  have paid: "pending_reward_credit ov k = reward_of er k + paid_to (pool_payouts ov) k + paid_to (governance_payouts ov) k" for k
    by (simp add: pending_reward_credit_def f(1) pool_payouts_def governance_payouts_def refund_def payout_def paid_to_entries
        paid_to_def [of "[]"] split: option.splits)
  show ?thesis
  proof (intro om_eqI ext)
    fix k
    show "om_lookup (st_accounts (dk_live d')) k =
        om_lookup (om_map (\<lambda>k row. row\<lparr>arow_rewards := arow_rewards row + pending_reward_credit ov k\<rparr>) (st_accounts (dk_live d))) k"
      by (cases "om_lookup (st_accounts (dk_live d)) k") (simp_all add: acc credit_lookup pay_row_def paid Let_def)
  qed
qed

text \<open>
  A boundary on the disk above: a reward of 5, a pool deposit of 3 and a withdrawal of
  10 for an account that exists, and a refund of 7 for one that was never registered.
\<close>

definition flush_rewards :: effective_rewards where
  "flush_rewards = \<lparr>cr_delta_reserves = 6, cr_delta_treasury = 1, cr_total_rewards = 5,
     cr_accounts = [(KeyHash 4, account_state_default\<lparr>as_rewards := 5\<rparr>)], cr_pools_owners = om_empty, er_unclaimed = om_empty\<rparr>"

definition flush_pools :: pools_updates where
  "flush_pools = pools_updates_default\<lparr>pu_refunds := om_insert (KeyHash 4) 3 om_empty\<rparr>"

definition flush_governance :: governance_updates where
  "flush_governance = \<lparr>gu_roots = \<lparr>root_protocol_parameters = None, root_hard_fork = None,
       root_constitutional_committee = None, root_constitution = None\<rparr>,
     gu_protocol_parameters = example_parameters, gu_pruned_proposals = om_empty,
     gu_deposit_refunds = om_insert (KeyHash 1) 7 om_empty, gu_treasury_withdrawals = om_insert (KeyHash 4) 10 om_empty,
     gu_is_dormant_epoch = False, gu_constitutional_committee = None,
     gu_new_constitution = Some \<lparr>con_anchor = (0, ''''), con_guardrail_script = None\<rparr>\<rparr>"

definition flush_overlay :: "(credential \<Rightarrow> bool) \<Rightarrow> state_overlay" where
  "flush_overlay account_exists =
    overlay_transition (Some flush_rewards) flush_pools flush_governance 0 account_exists (overlay_new 3)"

lemmas flush_defs = flush_overlay_def flush_rewards_def flush_pools_def flush_governance_def overlay_transition_def overlay_new_def
  pools_updates_default_def unpayable_def boundary_disk_def boundary_store_def boundary_snapshot_def example_store_def example_pots_def

lemma flush_progress: "st_progress (dk_live boundary_disk) = None"
  by (simp add: boundary_disk_def boundary_store_def example_store_def)

lemma flush_applies:
  "\<exists>d' x ov'. overlay_apply (flush_overlay account_exists) boundary_disk = (d', Ok (x, ov')) \<and>
    pot_treasury (st_pots (dk_live d')) = 48"
  by (simp add: flush_defs overlay_apply_def end_of_epoch_def take_snapshot_def start_of_epoch_def try_epoch_transition_def Let_def
      pay_rewards_def rewards_paid_def reward_of_def total_unclaimed_rewards_def er_delta_treasury_def sp_get_map_of
      account_state_default_def pay_row_def less_credential_def
      reset_recently_pruned_proposals_def recently_pruned_replace_all_def overlay_pruned_proposals_def
      prune_recently_unregistered_accounts_def reset_blocks_count_def reset_fees_and_donations_def update_or_retire_pools_def
      pay_or_refund_accounts_def refund_accounts_def refund_account_def accounts_set_rewards_def apply_governance_updates_def
      set_constitution_of_def update_constitutional_committee_def prune_non_elected_def withdraw_treasury_def
      update_governance_activity_def proposals_remove_def om_keys_def om_sum_def om_contains_def om_is_empty_def
      al_remove_def)

theorem flush_pays_the_pending_credit_witness:
  "\<exists>d' x ov' row. overlay_apply (flush_overlay (\<lambda>_. True)) boundary_disk = (d', Ok (x, ov')) \<and>
    om_lookup (st_accounts (dk_live d')) (KeyHash 4) = Some row \<and> arow_rewards row = 18"
proof -
  obtain d' x ov' where f: "overlay_apply (flush_overlay (\<lambda>_. True)) boundary_disk = (d', Ok (x, ov'))"
    using flush_applies by blast
  have "pending_reward_credit (flush_overlay (\<lambda>_. True)) (KeyHash 4) = 18"
    by (simp add: flush_defs pending_reward_credit_def reward_of_def sp_get_map_of account_state_default_def refund_def payout_def
        amount_of_def om_contains_def)
  moreover have "om_lookup (st_accounts (dk_live boundary_disk)) (KeyHash 4) =
      Some \<lparr>arow_pool = Some (7, ((2, 0), 1)), arow_deposit = 2, arow_drep = None, arow_rewards = 0\<rparr>"
    by (simp add: flush_defs)
  ultimately show ?thesis
    using f flush_pays_the_pending_credit [OF flush_progress f] by simp
qed

text \<open>
  The balance after a flush, up to multiples of \<open>2^64\<close>: the stored balance, the
  \<open>treasury_delta\<close>, and the payouts on which the test of existence errs.
\<close>

lemma flush_treasury:
  assumes "st_progress (dk_live d) = None" and "overlay_apply ov d = (d', Ok (x, ov'))"
    and ov: "ov = overlay_transition (Some er) pu gu (pot_donations (st_pots (dk_live d))) account_exists ov0"
    and "om_sum (\<lambda>x. x) (gu_treasury_withdrawals gu) \<le> u64_max" and "ps = pool_payouts ov @ governance_payouts ov"
  shows "same_u64 (treasury (dk_live d')) (treasury (dk_live d) + td_int (ov_treasury_delta ov) +
      (int (lost (om_contains (st_accounts (dk_live d))) ps) - int (lost account_exists ps)))"
    and "0 \<le> treasury (dk_live d') \<and> treasury (dk_live d') < 2 ^ 64"
proof -
  let ?w = "int (om_sum (\<lambda>x. x) (gu_treasury_withdrawals gu))"
  let ?st = "(ended ov er (dk_live d))\<lparr>st_progress := Some SnapshotTaken\<rparr>"
  obtain er' ov2 ov3 where "ov_rewards ov = EffectiveRewards er'"
    and f: "ov2 = ov\<lparr>ov_rewards := NotReady, ov_most_recent_snapshot := Some (u64_sub (ov_epoch ov) 1)\<rparr>"
    "start_of_epoch ov2 ((ended ov er' (dk_live d))\<lparr>st_progress := Some SnapshotTaken\<rparr>) = Ok (x, ov3, dk_live d')"
    using overlay_apply_form [OF assms(1,2)] by blast
  then have start: "start_of_epoch ov2 ?st = Ok (x, ov3, dk_live d')" by (simp add: ov overlay_transition_def)
  have delta: "td_int (ov_treasury_delta ov) = int (er_delta_treasury er) + int (pot_donations (st_pots (dk_live d))) +
      int (lost account_exists ps) - ?w"
    by (simp add: ov assms(5) overlay_transition_def unpayable_lost pool_payouts_def governance_payouts_def)
  have "same_u64 (treasury (dk_live d')) (treasury ?st + int (pot_donations (st_pots ?st)) +
      int (lost (om_contains (st_accounts ?st)) ps) - ?w)"
    using start_of_epoch_treasury [OF _ start, of gu] assms(4)
    by (simp add: f(1) ov assms(5) overlay_transition_def pool_payouts_def governance_payouts_def)
  moreover have "om_contains (st_accounts ?st) = om_contains (st_accounts (dk_live d))" by (auto simp: ended_def)
  moreover have "same_u64 (treasury ?st) (treasury (dk_live d) + int (er_delta_treasury er))"
    by (simp add: ended_def same_u64_add)
  ultimately have "same_u64 (treasury (dk_live d')) (treasury (dk_live d) + int (er_delta_treasury er) +
      int (pot_donations (st_pots (dk_live d))) + int (lost (om_contains (st_accounts (dk_live d))) ps) - ?w)"
    using same_u64_shift same_u64_trans by (fastforce simp: ended_def)
  then show "same_u64 (treasury (dk_live d')) (treasury (dk_live d) + td_int (ov_treasury_delta ov) +
      (int (lost (om_contains (st_accounts (dk_live d))) ps) - int (lost account_exists ps)))"
    by (simp add: delta algebra_simps)
  show "0 \<le> treasury (dk_live d') \<and> treasury (dk_live d') < 2 ^ 64" using treasury_bounded [OF _ start] by simp
qed

text \<open>
  The accounts on which that test errs: those that are neither stored nor in the index
  when the boundary is crossed, nor the leader of a pool, and that the window neither
  removes nor leaves registered.
\<close>

definition unknown_account :: "'out ledger_store \<Rightarrow> account_diff \<Rightarrow> credential oset \<Rightarrow> 'out ledger_store \<Rightarrow> credential \<Rightarrow> bool" where
  "unknown_account st accounts owners st' k =
    (\<not> om_contains (st_accounts st) k \<and> om_lookup (st_recently_unregistered st) k = None \<and> \<not> om_contains owners k \<and>
     \<not> om_contains (unregistered accounts) k \<and> \<not> om_contains (st_accounts st') k)"

lemma gone_or_unknown:
  assumes "index_ok st" and "apply_blocks r h pp ga as st = Ok st'" and "newer_blocks r h pp ga as st"
    and ok: "\<forall>a \<in> set as. db_ok (vf_accounts (af_fragment a))"
    and d: "d = db_fold (map (\<lambda>a. vf_accounts (af_fragment a)) as)"
  shows "om_contains (st_accounts st') k \<longleftrightarrow> k \<notin> set (unreachable_accounts st d owners) \<and> \<not> unknown_account st d owners st' k"
proof (cases "om_contains owners k \<or> om_contains (st_accounts st) k \<or> om_lookup (st_recently_unregistered st) k \<noteq> None")
  case True
  then show ?thesis
    using unreachable_iff_gone [OF assms(1-4) True] by (auto simp: d unknown_account_def om_contains_def)
next
  case False
  have "om_lookup (st_accounts st') k = None" if "om_contains (unregistered d) k"
  proof -
    have "db_ok d" unfolding d using ok by (intro db_ok_fold) auto
    then have "db_get d k = Gone" using that by (auto simp: db_get_def db_ok_iff om_contains_def split: option.splits)
    then show ?thesis using apply_blocks_account [OF assms(2,3) ok, of k] d by (metis apply_verdict.simps(2) option.map_disc_iff)
  qed
  then show ?thesis using False by (auto simp: set_unreachable_accounts unknown_account_def om_contains_def)
qed

lemma lost_split:
  assumes "\<And>c. e c \<longleftrightarrow> f c \<and> \<not> g c" and "\<And>c. g c \<Longrightarrow> f c"
  shows "lost e ps = lost f ps + lost (\<lambda>c. \<not> g c) ps"
proof (induction ps)
  case (Cons p ps)
  then show ?case using assms [of "fst p"] by (auto simp: lost_def split: prod.splits)
qed (simp add: lost_def)

text \<open>
  C5. The balance of the treasury that the node reports before a boundary is stable,
  the stored balance plus the \<open>treasury_delta\<close> of the overlay, is the balance that the
  flush will leave, provided that the accounts taken for existing when the boundary
  was crossed are those that exist when it is flushed.
\<close>

theorem treasury_delta_is_what_flush_adds:
  assumes "st_progress (dk_live d) = None" and "overlay_apply ov d = (d', Ok (x, ov'))"
    and ov: "ov = overlay_transition (Some er) pu gu (pot_donations (st_pots (dk_live d))) account_exists ov0"
    and exact: "\<forall>(c, _) \<in> set (pool_payouts ov @ governance_payouts ov). account_exists c \<longleftrightarrow> om_contains (st_accounts (dk_live d)) c"
    and "om_sum (\<lambda>x. x) (gu_treasury_withdrawals gu) \<le> u64_max"
    and range: "0 \<le> treasury (dk_live d) + td_int (ov_treasury_delta ov)" "treasury (dk_live d) + td_int (ov_treasury_delta ov) < 2 ^ 64"
  shows "treasury (dk_live d') = treasury (dk_live d) + td_int (ov_treasury_delta ov)"
  using flush_treasury [OF assms(1,2) ov assms(5) refl] range unfolding lost_cong [OF exact] by (simp add: same_u64_def)

theorem treasury_delta_is_what_flush_adds_witness:
  "\<exists>d' x ov'. overlay_apply (flush_overlay (\<lambda>k. k = KeyHash 4)) boundary_disk = (d', Ok (x, ov')) \<and>
    treasury (dk_live boundary_disk) = 50 \<and> ov_treasury_delta (flush_overlay (\<lambda>k. k = KeyHash 4)) = Debit 2 \<and>
    treasury (dk_live d') = 48"
proof -
  let ?ov = "flush_overlay (\<lambda>k. k = KeyHash 4)"
  obtain d' x ov' where f: "overlay_apply ?ov boundary_disk = (d', Ok (x, ov'))" using flush_applies by blast
  have t: "treasury (dk_live boundary_disk) = 50" "pot_donations (st_pots (dk_live boundary_disk)) = 0"
    by (simp_all add: flush_defs)
  have delta: "ov_treasury_delta ?ov = Debit 2"
    by (simp add: flush_defs om_sum_def er_delta_treasury_def total_unclaimed_rewards_def om_keys_def)
  have "?ov = overlay_transition (Some flush_rewards) flush_pools flush_governance
      (pot_donations (st_pots (dk_live boundary_disk))) (\<lambda>k. k = KeyHash 4) (overlay_new 3)"
    by (simp add: flush_overlay_def t)
  from treasury_delta_is_what_flush_adds [OF flush_progress f this]
  have "treasury (dk_live d') = treasury (dk_live boundary_disk) + td_int (ov_treasury_delta ?ov)"
    by (simp add: t delta) (simp add: flush_defs pool_payouts_def governance_payouts_def om_contains_def u64_max_def om_sum_def)
  then show ?thesis using f t delta by simp
qed

text \<open>
  C26. With the accounts that the node takes for existing, those that are not reported
  unreachable when the boundary is crossed, the balance that the flush leaves is the
  reported one and the payouts to unknown accounts: accounts neither stored nor in the
  index at the boundary, nor the leader of a pool, and that the window neither removes
  nor registers.  The node leaves out these payouts, and no others, until the boundary
  is stable.
\<close>

theorem treasury_delta_misses_unknown_accounts:
  assumes "st_progress (dk_live d) = None" and "overlay_apply ov d = (d', Ok (x, ov'))"
    and ov: "ov = overlay_transition (Some er) pu gu (pot_donations (st_pots (dk_live d)))
      (\<lambda>k. k \<notin> set (unreachable_accounts st accounts owners)) ov0"
    and "om_sum (\<lambda>x. x) (gu_treasury_withdrawals gu) \<le> u64_max"
    and "index_ok st" and "apply_blocks r h pp ga as st = Ok (dk_live d)" and "newer_blocks r h pp ga as st"
    and "\<forall>a \<in> set as. db_ok (vf_accounts (af_fragment a))" and "accounts = db_fold (map (\<lambda>a. vf_accounts (af_fragment a)) as)"
    and missed: "missed = sum_list (map (\<lambda>(c, amount). if unknown_account st accounts owners (dk_live d) c then amount else 0)
      (pool_payouts ov @ governance_payouts ov))"
    and range: "0 \<le> treasury (dk_live d) + td_int (ov_treasury_delta ov) + int missed"
      "treasury (dk_live d) + td_int (ov_treasury_delta ov) + int missed < 2 ^ 64"
  shows "treasury (dk_live d') = treasury (dk_live d) + td_int (ov_treasury_delta ov) + int missed"
proof -
  let ?ps = "pool_payouts ov @ governance_payouts ov"
  have "lost (om_contains (st_accounts (dk_live d))) ?ps = lost (\<lambda>k. k \<notin> set (unreachable_accounts st accounts owners)) ?ps +
      lost (\<lambda>c. \<not> unknown_account st accounts owners (dk_live d) c) ?ps"
    by (rule lost_split [OF gone_or_unknown [OF assms(5-9)]]) (auto simp: unknown_account_def set_unreachable_accounts)
  moreover have "lost (\<lambda>c. \<not> unknown_account st accounts owners (dk_live d) c) ?ps = missed"
    unfolding missed lost_def by (rule arg_cong [of _ _ sum_list]) auto
  ultimately show ?thesis using flush_treasury [OF assms(1,2) ov assms(4) refl] range by (simp add: same_u64_def)
qed

text \<open>On the disk above, with no block in the window, the node reports 41 and the flush leaves 48.\<close>

theorem treasury_delta_misses_unknown_accounts_witness:
  "\<exists>d' x ov'. let ov = flush_overlay (\<lambda>k. k \<notin> set (unreachable_accounts (dk_live boundary_disk) (db_fold []) om_empty)) in
    overlay_apply ov boundary_disk = (d', Ok (x, ov')) \<and>
    treasury (dk_live boundary_disk) + td_int (ov_treasury_delta ov) = 41 \<and> treasury (dk_live d') = 48"
proof -
  let ?st = "dk_live boundary_disk" and ?exists = "\<lambda>k. k \<notin> set (unreachable_accounts (dk_live boundary_disk) (db_fold []) om_empty)"
  obtain d' x ov' where f: "overlay_apply (flush_overlay ?exists) boundary_disk = (d', Ok (x, ov'))" using flush_applies by blast
  have t: "treasury ?st = 50" "pot_donations (st_pots ?st) = 0" by (simp_all add: flush_defs)
  have delta: "ov_treasury_delta (flush_overlay ?exists) = Debit 9"
    by (simp add: flush_defs om_sum_def er_delta_treasury_def total_unclaimed_rewards_def om_keys_def set_unreachable_accounts
        view_registered_iff db_fold_def db_default_def om_contains_def)
  have ov: "flush_overlay ?exists = overlay_transition (Some flush_rewards) flush_pools flush_governance
      (pot_donations (st_pots ?st)) ?exists (overlay_new 3)"
    by (simp add: flush_overlay_def t)
  have missed: "7 = sum_list (map (\<lambda>(c, amount). if unknown_account ?st (db_fold []) om_empty ?st c then amount else 0)
      (pool_payouts (flush_overlay ?exists) @ governance_payouts (flush_overlay ?exists)))"
    by (simp add: flush_defs unknown_account_def pool_payouts_def governance_payouts_def om_contains_def db_fold_def db_default_def)
  have "index_ok ?st" using boundary_disk_run by (simp add: flush_defs index_ok_def om_contains_def)
  from treasury_delta_misses_unknown_accounts [OF flush_progress f ov _ this, of Some mainnet_era_history example_parameters 0 "[]" 7]
  have "treasury (dk_live d') = treasury ?st + td_int (ov_treasury_delta (flush_overlay ?exists)) + int 7"
    using missed by (simp add: t delta) (simp add: flush_defs u64_max_def om_sum_def)
  then show ?thesis using f t delta by (auto simp: Let_def)
qed

text \<open>
  C7. A boundary whose flush is interrupted is resumed where it stopped.  Once the end
  of the epoch is committed, and also once the snapshot is taken, flushing an overlay
  that has no rewards any more, but the same updates of pools and of governance,
  leaves the disk, and reports the enacted updates, that the flush would have.
\<close>

theorem interrupted_flush_is_resumed:
  assumes "st_progress (dk_live d) = None" and "end_of_epoch ov (dk_live d) = Ok (ov1, st1)"
    and "take_snapshot ov1 (d\<lparr>dk_live := st1\<rparr>) = (ov2, d2)" and "stopped \<in> {d\<lparr>dk_live := st1\<rparr>, d2}"
    and "ov_epoch ov' = ov_epoch ov" "ov_pools_updates ov' = ov_pools_updates ov"
      "ov_governance_updates ov' = ov_governance_updates ov"
  shows "fst (overlay_apply ov' stopped) = fst (overlay_apply ov d) \<and>
    map_sum (\<lambda>e. e) fst (snd (overlay_apply ov' stopped)) = map_sum (\<lambda>e. e) fst (snd (overlay_apply ov d))"
proof -
  obtain er where er: "ov1 = ov\<lparr>ov_rewards := NotReady\<rparr>" "st1 = ended ov er (dk_live d)"
    using end_of_epoch_form [OF assms(1,2)] by blast
  have p: "st_progress st1 = Some EpochEnded" by (simp add: er(2) ended_def)
  have ov2: "ov2 = ov1\<lparr>ov_most_recent_snapshot := Some (u64_sub (ov_epoch ov) 1)\<rparr>"
    and d2: "d2 = d\<lparr>dk_snapshots := om_insert (u64_sub (ov_epoch ov) 1) st1 (dk_snapshots d), dk_live := st1\<lparr>st_progress := Some SnapshotTaken\<rparr>\<rparr>"
    using assms(3) p by (simp_all add: take_snapshot_def try_epoch_transition_def er(1))
  define begin_epoch where "begin_epoch o' = (case start_of_epoch o' (dk_live d2) of
      Err e \<Rightarrow> (d2, Err e)
    | Ok (updated, ov3, st3) \<Rightarrow> (d2\<lparr>dk_live := st3\<rparr>, Ok (updated, ov3\<lparr>ov_treasury_delta := Zero\<rparr>)))" for o'
  have whole: "overlay_apply ov d = begin_epoch ov2"
    using assms(2,3) by (simp add: overlay_apply_def begin_epoch_def)
  have "overlay_apply ov' (d\<lparr>dk_live := st1\<rparr>) =
      begin_epoch (ov'\<lparr>ov_rewards := NotReady, ov_most_recent_snapshot := Some (u64_sub (ov_epoch ov) 1)\<rparr>)"
    using p assms(5) unfolding begin_epoch_def d2
    by (simp add: overlay_apply_def end_of_epoch_def take_snapshot_def try_epoch_transition_def split: sum.splits)
  moreover have "overlay_apply ov' d2 = begin_epoch (ov'\<lparr>ov_rewards := NotReady\<rparr>)"
    unfolding begin_epoch_def d2
    by (simp add: overlay_apply_def end_of_epoch_def take_snapshot_def try_epoch_transition_def split: sum.splits)
  ultimately obtain ov4 where rest: "overlay_apply ov' stopped = begin_epoch ov4"
    and ov4: "ov_epoch ov4 = ov_epoch ov2" "ov_pools_updates ov4 = ov_pools_updates ov2"
      "ov_governance_updates ov4 = ov_governance_updates ov2"
    using assms(4-7) by (auto simp: ov2 er(1))
  show ?thesis
    unfolding whole rest begin_epoch_def start_of_epoch_def ov4 Let_def
    by (auto simp: try_epoch_transition_def split: option.splits sum.splits)
qed

theorem interrupted_flush_is_resumed_witness:
  "\<exists>ov1 st1 d2 d' x ov'. end_of_epoch (flush_overlay (\<lambda>_. True)) (dk_live boundary_disk) = Ok (ov1, st1) \<and>
    snd (take_snapshot ov1 (boundary_disk\<lparr>dk_live := st1\<rparr>)) = d2 \<and> st_progress (dk_live d2) = Some SnapshotTaken \<and>
    overlay_apply (flush_overlay (\<lambda>_. True)) boundary_disk = (d', Ok (x, ov')) \<and>
    fst (overlay_apply (overlay_transition None flush_pools flush_governance 0 (\<lambda>_. True) (overlay_new 3)) d2) = d'"
proof -
  let ?ov = "flush_overlay (\<lambda>_. True)"
  obtain d' x ov' where f: "overlay_apply ?ov boundary_disk = (d', Ok (x, ov'))" using flush_applies by blast
  then obtain ov1 st1 where e: "end_of_epoch ?ov (dk_live boundary_disk) = Ok (ov1, st1)"
    by (auto simp: overlay_apply_def split: sum.splits)
  obtain ov2 d2 where t: "take_snapshot ov1 (boundary_disk\<lparr>dk_live := st1\<rparr>) = (ov2, d2)" by (cases "take_snapshot ov1 (boundary_disk\<lparr>dk_live := st1\<rparr>)")
  have "st_progress st1 = Some EpochEnded" using end_of_epoch_form [OF flush_progress e] by (auto simp: ended_def)
  then have "st_progress (dk_live d2) = Some SnapshotTaken" using t by (auto simp: take_snapshot_def try_epoch_transition_def)
  moreover have "fst (overlay_apply (overlay_transition None flush_pools flush_governance 0 (\<lambda>_. True) (overlay_new 3)) d2) = d'"
    using interrupted_flush_is_resumed [OF flush_progress e t, of d2
        "overlay_transition None flush_pools flush_governance 0 (\<lambda>_. True) (overlay_new 3)"] f
    by (simp add: flush_overlay_def overlay_transition_def)
  ultimately show ?thesis using e t f by auto
qed

text \<open>
  C8. Rolling back across a boundary undoes its transition: the overlay is what it was
  before, with the computed rewards ready to be used again, so that another fork can
  cross the boundary with other unclaimed rewards, updates and donations.
\<close>

theorem rollback_undoes_transition:
  assumes "ov_rewards ov = ComputedRewards cr" and "overlay_is_empty ov" and "ov_treasury_delta ov = Zero"
    and "take_computed_rewards (ov_rewards ov) = (computed, remaining)"
  shows "overlay_rollback (overlay_transition (map_option (\<lambda>c. effective_new c unclaimed) computed) pu gu donations account_exists
    (ov\<lparr>ov_rewards := remaining\<rparr>)) = ov"
  using assms by (cases ov) (auto simp: overlay_rollback_def overlay_transition_def overlay_is_empty_def)

theorem rollback_undoes_transition_witness:
  "\<exists>ov. ov = (overlay_new 3)\<lparr>ov_rewards := ComputedRewards (to_computed flush_rewards)\<rparr> \<and>
    overlay_rollback (overlay_transition (Some (effective_new (to_computed flush_rewards) om_empty)) flush_pools flush_governance 9
      (\<lambda>_. False) (ov\<lparr>ov_rewards := NotReady\<rparr>)) = ov"
  using rollback_undoes_transition [of "(overlay_new 3)\<lparr>ov_rewards := ComputedRewards (to_computed flush_rewards)\<rparr>" "to_computed flush_rewards"
      "Some (to_computed flush_rewards)" NotReady om_empty flush_pools flush_governance 9 "\<lambda>_. False"]
  by (simp add: overlay_new_def overlay_is_empty_def)

end
