(* ===== verification/Proposals_Tree.thy ===== *)
theory Proposals_Tree
  imports Ordered_Map "HOL-Library.Multiset"
begin

text \<open>
  Chains of governance proposals of one kind
  (\<open>amaru-ledger/src/governance/ratification/proposals_tree.rs\<close>): the last enacted
  proposal is the root, and every other proposal has the root or another proposal as
  its parent.  The links of a tree, its proposals with their parents, are what the
  forest of all proposals relies on.
\<close>

section \<open>Siblings\<close>

datatype 'a sibling = Sibling (sib_id: 'a) (sib_children: "'a sibling list")

text \<open>
  The search for the parent is depth-first, and \<open>or_else\<close> stops at the first sibling
  that has it.  The error carries the proposal and the parent that was not found.
\<close>

fun sib_insert :: "'a \<Rightarrow> 'a \<Rightarrow> 'a sibling \<Rightarrow> ('a \<times> 'a, 'a sibling) result"
  and sib_insert_first :: "'a \<Rightarrow> 'a \<Rightarrow> 'a sibling list \<Rightarrow> ('a \<times> 'a, 'a sibling list) result" where
  "sib_insert i parent (Sibling j children) =
    (if j = parent then Ok (Sibling j (children @ [Sibling i []]))
     else res_bind (sib_insert_first i parent children) (\<lambda>children'. Ok (Sibling j children')))" |
  "sib_insert_first i parent [] = Err (i, parent)" |
  "sib_insert_first i parent (s # ss) =
    (case sib_insert i parent s of
       Ok s' \<Rightarrow> Ok (s' # ss)
     | Err _ \<Rightarrow> res_bind (sib_insert_first i parent ss) (\<lambda>ss'. Ok (s # ss')))"

definition sib_partition :: "'a sibling list \<Rightarrow> 'a \<Rightarrow> 'a sibling option \<times> 'a sibling list" where
  "sib_partition nodes pivot =
    foldl (\<lambda>(new_root, now_obsolete) s.
        if sib_id s = pivot then (Some s, now_obsolete) else (new_root, now_obsolete @ [s]))
      (None, []) nodes"

fun collect_all :: "'a::linorder oset \<Rightarrow> 'a sibling list \<Rightarrow> 'a oset" where
  "collect_all accum [] = accum" |
  "collect_all accum (Sibling i children # ss) = collect_all (collect_all (os_insert i accum) children) ss"

section \<open>Trees\<close>

record (overloaded) 'a proposals_tree =
  pt_root :: "'a option"
  pt_siblings :: "'a sibling list"
  pt_seen :: "('a, unit) omap"

text \<open>The errors of insertion and enactment; \<open>AlreadySeen\<close> is the failed assertion of \<open>insert\<close>.\<close>

datatype 'a tree_error =
    UnknownParent 'a "'a option"
  | UnknownProposal 'a
  | AlreadySeen 'a

definition pt_new :: "'a::linorder option \<Rightarrow> 'a proposals_tree" where
  "pt_new root =
    \<lparr>pt_root = root, pt_siblings = [],
     pt_seen = (case root of Some r \<Rightarrow> os_insert r om_empty | None \<Rightarrow> om_empty)\<rparr>"

definition pt_enact ::
  "'a::linorder \<Rightarrow> 'a proposals_tree \<Rightarrow> ('a tree_error, 'a \<times> 'a oset \<times> 'a proposals_tree) result" where
  "pt_enact i t =
    (case sib_partition (pt_siblings t) i of
       (None, _) \<Rightarrow> Err (UnknownProposal i)
     | (Some new_root, now_obsolete) \<Rightarrow>
         Ok (i, collect_all om_empty now_obsolete,
           \<lparr>pt_root = Some (sib_id new_root), pt_siblings = sib_children new_root, pt_seen = om_remove i (pt_seen t)\<rparr>))"

definition pt_insert ::
  "'a::linorder \<Rightarrow> 'a option \<Rightarrow> 'a proposals_tree \<Rightarrow> ('a tree_error, 'a proposals_tree) result" where
  "pt_insert i parent t =
    (if om_contains (pt_seen t) i then Err (AlreadySeen i)
     else
       let t' = t\<lparr>pt_seen := os_insert i (pt_seen t)\<rparr> in
       (case (pt_root t, parent) of
          (Some _, None) \<Rightarrow> Err (UnknownParent i None)
        | (None, None) \<Rightarrow> Ok (t'\<lparr>pt_siblings := pt_siblings t @ [Sibling i []]\<rparr>)
        | (_, Some p) \<Rightarrow>
            if pt_root t = Some p then Ok (t'\<lparr>pt_siblings := pt_siblings t @ [Sibling i []]\<rparr>)
            else
              (case sib_insert_first i p (pt_siblings t) of
                 Ok siblings \<Rightarrow> Ok (t'\<lparr>pt_siblings := siblings\<rparr>)
               | Err (j, q) \<Rightarrow> Err (UnknownParent j (Some q)))))"

section \<open>Links\<close>

fun links :: "'a option \<Rightarrow> 'a sibling list \<Rightarrow> ('a \<times> 'a option) list" where
  "links parent [] = []" |
  "links parent (Sibling i children # ss) = (i, parent) # links (Some i) children @ links parent ss"

definition tree_links :: "'a proposals_tree \<Rightarrow> ('a \<times> 'a option) list" where
  "tree_links t = links (pt_root t) (pt_siblings t)"

fun ids :: "'a sibling list \<Rightarrow> 'a list" where
  "ids [] = []" |
  "ids (Sibling i children # ss) = i # ids children @ ids ss"

lemma ids_links [simp]: "map fst (links p ss) = ids ss" "fst ` set (links p ss) = set (ids ss)"
proof -
  show *: "map fst (links p ss) = ids ss" by (induction p ss rule: links.induct) auto
  show "fst ` set (links p ss) = set (ids ss)" unfolding set_map [symmetric] * ..
qed

lemma links_ids: "(i, q) \<in> set (links p ss) \<Longrightarrow> i \<in> set (ids ss)"
  by (induction p ss rule: links.induct) auto

lemma ids_append [simp]: "ids (ss @ ss') = ids ss @ ids ss'"
  by (induction ss rule: ids.induct) auto

lemma ids_Cons: "set (ids (s # ss)) = set (ids [s]) \<union> set (ids ss)"
  using ids_append [of "[s]" ss] by simp

lemma links_append [simp]: "links p (ss @ ss') = links p ss @ links p ss'"
  by (induction p ss rule: links.induct) auto

lemma links_parents: "(i, q) \<in> set (links p ss) \<Longrightarrow> q = p \<or> (\<exists>j. q = Some j \<and> j \<in> set (ids ss))"
  by (induction p ss rule: links.induct) auto

lemma links_top: "(i, p) \<in> set (links p ss) \<Longrightarrow> p \<notin> Some ` set (ids ss) \<Longrightarrow> i \<in> sib_id ` set ss"
proof (induction p ss rule: links.induct)
  case (2 p j children ss)
  have "(i, p) \<notin> set (links (Some j) children)"
    using links_parents [of i p "Some j" children] 2 by auto
  then show ?case using 2 by auto
qed simp

lemma set_collect_all: "os_set (collect_all accum ss) = os_set accum \<union> set (ids ss)"
  by (induction accum ss rule: collect_all.induct) auto

lemma sib_insert_unknown:
  "p \<notin> set (ids [s]) \<Longrightarrow> sib_insert i p s = Err (i, p)"
  "p \<notin> set (ids ss) \<Longrightarrow> sib_insert_first i p ss = Err (i, p)"
proof (induction i p s and i p ss rule: sib_insert_sib_insert_first.induct)
  case (3 i p s ss)
  then show ?case using ids_Cons [of s ss] by simp
qed auto

lemma sib_insert_known:
  "p \<in> set (ids [s]) \<Longrightarrow> \<exists>s'. sib_insert i p s = Ok s' \<and> (\<forall>q. mset (links q [s']) = add_mset (i, Some p) (mset (links q [s])))"
  "p \<in> set (ids ss) \<Longrightarrow> \<exists>ss'. sib_insert_first i p ss = Ok ss' \<and> (\<forall>q. mset (links q ss') = add_mset (i, Some p) (mset (links q ss)))"
proof (induction i p s and i p ss rule: sib_insert_sib_insert_first.induct)
  case (1 i p j children)
  then show ?case by (cases "j = p") auto
next
  case (3 i p s ss)
  show ?case
  proof (cases "p \<in> set (ids [s])")
    case True
    then obtain s' where s': "sib_insert i p s = Ok s'" "\<And>q. mset (links q [s']) = add_mset (i, Some p) (mset (links q [s]))"
      using "3.IH"(1) by blast
    then have "mset (links q (s' # ss)) = add_mset (i, Some p) (mset (links q (s # ss)))" for q
      using links_append [of q "[s']" ss] links_append [of q "[s]" ss] s'(2) [of q] by simp
    then show ?thesis using s'(1) by simp
  next
    case False
    then have "p \<in> set (ids ss)" using "3.prems" ids_append [of "[s]" ss] by auto
    then obtain ss' where ss': "sib_insert_first i p ss = Ok ss'" "\<And>q. mset (links q ss') = add_mset (i, Some p) (mset (links q ss))"
      using "3.IH"(2) sib_insert_unknown(1) [OF False] by blast
    then have "mset (links q (s # ss')) = add_mset (i, Some p) (mset (links q (s # ss)))" for q
      using links_append [of q "[s]" ss'] links_append [of q "[s]" ss] ss'(2) [of q] by simp
    then show ?thesis using ss'(1) sib_insert_unknown(1) [OF False] by simp
  qed
qed simp

lemma sib_partition_none: "pivot \<notin> sib_id ` set ss \<Longrightarrow> sib_partition ss pivot = (None, ss)"
proof -
  have "pivot \<notin> sib_id ` set ss \<Longrightarrow> foldl (\<lambda>(new_root, now_obsolete) s.
      if sib_id s = pivot then (Some s, now_obsolete) else (new_root, now_obsolete @ [s])) (r, obs) ss = (r, obs @ ss)" for r obs
    by (induction ss arbitrary: obs) auto
  then show "pivot \<notin> sib_id ` set ss \<Longrightarrow> ?thesis" by (simp add: sib_partition_def)
qed

lemma sib_partition_some:
  assumes "distinct (map sib_id ss)" and "pivot \<in> sib_id ` set ss"
  shows "\<exists>pre s post. ss = pre @ s # post \<and> sib_id s = pivot \<and> sib_partition ss pivot = (Some s, pre @ post)"
proof -
  obtain pre s post where ss: "ss = pre @ s # post" "sib_id s = pivot" using assms(2) by (auto dest: split_list)
  have out: "pivot \<notin> sib_id ` set pre" "pivot \<notin> sib_id ` set post" using assms(1) ss by auto
  have step: "pivot \<notin> sib_id ` set xs \<Longrightarrow> foldl (\<lambda>(new_root, now_obsolete) s.
      if sib_id s = pivot then (Some s, now_obsolete) else (new_root, now_obsolete @ [s])) (r, obs) xs = (r, obs @ xs)" for xs r obs
    by (induction xs arbitrary: obs) auto
  have "sib_partition ss pivot = (Some s, pre @ post)" using ss out by (simp add: sib_partition_def step)
  then show ?thesis using ss by blast
qed

section \<open>Well-formed trees\<close>

definition tree_ids :: "'a::linorder proposals_tree \<Rightarrow> 'a set" where
  "tree_ids t = set (ids (pt_siblings t))"

definition tree_ok :: "'a::linorder proposals_tree \<Rightarrow> bool" where
  "tree_ok t = (distinct (ids (pt_siblings t)) \<and> pt_root t \<notin> Some ` tree_ids t \<and> tree_ids t \<subseteq> os_set (pt_seen t))"

lemma tree_ids_links: "tree_ids t = fst ` set (tree_links t)"
  by (simp add: tree_ids_def tree_links_def)

lemma sib_ids: "sib_id ` set ss \<subseteq> set (ids ss)"
  by (induction ss rule: ids.induct) auto

lemma sib_ids_distinct: "distinct (ids ss) \<Longrightarrow> distinct (map sib_id ss)"
proof (induction ss rule: ids.induct)
  case (2 i children ss)
  then show ?case using sib_ids [of ss] by auto
qed simp

lemma pt_new_ok: "tree_ok (pt_new r)" "tree_links (pt_new r) = []" "os_set (pt_seen (pt_new r)) = set_option r" "pt_root (pt_new r) = r"
  by (auto simp: pt_new_def tree_ok_def tree_ids_def tree_links_def split: option.splits)

text \<open>An insertion succeeds when the parent is the root or a proposal of the tree, and adds one link.\<close>

lemma pt_insert_unknown:
  assumes "\<not> om_contains (pt_seen t) i" and "parent \<noteq> pt_root t" and "parent \<notin> Some ` tree_ids t"
  shows "pt_insert i parent t = Err (UnknownParent i parent)"
proof (cases parent)
  case None
  then show ?thesis using assms by (cases "pt_root t") (simp_all add: pt_insert_def Let_def)
next
  case (Some p)
  then have "p \<notin> set (ids (pt_siblings t))" using assms(3) by (auto simp: tree_ids_def)
  then show ?thesis
    using Some assms sib_insert_unknown(2) [of p "pt_siblings t" i] by (cases "pt_root t") (simp_all add: pt_insert_def Let_def)
qed

lemma pt_insert_known:
  assumes "tree_ok t" and "\<not> om_contains (pt_seen t) i" and "pt_root t \<noteq> Some i"
    and "parent = pt_root t \<or> parent \<in> Some ` tree_ids t"
  shows "\<exists>t'. pt_insert i parent t = Ok t' \<and> tree_ok t' \<and> pt_root t' = pt_root t \<and>
    set (tree_links t') = insert (i, parent) (set (tree_links t)) \<and> os_set (pt_seen t') = insert i (os_set (pt_seen t))"
proof -
  let ?new = "\<lambda>ss. t\<lparr>pt_seen := os_insert i (pt_seen t), pt_siblings := ss\<rparr>"
  obtain ss where ins: "pt_insert i parent t = Ok (?new ss)"
    and links: "mset (links (pt_root t) ss) = add_mset (i, parent) (mset (tree_links t))"
  proof (cases "parent = pt_root t")
    case True
    then have "pt_insert i parent t = Ok (?new (pt_siblings t @ [Sibling i []]))"
      using assms(2) by (cases "pt_root t") (simp_all add: pt_insert_def Let_def)
    then show thesis using True by (intro that [of "pt_siblings t @ [Sibling i []]"]) (simp_all add: tree_links_def)
  next
    case False
    then obtain p where p: "parent = Some p" "p \<in> set (ids (pt_siblings t))" using assms(4) by (auto simp: tree_ids_def)
    then obtain ss where "sib_insert_first i p (pt_siblings t) = Ok ss"
      "\<And>q. mset (links q ss) = add_mset (i, Some p) (mset (links q (pt_siblings t)))"
      using sib_insert_known(2) [OF p(2), of i] by blast
    then show thesis using p False assms(2) by (intro that [of ss]) (auto simp: pt_insert_def Let_def tree_links_def split: option.splits)
  qed
  have set: "set (links (pt_root t) ss) = insert (i, parent) (set (tree_links t))"
    using arg_cong [OF links, of set_mset] by simp
  have perm: "mset (ids ss) = mset (i # ids (pt_siblings t))"
    using arg_cong [OF links, of "image_mset fst"] by (simp add: tree_links_def flip: mset_map)
  have "i \<notin> set (ids (pt_siblings t))" using assms(1,2) by (auto simp: tree_ok_def tree_ids_def om_contains_os_set)
  then have dist: "distinct (ids ss)" and ids: "set (ids ss) = insert i (tree_ids t)"
    using assms(1) mset_eq_imp_distinct_iff [OF perm] mset_eq_setD [OF perm] by (auto simp: tree_ok_def tree_ids_def)
  have "tree_ok (?new ss)" using dist ids assms(1,3) by (auto simp: tree_ok_def tree_ids_def)
  then show ?thesis using ins set by (auto simp: tree_links_def)
qed

text \<open>
  Enacting a proposal whose parent is the root succeeds: what remains are its
  descendants, and everything else is pruned.
\<close>

definition child_of :: "('a \<times> 'a option) set \<Rightarrow> ('a \<times> 'a) set" where
  "child_of l = {(j, p). (j, Some p) \<in> l}"

lemma links_descend: "j \<in> set (ids ss) \<Longrightarrow> (j, i) \<in> (child_of (set (links (Some i) ss)))\<^sup>+"
proof (induction "Some i" ss arbitrary: i rule: links.induct)
  case (2 k children ss)
  let ?l = "\<lambda>p ss. child_of (set (links p ss))"
  have sub: "?l (Some k) children \<subseteq> ?l (Some i) (Sibling k children # ss)" "?l (Some i) ss \<subseteq> ?l (Some i) (Sibling k children # ss)"
    by (auto simp: child_of_def)
  have k: "(k, i) \<in> ?l (Some i) (Sibling k children # ss)" by (simp add: child_of_def)
  consider "j = k" | "j \<in> set (ids children)" | "j \<in> set (ids ss)" using "2.prems" by auto
  then show ?case
  proof cases
    case 1
    then show ?thesis using k by blast
  next
    case 2
    then have "(j, k) \<in> (?l (Some i) (Sibling k children # ss))\<^sup>+"
      using "2.hyps"(1) [OF 2] trancl_mono [OF _ sub(1)] by blast
    then show ?thesis using k by (rule trancl_into_trancl)
  next
    case 3
    then show ?thesis using "2.hyps"(2) [OF 3] trancl_mono [OF _ sub(2)] by blast
  qed
qed simp

lemma pt_enact_known:
  assumes ok: "tree_ok t" and i: "(i, pt_root t) \<in> set (tree_links t)"
  shows "\<exists>pruned t'. pt_enact i t = Ok (i, pruned, t') \<and> tree_ok t' \<and> pt_root t' = Some i \<and>
    tree_ids t' = {j. (j, i) \<in> (child_of (set (tree_links t)))\<^sup>+} \<and>
    os_set pruned = tree_ids t - insert i (tree_ids t') \<and>
    set (tree_links t') = {(j, p) \<in> set (tree_links t). j \<in> tree_ids t'} \<and>
    pt_seen t' = om_remove i (pt_seen t)"
proof -
  let ?ss = "pt_siblings t" and ?l = "set (tree_links t)"
  have top: "i \<in> sib_id ` set ?ss" using links_top [of i "pt_root t" ?ss] i ok by (simp add: tree_links_def tree_ok_def tree_ids_def)
  have "distinct (map sib_id ?ss)" using ok by (simp add: tree_ok_def sib_ids_distinct)
  from sib_partition_some [OF this top]
  obtain pre s post where p: "?ss = pre @ s # post" "sib_id s = i" "sib_partition ?ss i = (Some s, pre @ post)" by blast
  define cs where "cs = sib_children s"
  have s: "s = Sibling i cs" using p(2) by (cases s) (simp add: cs_def)
  let ?t = "\<lparr>pt_root = Some i, pt_siblings = cs, pt_seen = om_remove i (pt_seen t)\<rparr>"
  have enact: "pt_enact i t = Ok (i, collect_all om_empty (pre @ post), ?t)"
    by (simp add: pt_enact_def p(3) s)
  have l: "?l = {(i, pt_root t)} \<union> set (links (Some i) cs) \<union> set (links (pt_root t) (pre @ post))"
    by (auto simp: tree_links_def p(1) s)
  have dist: "distinct (ids pre @ i # ids cs @ ids post)" using ok by (simp add: tree_ok_def p(1) s)
  then have apart: "insert i (set (ids cs)) \<inter> set (ids (pre @ post)) = {}" by auto
  have root: "pt_root t \<noteq> Some i" "pt_root t \<notin> Some ` set (ids cs)" "tree_ids t = insert i (set (ids cs) \<union> set (ids (pre @ post)))"
    using ok by (auto simp: tree_ok_def tree_ids_def p(1) s)
  have child: "j \<in> set (ids cs)" if "(j, Some q) \<in> ?l" "q \<in> insert i (set (ids cs))" for j q
  proof -
    have "(j, Some q) \<notin> set (links (pt_root t) (pre @ post))"
    proof
      assume "(j, Some q) \<in> set (links (pt_root t) (pre @ post))"
      then consider "pt_root t = Some q" | "q \<in> set (ids (pre @ post))" by (auto dest!: links_parents simp del: links_append ids_append)
      then show False using that(2) root(1,2) apart by cases (auto simp del: ids_append)
    qed
    moreover have "pt_root t \<noteq> Some q" using that(2) root by auto
    ultimately have "(j, Some q) \<in> set (links (Some i) cs)" using that(1) unfolding l by auto
    then show ?thesis by (rule links_ids)
  qed
  have "j \<in> set (ids cs)" if "(j, i) \<in> (child_of ?l)\<^sup>+" for j
    using that by (induction rule: converse_trancl_induct) (auto simp: child_of_def intro: child)
  moreover have "child_of (set (links (Some i) cs)) \<subseteq> child_of ?l" by (auto simp: child_of_def l)
  then have "(j, i) \<in> (child_of ?l)\<^sup>+" if "j \<in> set (ids cs)" for j
    using links_descend [OF that] trancl_mono by blast
  ultimately have desc: "set (ids cs) = {j. (j, i) \<in> (child_of ?l)\<^sup>+}" by blast
  have others: "j \<notin> set (ids cs)" if "(j, p) \<in> set (links (pt_root t) (pre @ post))" for j p
  proof -
    have "j \<in> set (ids (pre @ post))" using that by (rule links_ids)
    then show ?thesis using apart by blast
  qed
  have own: "j \<in> set (ids cs)" if "(j, p) \<in> set (links (Some i) cs)" for j p
    using that by (rule links_ids)
  have "set (links (Some i) cs) = {(j, p) \<in> ?l. j \<in> set (ids cs)}"
    unfolding l using others own dist by auto
  moreover have "tree_ok ?t" using ok dist root by (auto simp: tree_ok_def tree_ids_def)
  moreover have "os_set (collect_all om_empty (pre @ post)) = tree_ids t - insert i (tree_ids ?t)"
    using dist root by (auto simp: set_collect_all tree_ids_def)
  ultimately show ?thesis using enact desc by (auto simp: tree_ids_def tree_links_def)
qed

section \<open>What the forest relies on\<close>

text \<open>
  A lineage of proposals, with what insertion promises: it accepts a new proposal whose
  parent is known and refuses any other, so that a whole list of proposals is accepted
  when it is orderly, each proposal coming after its parent.
\<close>

fun orderly :: "'a set \<Rightarrow> 'a option \<Rightarrow> ('a \<times> 'a option) list \<Rightarrow> bool" where
  "orderly known r [] = True" |
  "orderly known r ((i, p) # ps) =
    (i \<notin> known \<and> r \<noteq> Some i \<and> (p = r \<or> p \<in> Some ` known) \<and> orderly (insert i known) r ps)"

locale proposal_lineage =
  fixes mk :: "'a option \<Rightarrow> 't"
    and root :: "'t \<Rightarrow> 'a option"
    and lnk :: "'t \<Rightarrow> ('a \<times> 'a option) set"
    and seen :: "'t \<Rightarrow> 'a set"
    and ok :: "'t \<Rightarrow> bool"
    and ins :: "'a \<Rightarrow> 'a option \<Rightarrow> 't \<Rightarrow> ('e, 't) result"
  assumes mk_ok: "ok (mk r) \<and> lnk (mk r) = {} \<and> seen (mk r) = set_option r \<and> root (mk r) = r"
    and ins_known: "ok t \<Longrightarrow> i \<notin> seen t \<Longrightarrow> root t \<noteq> Some i \<Longrightarrow> p = root t \<or> p \<in> Some ` fst ` lnk t \<Longrightarrow>
      \<exists>t'. ins i p t = Ok t' \<and> ok t' \<and> root t' = root t \<and> lnk t' = insert (i, p) (lnk t) \<and> seen t' = insert i (seen t)"
    and ins_unknown: "ok t \<Longrightarrow> i \<in> seen t \<or> (p \<noteq> root t \<and> p \<notin> Some ` fst ` lnk t) \<Longrightarrow> \<not> is_ok (ins i p t)"
begin

abbreviation ins_all :: "('a \<times> 'a option) list \<Rightarrow> 't \<Rightarrow> ('e, 't) result" where
  "ins_all \<equiv> try_fold (\<lambda>(i, p). ins i p)"

lemma ins_iff:
  assumes "ok t" and "seen t = set_option (root t) \<union> fst ` lnk t"
  shows "is_ok (ins i p t) \<longleftrightarrow> i \<notin> seen t \<and> (p = root t \<or> p \<in> Some ` fst ` lnk t)"
proof (cases "i \<notin> seen t \<and> (p = root t \<or> p \<in> Some ` fst ` lnk t)")
  case True
  then have "root t \<noteq> Some i" using assms(2) by auto
  with ins_known [OF assms(1), of i p] True show ?thesis by auto
next
  case False
  then show ?thesis using ins_unknown [OF assms(1), of i p] by blast
qed

lemma ins_all_orderly:
  "ok t \<Longrightarrow> seen t = set_option (root t) \<union> fst ` lnk t \<Longrightarrow> orderly (fst ` lnk t) (root t) ps \<Longrightarrow>
    \<exists>t'. ins_all ps t = Ok t' \<and> ok t' \<and> root t' = root t \<and> lnk t' = lnk t \<union> set ps"
proof (induction ps arbitrary: t)
  case (Cons x ps)
  obtain i p where x: "x = (i, p)" by (cases x)
  have "i \<notin> seen t" "root t \<noteq> Some i" "p = root t \<or> p \<in> Some ` fst ` lnk t" using Cons.prems x by auto
  from ins_known [OF Cons.prems(1) this] obtain t1 where t1: "ins i p t = Ok t1" "ok t1" "root t1 = root t"
    "lnk t1 = insert (i, p) (lnk t)" "seen t1 = insert i (seen t)" by blast
  then have "\<exists>t'. ins_all ps t1 = Ok t' \<and> ok t' \<and> root t' = root t1 \<and> lnk t' = lnk t1 \<union> set ps"
    using Cons.prems x by (intro Cons.IH) auto
  then show ?case using t1 x by auto
qed simp

lemma ins_all_disorderly:
  "ok t \<Longrightarrow> seen t = set_option (root t) \<union> fst ` lnk t \<Longrightarrow> \<not> orderly (fst ` lnk t) (root t) ps \<Longrightarrow> \<not> is_ok (ins_all ps t)"
proof (induction ps arbitrary: t)
  case (Cons x ps)
  obtain i p where x: "x = (i, p)" by (cases x)
  show ?case
  proof (cases "i \<notin> seen t \<and> (p = root t \<or> p \<in> Some ` fst ` lnk t)")
    case True
    then have "root t \<noteq> Some i" using Cons.prems(2) by auto
    from ins_known [OF Cons.prems(1) _ this] True obtain t1 where t1: "ins i p t = Ok t1" "ok t1" "root t1 = root t"
      "lnk t1 = insert (i, p) (lnk t)" "seen t1 = insert i (seen t)" by blast
    then have "\<not> is_ok (ins_all ps t1)" using Cons.prems x True by (intro Cons.IH) auto
    then show ?thesis using t1 x by simp
  next
    case False
    then have "\<not> is_ok (ins i p t)" using ins_unknown [OF Cons.prems(1)] by blast
    then show ?thesis using x by (cases "ins i p t") auto
  qed
qed simp

lemma ins_all_new:
  "is_ok (ins_all ps (mk r)) \<longleftrightarrow> orderly {} r ps"
  "ins_all ps (mk r) = Ok t \<Longrightarrow> ok t \<and> root t = r \<and> lnk t = set ps"
proof -
  show "is_ok (ins_all ps (mk r)) \<longleftrightarrow> orderly {} r ps"
    using ins_all_orderly [of "mk r" ps] ins_all_disorderly [of "mk r" ps] mk_ok [of r] by auto
  then show "ins_all ps (mk r) = Ok t \<Longrightarrow> ok t \<and> root t = r \<and> lnk t = set ps"
    using ins_all_orderly [of "mk r" ps] mk_ok [of r] by auto
qed

end

interpretation lineage: proposal_lineage pt_new pt_root "\<lambda>t. set (tree_links t)" "\<lambda>t. os_set (pt_seen t)" tree_ok pt_insert
proof
  fix t :: "'a::linorder proposals_tree" and i p
  show "tree_ok t \<Longrightarrow> i \<notin> os_set (pt_seen t) \<Longrightarrow> pt_root t \<noteq> Some i \<Longrightarrow> p = pt_root t \<or> p \<in> Some ` fst ` set (tree_links t) \<Longrightarrow>
    \<exists>t'. pt_insert i p t = Ok t' \<and> tree_ok t' \<and> pt_root t' = pt_root t \<and> set (tree_links t') = insert (i, p) (set (tree_links t)) \<and>
      os_set (pt_seen t') = insert i (os_set (pt_seen t))"
    by (rule pt_insert_known) (simp_all add: om_contains_os_set tree_ids_links)
  show "tree_ok t \<Longrightarrow> i \<in> os_set (pt_seen t) \<or> (p \<noteq> pt_root t \<and> p \<notin> Some ` fst ` set (tree_links t)) \<Longrightarrow> \<not> is_ok (pt_insert i p t)"
    using pt_insert_unknown [of t i p] by (cases "om_contains (pt_seen t) i") (auto simp: om_contains_os_set tree_ids_links pt_insert_def)
qed (simp add: pt_new_ok)

section \<open>Properties\<close>

text \<open>
  C27. Proposals inserted in a new tree, each after its parent, are all accepted.
  Enacting one whose parent is the root then makes it the root: its descendants remain
  with their parents, and all other proposals are pruned.
\<close>

theorem enact_keeps_descendants:
  assumes "orderly {} r ps" and "(i, r) \<in> set ps"
  shows "\<exists>t pruned t'. try_fold (\<lambda>(j, p). pt_insert j p) ps (pt_new r) = Ok t \<and> pt_enact i t = Ok (i, pruned, t') \<and> pt_root t' = Some i \<and>
    set (tree_links t') = {(j, p) \<in> set ps. (j, i) \<in> (child_of (set ps))\<^sup>+} \<and>
    os_set pruned = {j \<in> fst ` set ps. j \<noteq> i \<and> (j, i) \<notin> (child_of (set ps))\<^sup>+}"
proof -
  obtain t where t: "try_fold (\<lambda>(j, p). pt_insert j p) ps (pt_new r) = Ok t"
    using lineage.ins_all_new(1) [of ps r] assms(1) by (cases "try_fold (\<lambda>(j, p). pt_insert j p) ps (pt_new r)") auto
  have "tree_ok t" "pt_root t = r" "set (tree_links t) = set ps" using lineage.ins_all_new(2) [OF t] by auto
  with pt_enact_known [of t i] assms(2) t show ?thesis by (auto simp: tree_ids_links)
qed

theorem enact_keeps_descendants_witness:
  "\<exists>t pruned t'. try_fold (\<lambda>(j, p). pt_insert j p) [(1 :: nat, None), (2, None), (3, Some 1), (4, Some 2)] (pt_new None) = Ok t \<and>
    pt_enact 1 t = Ok (1, pruned, t') \<and> pt_root t' = Some 1"
  using enact_keeps_descendants [of None "[(1 :: nat, None), (2, None), (3, Some 1), (4, Some 2)]" 1] by auto

end
