(* ===== verification/Proposals_Forest.thy ===== *)
theory Proposals_Forest
  imports Proposals_Tree Protocol_Parameters Era_History
begin

text \<open>
  The forest of all pending governance proposals
  (\<open>amaru-ledger/src/governance/ratification/proposals_forest.rs\<close>): a lookup table, a
  sequence in order of priority, and a tree per kind of proposal that has parents.  The
  operations return a new forest; an error ends ratification and the forest with it.
\<close>

section \<open>Data\<close>

record candidate_proposal =
  cp_valid_until :: epoch
  cp_proposed_in :: proposal_pointer
  cp_governance_action :: governance_action

record with_context =
  wc_proposed_in :: epoch
  wc_valid_until :: epoch
  wc_pointer :: proposal_pointer
  wc_proposal :: proposal_enum

record proposals_forest =
  pf_proposals :: "(proposal_id, with_context) omap"
  pf_pruned :: "(proposal_id, ratification_status) omap"
  pf_sequence :: "proposal_id list"
  pf_is_interrupted :: bool
  pf_treasury :: lovelace
  pf_current_epoch :: epoch
  pf_protocol_parameters :: "proposal_id proposals_tree"
  pf_hard_fork :: "proposal_id proposals_tree"
  pf_constitutional_committee :: "proposal_id proposals_tree"
  pf_constitution :: "proposal_id proposals_tree"

text \<open>
  Errors of the trees and of the conversion of slots, and the panics: a proposal that
  has expired before, and a sequence with an identifier that the table does not have.
\<close>

datatype forest_error =
    TreeError "proposal_id tree_error"
  | InternalSlotToEpochError slot era_history_error
  | ExpiredProposal proposal_id
  | NotInLookupTable proposal_id

definition lift_tree :: "(proposal_id tree_error, 'a) result \<Rightarrow> (forest_error, 'a) result" where
  "lift_tree r = (case r of Inl e \<Rightarrow> Err (TreeError e) | Inr a \<Rightarrow> Ok a)"

section \<open>Operations\<close>

definition pf_new :: "epoch \<Rightarrow> proposals_roots \<Rightarrow> lovelace \<Rightarrow> proposals_forest" where
  "pf_new current_epoch roots treasury =
    \<lparr>pf_proposals = om_empty, pf_pruned = om_empty, pf_sequence = [], pf_is_interrupted = False,
     pf_treasury = treasury, pf_current_epoch = current_epoch,
     pf_protocol_parameters = pt_new (root_protocol_parameters roots),
     pf_hard_fork = pt_new (root_hard_fork roots),
     pf_constitutional_committee = pt_new (root_constitutional_committee roots),
     pf_constitution = pt_new (root_constitution roots)\<rparr>"

text \<open>
  The place of a new proposal: before the first one of lower priority, or of the same
  priority and submitted later.
\<close>

fun insertion_ix ::
  "proposal_pointer \<Rightarrow> proposal_enum \<Rightarrow> (proposal_id, with_context) omap \<Rightarrow> proposal_id list \<Rightarrow> (forest_error, nat) result" where
  "insertion_ix new_pointer new_proposal proposals [] = Ok 0" |
  "insertion_ix new_pointer new_proposal proposals (i # seq) =
    (case om_lookup proposals i of
       None \<Rightarrow> Err (NotInLookupTable i)
     | Some c \<Rightarrow>
         (case cmp_priority (wc_proposal c) new_proposal of
            Less \<Rightarrow> Ok 0
          | Equal \<Rightarrow>
              if new_pointer < wc_pointer c then Ok 0
              else res_bind (insertion_ix new_pointer new_proposal proposals seq) (\<lambda>ix. Ok (Suc ix))
          | Greater \<Rightarrow> res_bind (insertion_ix new_pointer new_proposal proposals seq) (\<lambda>ix. Ok (Suc ix))))"

definition priority_insert ::
  "proposal_id list \<Rightarrow> proposal_id \<Rightarrow> proposal_pointer \<Rightarrow> proposal_enum \<Rightarrow> (proposal_id, with_context) omap \<Rightarrow>
    (forest_error, proposal_id list) result" where
  "priority_insert seq new_id new_pointer new_proposal proposals =
    res_bind (insertion_ix new_pointer new_proposal proposals seq) (\<lambda>ix. Ok (take ix seq @ new_id # drop ix seq))"

fun insert_in_tree :: "proposal_id \<Rightarrow> proposal_enum \<Rightarrow> proposals_forest \<Rightarrow> (forest_error, proposals_forest) result" where
  "insert_in_tree i (PParams _ parent) f =
    res_bind (lift_tree (pt_insert i parent (pf_protocol_parameters f))) (\<lambda>t. Ok (f\<lparr>pf_protocol_parameters := t\<rparr>))" |
  "insert_in_tree i (PHardFork _ parent) f =
    res_bind (lift_tree (pt_insert i parent (pf_hard_fork f))) (\<lambda>t. Ok (f\<lparr>pf_hard_fork := t\<rparr>))" |
  "insert_in_tree i (PCommittee _ parent) f =
    res_bind (lift_tree (pt_insert i parent (pf_constitutional_committee f))) (\<lambda>t. Ok (f\<lparr>pf_constitutional_committee := t\<rparr>))" |
  "insert_in_tree i (PConstitution _ parent) f =
    res_bind (lift_tree (pt_insert i parent (pf_constitution f))) (\<lambda>t. Ok (f\<lparr>pf_constitution := t\<rparr>))" |
  "insert_in_tree i (POrphan _) f = Ok f"

definition pf_insert ::
  "era_history \<Rightarrow> proposal_id \<Rightarrow> epoch \<Rightarrow> proposal_pointer \<Rightarrow> governance_action \<Rightarrow> proposals_forest \<Rightarrow>
    (forest_error, proposals_forest) result" where
  "pf_insert era_history i valid_until proposed_in action f =
    (let proposal = proposal_enum_of action; slot = fst (fst proposed_in) in
     res_bind (insert_in_tree i proposal f) (\<lambda>f1.
     res_bind (priority_insert (pf_sequence f1) i proposed_in proposal (pf_proposals f1)) (\<lambda>seq.
     case slot_to_epoch era_history slot slot of
       Inl e \<Rightarrow> Err (InternalSlotToEpochError slot e)
     | Inr epoch \<Rightarrow>
         Ok (f1\<lparr>pf_sequence := seq,
           pf_proposals := om_insert i
             \<lparr>wc_proposed_in = epoch, wc_valid_until = valid_until, wc_pointer = proposed_in, wc_proposal = proposal\<rparr>
             (pf_proposals f1)\<rparr>))))"

definition pf_drain ::
  "era_history \<Rightarrow> (proposal_id \<times> candidate_proposal) list \<Rightarrow> proposals_forest \<Rightarrow> (forest_error, proposals_forest) result" where
  "pf_drain era_history proposals f =
    try_fold (\<lambda>(i, row) forest.
        if cp_valid_until row < pf_current_epoch f then Err (ExpiredProposal i)
        else pf_insert era_history i (cp_valid_until row) (cp_proposed_in row) (cp_governance_action row) forest)
      (sort_key (\<lambda>(_, row). cp_proposed_in row) proposals) f"

definition pf_roots :: "proposals_forest \<Rightarrow> proposals_roots" where
  "pf_roots f =
    \<lparr>root_protocol_parameters = pt_root (pf_protocol_parameters f), root_hard_fork = pt_root (pf_hard_fork f),
     root_constitutional_committee = pt_root (pf_constitutional_committee f), root_constitution = pt_root (pf_constitution f)\<rparr>"

text \<open>The first part of \<open>enact\<close>: the tree of the proposal, the interruption and the treasury.\<close>

fun enact_in_tree ::
  "proposal_id \<Rightarrow> proposal_enum \<Rightarrow> proposals_forest \<Rightarrow> (forest_error, proposal_id \<times> proposal_id oset \<times> proposals_forest) result" where
  "enact_in_tree i (PHardFork _ _) f =
    res_bind (lift_tree (pt_enact i (pf_hard_fork f)))
      (\<lambda>(j, pruned, t). Ok (j, pruned, f\<lparr>pf_is_interrupted := True, pf_hard_fork := t\<rparr>))" |
  "enact_in_tree i (PCommittee _ _) f =
    res_bind (lift_tree (pt_enact i (pf_constitutional_committee f)))
      (\<lambda>(j, pruned, t). Ok (j, pruned, f\<lparr>pf_is_interrupted := True, pf_constitutional_committee := t\<rparr>))" |
  "enact_in_tree i (PConstitution _ _) f =
    res_bind (lift_tree (pt_enact i (pf_constitution f)))
      (\<lambda>(j, pruned, t). Ok (j, pruned, f\<lparr>pf_is_interrupted := True, pf_constitution := t\<rparr>))" |
  "enact_in_tree i (PParams _ _) f =
    res_bind (lift_tree (pt_enact i (pf_protocol_parameters f)))
      (\<lambda>(j, pruned, t). Ok (j, pruned, f\<lparr>pf_protocol_parameters := t\<rparr>))" |
  "enact_in_tree i (POrphan orphan) f =
    (let f1 = (case orphan of
         NicePoll \<Rightarrow> f
       | TreasuryWithdrawal withdrawals \<Rightarrow>
           f\<lparr>pf_treasury := foldl (\<lambda>treasury (_, amount). treasury - amount) (pf_treasury f) (om_entries withdrawals)\<rparr>)
     in if om_contains (pf_proposals f1) i then Ok (i, om_empty, f1) else Err (TreeError (UnknownProposal i)))"

definition pf_enact :: "proposal_id \<Rightarrow> proposal_enum \<Rightarrow> proposals_forest \<Rightarrow> (forest_error, proposals_forest) result" where
  "pf_enact i proposal f =
    res_bind (enact_in_tree i proposal f) (\<lambda>(j, pruned, f1).
      let all_pruned = om_insert j Ratified (foldl (\<lambda>m k. om_insert k NotRatified m) (pf_pruned f1) (om_keys pruned)) in
      Ok (f1\<lparr>pf_pruned := all_pruned,
        pf_proposals := om_filter (\<lambda>k _. \<not> om_contains all_pruned k) (pf_proposals f1),
        pf_sequence := filter (\<lambda>k. \<not> om_contains all_pruned k) (pf_sequence f1)\<rparr>))"

fun matching_root :: "proposals_forest \<Rightarrow> proposal_enum \<Rightarrow> bool" where
  "matching_root f (POrphan _) = True" |
  "matching_root f (PParams _ parent) = (parent = pt_root (pf_protocol_parameters f))" |
  "matching_root f (PHardFork _ parent) = (parent = pt_root (pf_hard_fork f))" |
  "matching_root f (PCommittee _ parent) = (parent = pt_root (pf_constitutional_committee f))" |
  "matching_root f (PConstitution _ parent) = (parent = pt_root (pf_constitution f))"

text \<open>Whether \<open>step\<close> yields a proposal: it is not too fresh, affordable, valid, and next in its chain.\<close>

definition total_withdrawn :: "(credential, lovelace) omap \<Rightarrow> lovelace" where
  "total_withdrawn withdrawals = foldl (\<lambda>total n. min u64_max (total + n)) 0 (om_values withdrawals)"

definition pf_step :: "protocol_parameters \<Rightarrow> proposals_forest \<Rightarrow> with_context \<Rightarrow> bool" where
  "pf_step pp f c =
    (\<not> pf_current_epoch f < wc_proposed_in c \<and>
     (case wc_proposal c of
        POrphan (TreasuryWithdrawal withdrawals) \<Rightarrow> \<not> pf_treasury f < total_withdrawn withdrawals
      | _ \<Rightarrow> True) \<and>
     (case wc_proposal c of
        PCommittee (ChangeMembers _ added _) _ \<Rightarrow>
          \<not> list_ex (\<lambda>valid_until. pf_current_epoch f + 1 + max_committee_term_length pp < valid_until) (om_values added)
      | _ \<Rightarrow> True) \<and>
     matching_root f (wc_proposal c))"

fun next_in ::
  "protocol_parameters \<Rightarrow> proposals_forest \<Rightarrow> proposal_id list \<Rightarrow>
    (forest_error, (proposal_id \<times> proposal_enum) option \<times> proposal_id list) result" where
  "next_in pp f [] = Ok (None, [])" |
  "next_in pp f (i # seq) =
    (case om_lookup (pf_proposals f) i of
       None \<Rightarrow> Err (NotInLookupTable i)
     | Some c \<Rightarrow> if pf_step pp f c then Ok (Some (i, wc_proposal c), seq) else next_in pp f seq)"

definition pf_next ::
  "protocol_parameters \<Rightarrow> proposals_forest \<Rightarrow> (forest_error, (proposal_id \<times> proposal_enum) option \<times> proposals_forest) result" where
  "pf_next pp f =
    (if pf_is_interrupted f then Ok (None, f)
     else res_bind (next_in pp f (pf_sequence f)) (\<lambda>(found, seq). Ok (found, f\<lparr>pf_sequence := seq\<rparr>)))"

text \<open>
  The end of ratification: expired proposals are pruned, and those whose parent was
  pruned without being ratified, in one pass over the proposals sorted by the epoch of
  their submission.  The sort is unstable; for proposals of the same epoch the model
  keeps the order of the table, which is what the standard library does for up to
  twenty of them, and \<open>pf_end_in\<close> is the pass in any other order.
\<close>

definition expire ::
  "epoch \<Rightarrow> (proposal_id, ratification_status) omap \<Rightarrow> proposal_id \<times> with_context \<Rightarrow> (proposal_id, ratification_status) omap" where
  "expire current_epoch pruned = (\<lambda>(i, c).
    if wc_valid_until c = current_epoch then om_insert i NotRatified pruned
    else case pe_parent (wc_proposal c) of
      Some parent \<Rightarrow> if om_lookup pruned parent = Some NotRatified then om_insert i NotRatified pruned else pruned
    | None \<Rightarrow> pruned)"

definition pf_end_in :: "(proposal_id \<times> with_context) list \<Rightarrow> proposals_forest \<Rightarrow> (proposal_id, ratification_status) omap" where
  "pf_end_in order f = foldl (expire (pf_current_epoch f)) (pf_pruned f) order"

definition pf_end :: "proposals_forest \<Rightarrow> (proposal_id, ratification_status) omap" where
  "pf_end f = pf_end_in (sort_key (\<lambda>(_, c). wc_proposed_in c) (om_entries (pf_proposals f))) f"

section \<open>The invariant of a forest\<close>

text \<open>The four trees, by the kind of proposal.\<close>

datatype tree_kind = KParams | KHardFork | KCommittee | KConstitution

fun kind_of :: "proposal_enum \<Rightarrow> tree_kind option" where
  "kind_of (PParams _ _) = Some KParams" |
  "kind_of (PHardFork _ _) = Some KHardFork" |
  "kind_of (PCommittee _ _) = Some KCommittee" |
  "kind_of (PConstitution _ _) = Some KConstitution" |
  "kind_of (POrphan _) = None"

fun tree_at :: "tree_kind \<Rightarrow> proposals_forest \<Rightarrow> proposal_id proposals_tree" where
  "tree_at KParams f = pf_protocol_parameters f" |
  "tree_at KHardFork f = pf_hard_fork f" |
  "tree_at KCommittee f = pf_constitutional_committee f" |
  "tree_at KConstitution f = pf_constitution f"

fun set_tree :: "tree_kind \<Rightarrow> proposal_id proposals_tree \<Rightarrow> proposals_forest \<Rightarrow> proposals_forest" where
  "set_tree KParams t f = f\<lparr>pf_protocol_parameters := t\<rparr>" |
  "set_tree KHardFork t f = f\<lparr>pf_hard_fork := t\<rparr>" |
  "set_tree KCommittee t f = f\<lparr>pf_constitutional_committee := t\<rparr>" |
  "set_tree KConstitution t f = f\<lparr>pf_constitution := t\<rparr>"

lemma tree_at_set_tree: "tree_at k (set_tree k' t f) = (if k = k' then t else tree_at k f)"
  by (cases k; cases k') auto

lemma set_tree_frame [simp]:
  "pf_proposals (set_tree k t f) = pf_proposals f" "pf_pruned (set_tree k t f) = pf_pruned f"
  "pf_sequence (set_tree k t f) = pf_sequence f" "pf_is_interrupted (set_tree k t f) = pf_is_interrupted f"
  "pf_treasury (set_tree k t f) = pf_treasury f" "pf_current_epoch (set_tree k t f) = pf_current_epoch f"
  by (cases k; simp)+

lemma tree_at_frame [simp]:
  "tree_at k (f\<lparr>pf_sequence := s\<rparr>) = tree_at k f" "tree_at k (f\<lparr>pf_proposals := m\<rparr>) = tree_at k f"
  "tree_at k (f\<lparr>pf_pruned := p\<rparr>) = tree_at k f" "tree_at k (f\<lparr>pf_is_interrupted := b\<rparr>) = tree_at k f"
  "tree_at k (f\<lparr>pf_treasury := n\<rparr>) = tree_at k f"
  by (cases k; simp)+

lemma insert_in_tree_kind:
  "insert_in_tree i p f =
    (case kind_of p of None \<Rightarrow> Ok f
     | Some k \<Rightarrow> res_bind (lift_tree (pt_insert i (pe_parent p) (tree_at k f))) (\<lambda>t. Ok (set_tree k t f)))"
  by (cases p) simp_all

lemma matching_root_kind:
  "matching_root f p = (case kind_of p of None \<Rightarrow> True | Some k \<Rightarrow> pe_parent p = pt_root (tree_at k f))"
  by (cases p) simp_all

lemma lift_tree_simps [simp]: "lift_tree (Inl e) = Err (TreeError e)" "lift_tree (Inr a) = Ok a"
  by (simp_all add: lift_tree_def)

lemma lift_tree_ok_iff: "lift_tree r = Ok a \<longleftrightarrow> r = Ok a"
  by (cases r) simp_all

text \<open>One proposal is considered before another when its priority is higher, or the same and it was submitted first.\<close>

definition considered_before :: "with_context \<Rightarrow> with_context \<Rightarrow> bool" where
  "considered_before a b =
    (priority_rank (wc_proposal b) < priority_rank (wc_proposal a) \<or>
     priority_rank (wc_proposal b) = priority_rank (wc_proposal a) \<and> wc_pointer a \<le> wc_pointer b)"

definition in_order :: "(proposal_id, with_context) omap \<Rightarrow> proposal_id list \<Rightarrow> bool" where
  "in_order m = sorted_wrt (\<lambda>i j. \<forall>a b. om_lookup m i = Some a \<longrightarrow> om_lookup m j = Some b \<longrightarrow> considered_before a b)"

text \<open>
  The trees hold exactly the proposals of the table, with their parents; the sequence
  holds proposals of the table, once and in order; and nothing pruned is left.
\<close>

definition forest_links :: "proposals_forest \<Rightarrow> tree_kind \<Rightarrow> (proposal_id \<times> proposal_id option) set" where
  "forest_links f k = {(i, p). \<exists>c. om_lookup (pf_proposals f) i = Some c \<and> kind_of (wc_proposal c) = Some k \<and> pe_parent (wc_proposal c) = p}"

definition forest_ok :: "proposals_forest \<Rightarrow> bool" where
  "forest_ok f =
    ((\<forall>k. tree_ok (tree_at k f) \<and> set (tree_links (tree_at k f)) = forest_links f k) \<and>
     distinct (pf_sequence f) \<and> (\<forall>i \<in> set (pf_sequence f). om_contains (pf_proposals f) i) \<and>
     (\<forall>i. om_contains (pf_proposals f) i \<longrightarrow> \<not> om_contains (pf_pruned f) i) \<and>
     in_order (pf_proposals f) (pf_sequence f))"

lemma considered_before_trans: "considered_before a b \<Longrightarrow> considered_before b c \<Longrightarrow> considered_before a c"
  by (auto simp: considered_before_def)

lemma pf_new_ok: "forest_ok (pf_new e roots treasury)"
proof -
  have "tree_at k (pf_new e roots treasury) = pt_new (pt_root (tree_at k (pf_new e roots treasury)))" for k
    by (cases k) (simp_all add: pf_new_def pt_new_ok)
  then have "tree_ok (tree_at k (pf_new e roots treasury)) \<and> tree_links (tree_at k (pf_new e roots treasury)) = []" for k
    using pt_new_ok(1,2) by metis
  then show ?thesis by (auto simp: forest_ok_def forest_links_def in_order_def pf_new_def om_contains_def)
qed

text \<open>The insertion index splits the sequence between what comes before the new proposal and what comes after.\<close>

lemma insertion_ix_split:
  assumes "\<forall>i \<in> set seq. om_contains m i" and "in_order m seq"
  shows "\<exists>ix. insertion_ix ptr p m seq = Ok ix \<and>
    (\<forall>i a. i \<in> set (take ix seq) \<longrightarrow> om_lookup m i = Some a \<longrightarrow>
      considered_before a \<lparr>wc_proposed_in = e, wc_valid_until = v, wc_pointer = ptr, wc_proposal = p\<rparr>) \<and>
    (\<forall>i a. i \<in> set (drop ix seq) \<longrightarrow> om_lookup m i = Some a \<longrightarrow>
      considered_before \<lparr>wc_proposed_in = e, wc_valid_until = v, wc_pointer = ptr, wc_proposal = p\<rparr> a)"
  using assms
proof (induction seq)
  case (Cons i seq)
  let ?new = "\<lparr>wc_proposed_in = e, wc_valid_until = v, wc_pointer = ptr, wc_proposal = p\<rparr>"
  obtain c where c: "om_lookup m i = Some c" using Cons.prems by (auto simp: om_contains_def)
  obtain ix where ix: "insertion_ix ptr p m seq = Ok ix"
    "\<forall>i a. i \<in> set (take ix seq) \<longrightarrow> om_lookup m i = Some a \<longrightarrow> considered_before a ?new"
    "\<forall>i a. i \<in> set (drop ix seq) \<longrightarrow> om_lookup m i = Some a \<longrightarrow> considered_before ?new a"
    using Cons.IH Cons.prems by (auto simp: in_order_def)
  have rest: "considered_before c a" if "j \<in> set seq" "om_lookup m j = Some a" for j a
    using Cons.prems(2) c that by (auto simp: in_order_def)
  show ?case
  proof (cases "considered_before c ?new")
    case True
    have "insertion_ix ptr p m (i # seq) = Ok (Suc ix)"
      using True c ix(1) by (auto simp: considered_before_def cmp_priority_rank not_less)
    then show ?thesis using True c ix by auto
  next
    case False
    then have first: "considered_before ?new c" by (auto simp: considered_before_def)
    have "insertion_ix ptr p m (i # seq) = Ok 0"
      using False c by (auto simp: considered_before_def cmp_priority_rank)
    then show ?thesis using first c rest considered_before_trans by (intro exI [of _ 0]) auto
  qed
qed simp

section \<open>Filling a forest\<close>

definition draining :: "proposals_forest \<Rightarrow> bool" where
  "draining f =
    (forest_ok f \<and> pf_pruned f = om_empty \<and> \<not> pf_is_interrupted f \<and>
     (\<forall>k. os_set (pt_seen (tree_at k f)) = set_option (pt_root (tree_at k f)) \<union> tree_ids (tree_at k f)))"

lemma pf_new_draining: "draining (pf_new e roots treasury)"
proof -
  have "os_set (pt_seen (tree_at k (pf_new e roots treasury))) = set_option (pt_root (tree_at k (pf_new e roots treasury))) \<union>
      tree_ids (tree_at k (pf_new e roots treasury))" for k
    by (cases k) (simp_all add: pf_new_def pt_new_ok tree_ids_links)
  then show ?thesis using pf_new_ok by (simp add: draining_def) (simp add: pf_new_def)
qed

text \<open>What an insertion leaves in the trees, whether or not the proposal has one.\<close>

lemma insert_in_tree_ok:
  assumes ok: "draining f" and ins: "insert_in_tree i p f = Ok f'"
  shows "\<exists>t. f' = (case kind_of p of None \<Rightarrow> f | Some k \<Rightarrow> set_tree k t f)"
    and "tree_ok (tree_at k f')"
    and "set (tree_links (tree_at k f')) = (if kind_of p = Some k then insert (i, pe_parent p) else id) (forest_links f k)"
    and "pt_root (tree_at k f') = pt_root (tree_at k f)"
    and "os_set (pt_seen (tree_at k f')) = set_option (pt_root (tree_at k f')) \<union> tree_ids (tree_at k f')"
proof -
  have tok: "tree_ok (tree_at k f)" "set (tree_links (tree_at k f)) = forest_links f k"
    "os_set (pt_seen (tree_at k f)) = set_option (pt_root (tree_at k f)) \<union> tree_ids (tree_at k f)" for k
    using ok by (auto simp: draining_def forest_ok_def)
  have "(\<exists>t. f' = (case kind_of p of None \<Rightarrow> f | Some k \<Rightarrow> set_tree k t f)) \<and> tree_ok (tree_at k f') \<and>
    set (tree_links (tree_at k f')) = (if kind_of p = Some k then insert (i, pe_parent p) else id) (forest_links f k) \<and>
    pt_root (tree_at k f') = pt_root (tree_at k f) \<and>
    os_set (pt_seen (tree_at k f')) = set_option (pt_root (tree_at k f')) \<union> tree_ids (tree_at k f')"
  proof (cases "kind_of p")
    case None
    then show ?thesis using ins tok by (simp add: insert_in_tree_kind)
  next
    case (Some k')
    then obtain t where t: "pt_insert i (pe_parent p) (tree_at k' f) = Ok t" "f' = set_tree k' t f"
      using ins by (auto simp: insert_in_tree_kind res_bind_ok_iff lift_tree_ok_iff)
    have fresh: "\<not> om_contains (pt_seen (tree_at k' f)) i" using t(1) by (auto simp: pt_insert_def)
    then have parent: "pe_parent p = pt_root (tree_at k' f) \<or> pe_parent p \<in> Some ` tree_ids (tree_at k' f)"
      using pt_insert_unknown [OF fresh, of "pe_parent p"] t(1) by fastforce
    have "pt_root (tree_at k' f) \<noteq> Some i" using fresh tok(3) [of k'] by (auto simp: om_contains_os_set)
    from pt_insert_known [OF tok(1) fresh this parent] t(1)
    have "tree_ok t" "pt_root t = pt_root (tree_at k' f)" "set (tree_links t) = insert (i, pe_parent p) (forest_links f k')"
      "os_set (pt_seen t) = insert i (os_set (pt_seen (tree_at k' f)))"
      using tok(2) by auto
    moreover from this have "tree_ids t = insert i (tree_ids (tree_at k' f))" by (simp add: tree_ids_links tok(2))
    ultimately show ?thesis using Some t(2) tok by (auto simp: tree_at_set_tree)
  qed
  then show "\<exists>t. f' = (case kind_of p of None \<Rightarrow> f | Some k \<Rightarrow> set_tree k t f)" "tree_ok (tree_at k f')"
    "set (tree_links (tree_at k f')) = (if kind_of p = Some k then insert (i, pe_parent p) else id) (forest_links f k)"
    "pt_root (tree_at k f') = pt_root (tree_at k f)"
    "os_set (pt_seen (tree_at k f')) = set_option (pt_root (tree_at k f')) \<union> tree_ids (tree_at k f')" by blast+
qed

lemma in_order_insert:
  assumes "in_order m seq" and "om_lookup m i = None" and "\<forall>j \<in> set seq. om_contains m j"
    and "\<forall>j a. j \<in> set (take ix seq) \<longrightarrow> om_lookup m j = Some a \<longrightarrow> considered_before a new"
    and "\<forall>j a. j \<in> set (drop ix seq) \<longrightarrow> om_lookup m j = Some a \<longrightarrow> considered_before new a"
  shows "in_order (om_insert i new m) (take ix seq @ i # drop ix seq)"
proof -
  have out: "j \<noteq> i" if "j \<in> set (take ix seq) \<or> j \<in> set (drop ix seq)" for j
    using that assms(2,3) set_take_subset set_drop_subset by (force simp: om_contains_def)
  have "in_order m (take ix seq @ drop ix seq)" using assms(1) by simp
  then have parts: "in_order m (take ix seq)" "in_order m (drop ix seq)"
    "\<forall>j \<in> set (take ix seq). \<forall>l \<in> set (drop ix seq). \<forall>a b. om_lookup m j = Some a \<longrightarrow> om_lookup m l = Some b \<longrightarrow> considered_before a b"
    unfolding in_order_def sorted_wrt_append by blast+
  have same: "in_order (om_insert i new m) xs = in_order m xs" if "i \<notin> set xs" for xs
    unfolding in_order_def using that by (induction xs) auto
  have "i \<notin> set (take ix seq)" "i \<notin> set (drop ix seq)" using out [of i] by blast+
  then have "in_order (om_insert i new m) (take ix seq)" "in_order (om_insert i new m) (drop ix seq)"
    using parts(1,2) same by auto
  then show ?thesis using parts(3) assms(4,5) out unfolding in_order_def by (auto simp: sorted_wrt_append)
qed

lemma pf_insert_draining:
  assumes ok: "draining f" and new: "om_lookup (pf_proposals f) i = None" and ins: "pf_insert h i v ptr act f = Ok f'"
  shows "draining f' \<and> pf_treasury f' = pf_treasury f \<and> pf_current_epoch f' = pf_current_epoch f \<and>
    (\<forall>k. pt_root (tree_at k f') = pt_root (tree_at k f)) \<and>
    (\<exists>e. slot_to_epoch h (fst (fst ptr)) (fst (fst ptr)) = Ok e \<and> pf_proposals f' = om_insert i
      \<lparr>wc_proposed_in = e, wc_valid_until = v, wc_pointer = ptr, wc_proposal = proposal_enum_of act\<rparr> (pf_proposals f))"
proof -
  let ?p = "proposal_enum_of act" and ?m = "pf_proposals f"
  obtain f1 seq e where f1: "insert_in_tree i ?p f = Ok f1"
    and seq: "priority_insert (pf_sequence f1) i ptr ?p (pf_proposals f1) = Ok seq"
    and e: "slot_to_epoch h (fst (fst ptr)) (fst (fst ptr)) = Ok e"
    and f': "f' = f1\<lparr>pf_sequence := seq, pf_proposals := om_insert i
      \<lparr>wc_proposed_in = e, wc_valid_until = v, wc_pointer = ptr, wc_proposal = ?p\<rparr> (pf_proposals f1)\<rparr>"
    using ins by (cases "slot_to_epoch h (fst (fst ptr)) (fst (fst ptr))") (auto simp: pf_insert_def Let_def res_bind_ok_iff)
  let ?new = "\<lparr>wc_proposed_in = e, wc_valid_until = v, wc_pointer = ptr, wc_proposal = ?p\<rparr>"
  note t = insert_in_tree_ok [OF ok f1]
  have frame: "pf_proposals f1 = ?m" "pf_sequence f1 = pf_sequence f" "pf_pruned f1 = pf_pruned f"
    "pf_is_interrupted f1 = pf_is_interrupted f" "pf_treasury f1 = pf_treasury f" "pf_current_epoch f1 = pf_current_epoch f"
    using t(1) by (auto split: option.splits)
  have ord: "in_order ?m (pf_sequence f)" "\<forall>j \<in> set (pf_sequence f). om_contains ?m j" "distinct (pf_sequence f)"
    using ok by (auto simp: draining_def forest_ok_def)
  obtain ix where ix: "seq = take ix (pf_sequence f) @ i # drop ix (pf_sequence f)"
    "in_order (om_insert i ?new ?m) seq"
    using insertion_ix_split [OF ord(2,1), of ptr ?p e v] seq in_order_insert [OF ord(1) new ord(2)]
    by (auto simp: priority_insert_def frame)
  have "i \<notin> set (pf_sequence f)" using ord(2) new by (auto simp: om_contains_def)
  moreover have "mset (take ix (pf_sequence f)) + mset (drop ix (pf_sequence f)) = mset (pf_sequence f)"
    by (metis append_take_drop_id mset_append)
  then have "mset seq = mset (i # pf_sequence f)" using ix(1) by simp
  ultimately have "distinct seq" "set seq = insert i (set (pf_sequence f))"
    using ord(3) mset_eq_imp_distinct_iff [of seq "i # pf_sequence f"] mset_eq_setD [of seq "i # pf_sequence f"] by simp_all
  moreover have "forest_links f' k = (if kind_of ?p = Some k then insert (i, pe_parent ?p) else id) (forest_links f k)" for k
    using new by (auto simp: forest_links_def f' frame split: if_splits)
  ultimately have "forest_ok f'"
    using ix ord(2) t(2,3) ok by (auto simp: forest_ok_def f' frame draining_def om_contains_def)
  then show ?thesis using t(4,5) ok e by (auto simp: draining_def f' frame)
qed

definition drain_one ::
  "era_history \<Rightarrow> epoch \<Rightarrow> proposal_id \<times> candidate_proposal \<Rightarrow> proposals_forest \<Rightarrow> (forest_error, proposals_forest) result" where
  "drain_one h e = (\<lambda>(i, row) forest.
    if cp_valid_until row < e then Err (ExpiredProposal i)
    else pf_insert h i (cp_valid_until row) (cp_proposed_in row) (cp_governance_action row) forest)"

text \<open>The proposals of a filled forest are those it was filled with.\<close>

definition holds_candidates :: "era_history \<Rightarrow> proposals_forest \<Rightarrow> (proposal_id \<times> candidate_proposal) list \<Rightarrow> bool" where
  "holds_candidates h f ps =
    (\<forall>i c. om_lookup (pf_proposals f) i = Some c \<longleftrightarrow>
      (\<exists>row. (i, row) \<in> set ps \<and> wc_valid_until c = cp_valid_until row \<and> wc_pointer c = cp_proposed_in row \<and>
        wc_proposal c = proposal_enum_of (cp_governance_action row) \<and>
        slot_to_epoch h (fst (fst (cp_proposed_in row))) (fst (fst (cp_proposed_in row))) = Ok (wc_proposed_in c)))"

lemma drain_all:
  assumes "try_fold (drain_one h e) ps f = Ok f'" and "draining f" and "holds_candidates h f qs"
    and "distinct (map fst (qs @ ps))"
  shows "draining f' \<and> pf_treasury f' = pf_treasury f \<and> pf_current_epoch f' = pf_current_epoch f \<and>
    (\<forall>k. pt_root (tree_at k f') = pt_root (tree_at k f)) \<and>
    holds_candidates h f' (qs @ ps) \<and> (\<forall>(i, row) \<in> set ps. e \<le> cp_valid_until row)"
  using assms
proof (induction ps arbitrary: f qs)
  case (Cons x ps)
  obtain i row where x: "x = (i, row)" by (cases x)
  obtain f1 where f1: "pf_insert h i (cp_valid_until row) (cp_proposed_in row) (cp_governance_action row) f = Ok f1"
    and valid: "e \<le> cp_valid_until row" and rest: "try_fold (drain_one h e) ps f1 = Ok f'"
    using Cons.prems(1) by (auto simp: x drain_one_def res_bind_ok_iff split: if_splits)
  have "i \<notin> fst ` set qs" using Cons.prems(4) x by auto
  then have new: "om_lookup (pf_proposals f) i = None"
    using Cons.prems(3) unfolding holds_candidates_def by (metis fst_conv image_eqI option.exhaust)
  from pf_insert_draining [OF Cons.prems(2) new f1] obtain epoch where one: "draining f1" "pf_treasury f1 = pf_treasury f"
    "pf_current_epoch f1 = pf_current_epoch f" "\<forall>k. pt_root (tree_at k f1) = pt_root (tree_at k f)" and one':
    "slot_to_epoch h (fst (fst (cp_proposed_in row))) (fst (fst (cp_proposed_in row))) = Ok epoch"
    "pf_proposals f1 = om_insert i \<lparr>wc_proposed_in = epoch, wc_valid_until = cp_valid_until row, wc_pointer = cp_proposed_in row,
      wc_proposal = proposal_enum_of (cp_governance_action row)\<rparr> (pf_proposals f)" by blast
  have "holds_candidates h f1 (qs @ [x])"
    using Cons.prems(3) \<open>i \<notin> fst ` set qs\<close> one' unfolding holds_candidates_def x by (auto simp: image_iff)
  then have "draining f' \<and> pf_treasury f' = pf_treasury f1 \<and> pf_current_epoch f' = pf_current_epoch f1 \<and>
      (\<forall>k. pt_root (tree_at k f') = pt_root (tree_at k f1)) \<and> holds_candidates h f' ((qs @ [x]) @ ps) \<and> (\<forall>(i, row) \<in> set ps. e \<le> cp_valid_until row)"
    using Cons.prems(4) by (intro Cons.IH [OF rest one(1)]) auto
  then show ?case using one valid x by simp
qed simp

section \<open>Walking through a forest\<close>

lemma in_order_append: "in_order m (xs @ ys) \<Longrightarrow> in_order m ys"
  by (simp add: in_order_def sorted_wrt_append)

lemma next_in_ok:
  assumes "\<forall>i \<in> set seq. om_contains (pf_proposals f) i"
  shows "\<exists>found rest. next_in pp f seq = Ok (found, rest) \<and> (\<exists>pre. seq = pre @ rest) \<and>
    (case found of None \<Rightarrow> rest = []
     | Some (i, p) \<Rightarrow> (\<exists>c pre. seq = pre @ i # rest \<and> om_lookup (pf_proposals f) i = Some c \<and> p = wc_proposal c \<and> pf_step pp f c))"
  using assms
proof (induction seq)
  case (Cons i seq)
  obtain c where c: "om_lookup (pf_proposals f) i = Some c" using Cons.prems by (auto simp: om_contains_def)
  show ?case
  proof (cases "pf_step pp f c")
    case True
    then show ?thesis using c by (auto intro: exI [of _ "[i]"])
  next
    case False
    obtain found rest pre where IH: "next_in pp f seq = Ok (found, rest)" "seq = pre @ rest"
      "case found of None \<Rightarrow> rest = []
       | Some (i, p) \<Rightarrow> (\<exists>c pre. seq = pre @ i # rest \<and> om_lookup (pf_proposals f) i = Some c \<and> p = wc_proposal c \<and> pf_step pp f c)"
      using Cons by auto
    have "i # seq = (i # pre) @ rest" using IH(2) by simp
    moreover have "case found of None \<Rightarrow> rest = []
       | Some (j, p) \<Rightarrow> (\<exists>c pre. i # seq = pre @ j # rest \<and> om_lookup (pf_proposals f) j = Some c \<and> p = wc_proposal c \<and> pf_step pp f c)"
      using IH(3) by (cases found) (auto intro: exI [of _ "i # _"])
    ultimately show ?thesis using IH(1) c False by auto
  qed
qed simp

lemma forest_ok_suffix: "forest_ok f \<Longrightarrow> pf_sequence f = pre @ rest \<Longrightarrow> forest_ok (f\<lparr>pf_sequence := rest\<rparr>)"
  by (auto simp: forest_ok_def forest_links_def dest: in_order_append)

lemma pf_next_ok:
  assumes "forest_ok f"
  shows "\<exists>found rest. pf_next pp f = Ok (found, f\<lparr>pf_sequence := rest\<rparr>) \<and> forest_ok (f\<lparr>pf_sequence := rest\<rparr>) \<and>
    (case found of None \<Rightarrow> True
     | Some (i, p) \<Rightarrow> length rest < length (pf_sequence f) \<and> i \<notin> set rest \<and> \<not> pf_is_interrupted f \<and>
         (\<exists>c. om_lookup (pf_proposals f) i = Some c \<and> p = wc_proposal c \<and> pf_step pp f c))"
proof (cases "pf_is_interrupted f")
  case True
  then show ?thesis using assms by (intro exI [of _ None] exI [of _ "pf_sequence f"]) (simp add: pf_next_def)
next
  case False
  have "\<forall>i \<in> set (pf_sequence f). om_contains (pf_proposals f) i" "distinct (pf_sequence f)" using assms by (auto simp: forest_ok_def)
  with next_in_ok [OF this(1), of pp] obtain found rest pre where n: "next_in pp f (pf_sequence f) = Ok (found, rest)"
    "pf_sequence f = pre @ rest"
    "case found of None \<Rightarrow> rest = []
     | Some (i, p) \<Rightarrow> (\<exists>c pre. pf_sequence f = pre @ i # rest \<and> om_lookup (pf_proposals f) i = Some c \<and> p = wc_proposal c \<and> pf_step pp f c)"
    by blast
  have "case found of None \<Rightarrow> True
     | Some (i, p) \<Rightarrow> length rest < length (pf_sequence f) \<and> i \<notin> set rest \<and> \<not> pf_is_interrupted f \<and>
         (\<exists>c. om_lookup (pf_proposals f) i = Some c \<and> p = wc_proposal c \<and> pf_step pp f c)"
    using n(3) False \<open>distinct (pf_sequence f)\<close> by (auto split: option.splits)
  then show ?thesis using n(1) False forest_ok_suffix [OF assms n(2)]
    by (intro exI [of _ found] exI [of _ rest]) (simp add: pf_next_def)
qed

lemma enact_in_tree_kind:
  "kind_of p = Some k \<Longrightarrow> enact_in_tree i p f =
    res_bind (lift_tree (pt_enact i (tree_at k f)))
      (\<lambda>(j, pruned, t). Ok (j, pruned, set_tree k t (f\<lparr>pf_is_interrupted := pf_is_interrupted f \<or> k \<noteq> KParams\<rparr>)))"
  by (cases p) (auto intro!: arg_cong2 [where f = res_bind])

text \<open>The proposals that an enactment displaces: those of its tree that do not descend from it.\<close>

definition displaced :: "proposals_forest \<Rightarrow> proposal_id \<Rightarrow> proposal_enum \<Rightarrow> proposal_id set" where
  "displaced f i p =
    (case kind_of p of None \<Rightarrow> {}
     | Some k \<Rightarrow> {j \<in> fst ` forest_links f k. j \<noteq> i \<and> (j, i) \<notin> (child_of (forest_links f k))\<^sup>+})"

fun treasury_after :: "proposal_enum \<Rightarrow> lovelace \<Rightarrow> lovelace" where
  "treasury_after (POrphan (TreasuryWithdrawal withdrawals)) n = foldl (\<lambda>n (_, amount). n - amount) n (om_entries withdrawals)" |
  "treasury_after _ n = n"

lemma enact_in_tree_ok:
  assumes ok: "forest_ok f" and c: "om_lookup (pf_proposals f) i = Some c" and root: "matching_root f (wc_proposal c)"
  shows "\<exists>pruned f1. enact_in_tree i (wc_proposal c) f = Ok (i, pruned, f1) \<and> os_set pruned = displaced f i (wc_proposal c) \<and>
    pf_proposals f1 = pf_proposals f \<and> pf_pruned f1 = pf_pruned f \<and> pf_sequence f1 = pf_sequence f \<and>
    pf_current_epoch f1 = pf_current_epoch f \<and> pf_treasury f1 = treasury_after (wc_proposal c) (pf_treasury f) \<and>
    pf_is_interrupted f1 = (pf_is_interrupted f \<or> kind_of (wc_proposal c) \<notin> {None, Some KParams}) \<and>
    (\<forall>k. tree_ok (tree_at k f1) \<and> set (tree_links (tree_at k f1)) =
      {(j, p) \<in> forest_links f k. kind_of (wc_proposal c) = Some k \<longrightarrow> j \<noteq> i \<and> j \<notin> displaced f i (wc_proposal c)})"
proof (cases "kind_of (wc_proposal c)")
  case None
  then obtain orphan where "wc_proposal c = POrphan orphan" by (cases "wc_proposal c") auto
  then show ?thesis using ok c None
    by (cases orphan) (auto simp: Let_def displaced_def forest_ok_def om_contains_def)
next
  case (Some k)
  have tok: "tree_ok (tree_at k f)" "set (tree_links (tree_at k f)) = forest_links f k" for k using ok by (auto simp: forest_ok_def)
  have "(i, pt_root (tree_at k f)) \<in> set (tree_links (tree_at k f))"
    using root c Some by (auto simp: matching_root_kind tok forest_links_def)
  from pt_enact_known [OF tok(1) this] obtain pruned t' where t': "pt_enact i (tree_at k f) = Ok (i, pruned, t')" "tree_ok t'"
    "tree_ids t' = {j. (j, i) \<in> (child_of (forest_links f k))\<^sup>+}"
    "os_set pruned = tree_ids (tree_at k f) - insert i (tree_ids t')"
    "set (tree_links t') = {(j, p) \<in> forest_links f k. j \<in> tree_ids t'}"
    unfolding tok(2) by blast
  have pr: "os_set pruned = displaced f i (wc_proposal c)"
    using Some t'(3,4) tok(2) [of k] by (auto simp: displaced_def tree_ids_links)
  have "i \<notin> tree_ids t'"
  proof
    assume "i \<in> tree_ids t'"
    then show False using t'(1,2) by (auto simp: pt_enact_def tree_ok_def tree_ids_def split: option.splits prod.splits)
  qed
  then have lk: "set (tree_links t') = {(j, p) \<in> forest_links f k. j \<noteq> i \<and> j \<notin> displaced f i (wc_proposal c)}"
    using t'(3,5) Some by (force simp: displaced_def)
  have "treasury_after (wc_proposal c) (pf_treasury f) = pf_treasury f" using Some by (cases "wc_proposal c") auto
  then show ?thesis
    using t'(1,2) pr lk tok Some
    by (auto simp: enact_in_tree_kind [OF Some] tree_at_set_tree intro!: exI [of _ pruned])
qed

lemma in_order_filter:
  assumes "in_order m xs" and "\<And>i a. om_lookup m' i = Some a \<Longrightarrow> om_lookup m i = Some a"
  shows "in_order m' (filter P xs)"
  using assms unfolding in_order_def by (intro sorted_wrt_filter) (auto elim!: sorted_wrt_mono_rel [rotated])

lemma lookup_not_ratified:
  "om_lookup (foldl (\<lambda>m k. om_insert k NotRatified m) m ks) j = (if j \<in> set ks then Some NotRatified else om_lookup m j)"
  by (induction ks arbitrary: m) auto

lemma pf_enact_ok:
  assumes ok: "forest_ok f" and c: "om_lookup (pf_proposals f) i = Some c" and root: "matching_root f (wc_proposal c)"
  shows "\<exists>f'. pf_enact i (wc_proposal c) f = Ok f' \<and> forest_ok f' \<and> length (pf_sequence f') \<le> length (pf_sequence f) \<and>
    pf_current_epoch f' = pf_current_epoch f \<and> pf_treasury f' = treasury_after (wc_proposal c) (pf_treasury f) \<and>
    pf_is_interrupted f' = (pf_is_interrupted f \<or> kind_of (wc_proposal c) \<notin> {None, Some KParams}) \<and>
    (\<forall>j. om_lookup (pf_pruned f') j = (if j = i then Some Ratified
      else if j \<in> displaced f i (wc_proposal c) then Some NotRatified else om_lookup (pf_pruned f) j)) \<and>
    (\<forall>j. om_lookup (pf_proposals f') j =
      (if j = i \<or> j \<in> displaced f i (wc_proposal c) then None else om_lookup (pf_proposals f) j))"
proof -
  let ?p = "wc_proposal c" and ?gone = "\<lambda>j. j = i \<or> j \<in> displaced f i (wc_proposal c)"
  obtain pruned f1 where e: "enact_in_tree i ?p f = Ok (i, pruned, f1)" "os_set pruned = displaced f i ?p"
    "pf_proposals f1 = pf_proposals f" "pf_pruned f1 = pf_pruned f" "pf_sequence f1 = pf_sequence f"
    "pf_current_epoch f1 = pf_current_epoch f" "pf_treasury f1 = treasury_after ?p (pf_treasury f)"
    "pf_is_interrupted f1 = (pf_is_interrupted f \<or> kind_of ?p \<notin> {None, Some KParams})"
    and trees: "\<forall>k. tree_ok (tree_at k f1) \<and> set (tree_links (tree_at k f1)) =
      {(j, p) \<in> forest_links f k. kind_of ?p = Some k \<longrightarrow> \<not> ?gone j}"
    using enact_in_tree_ok [OF assms] by auto
  define all where "all = om_insert i Ratified (foldl (\<lambda>m k. om_insert k NotRatified m) (pf_pruned f) (om_keys pruned))"
  have all: "om_lookup all j = (if j = i then Some Ratified else if j \<in> displaced f i ?p then Some NotRatified else om_lookup (pf_pruned f) j)" for j
    by (simp add: all_def lookup_not_ratified set_om_keys_os e(2))
  have unpruned: "om_lookup (pf_pruned f) j = None" if "om_lookup (pf_proposals f) j \<noteq> None" for j
    using ok that by (cases j) (auto simp: forest_ok_def om_contains_def)
  define f' where "f' = f1\<lparr>pf_pruned := all, pf_proposals := om_filter (\<lambda>k _. \<not> om_contains all k) (pf_proposals f),
    pf_sequence := filter (\<lambda>k. \<not> om_contains all k) (pf_sequence f)\<rparr>"
  have f': "pf_enact i ?p f = Ok f'" by (simp add: pf_enact_def e f'_def all_def Let_def)
  have props: "om_lookup (pf_proposals f') j = (if ?gone j then None else om_lookup (pf_proposals f) j)" for j
    using unpruned [of j] by (cases "om_lookup (pf_proposals f) j") (auto simp: f'_def om_contains_def all)
  have other: "\<not> ?gone j" if "(j, p) \<in> forest_links f k" "kind_of ?p \<noteq> Some k" for j p k
    using that c by (auto simp: forest_links_def displaced_def split: option.splits)
  have "forest_links f' k = {(j, p) \<in> forest_links f k. kind_of ?p = Some k \<longrightarrow> \<not> ?gone j}" for k
    using other unfolding forest_links_def by (auto simp: props split: if_splits)
  moreover have "\<forall>k. tree_at k f' = tree_at k f1" by (simp add: f'_def)
  moreover have "in_order (pf_proposals f') (pf_sequence f')"
  proof -
    have sub: "om_lookup (pf_proposals f) j = Some a" if "om_lookup (pf_proposals f') j = Some a" for j a
      using that by (auto simp: props split: if_splits)
    have "in_order (pf_proposals f) (pf_sequence f)" using ok by (simp add: forest_ok_def)
    then have "in_order (pf_proposals f') (filter P (pf_sequence f))" for P by (rule in_order_filter) (rule sub)
    then show ?thesis by (simp add: f'_def)
  qed
  ultimately have "forest_ok f'"
    using trees ok by (auto simp: forest_ok_def f'_def om_contains_def split: option.splits)
  then show ?thesis using f' props all e by (auto simp: f'_def)
qed

section \<open>When filling succeeds\<close>

text \<open>
  A list of candidates is acceptable when each proposal that has a tree is new to it and
  has the root or an earlier proposal of the same kind as its parent.
\<close>

fun acceptable ::
  "(tree_kind \<Rightarrow> proposal_id option) \<Rightarrow> (tree_kind \<Rightarrow> proposal_id set) \<Rightarrow> (proposal_id \<times> candidate_proposal) list \<Rightarrow> bool" where
  "acceptable R K [] = True" |
  "acceptable R K ((i, row) # ps) =
    (case kind_of (proposal_enum_of (cp_governance_action row)) of
       None \<Rightarrow> acceptable R K ps
     | Some k \<Rightarrow>
         i \<notin> K k \<and> R k \<noteq> Some i \<and>
         (let parent = pe_parent (proposal_enum_of (cp_governance_action row)) in parent = R k \<or> parent \<in> Some ` K k) \<and>
         acceptable R (K(k := insert i (K k))) ps)"

definition candidate_ok :: "era_history \<Rightarrow> epoch \<Rightarrow> candidate_proposal \<Rightarrow> bool" where
  "candidate_ok h e row =
    (e \<le> cp_valid_until row \<and> is_ok (slot_to_epoch h (fst (fst (cp_proposed_in row))) (fst (fst (cp_proposed_in row)))))"

lemma insert_in_tree_iff:
  assumes "draining f"
  shows "is_ok (insert_in_tree i p f) \<longleftrightarrow>
    (case kind_of p of None \<Rightarrow> True
     | Some k \<Rightarrow> i \<notin> tree_ids (tree_at k f) \<and> pt_root (tree_at k f) \<noteq> Some i \<and>
         (pe_parent p = pt_root (tree_at k f) \<or> pe_parent p \<in> Some ` tree_ids (tree_at k f)))"
proof (cases "kind_of p")
  case (Some k)
  let ?t = "tree_at k f"
  have ok: "tree_ok ?t" "os_set (pt_seen ?t) = set_option (pt_root ?t) \<union> tree_ids ?t"
    using assms by (auto simp: draining_def forest_ok_def)
  have "is_ok (insert_in_tree i p f) \<longleftrightarrow> is_ok (pt_insert i (pe_parent p) ?t)"
    using Some by (cases "pt_insert i (pe_parent p) ?t") (simp_all add: insert_in_tree_kind)
  also have "\<dots> \<longleftrightarrow> i \<notin> os_set (pt_seen ?t) \<and> (pe_parent p = pt_root ?t \<or> pe_parent p \<in> Some ` tree_ids ?t)"
    unfolding tree_ids_links by (rule lineage.ins_iff [OF ok(1)]) (simp add: ok(2) tree_ids_links)
  finally show ?thesis using Some ok(2) by auto
qed (simp add: insert_in_tree_kind)

lemma pf_insert_iff:
  assumes ok: "draining f"
  shows "is_ok (pf_insert h i v ptr act f) \<longleftrightarrow>
    is_ok (insert_in_tree i (proposal_enum_of act) f) \<and> is_ok (slot_to_epoch h (fst (fst ptr)) (fst (fst ptr)))"
proof (cases "insert_in_tree i (proposal_enum_of act) f")
  case (Inr f1)
  have "pf_proposals f1 = pf_proposals f" "pf_sequence f1 = pf_sequence f"
    using insert_in_tree_ok(1) [OF ok Inr] by (auto split: option.splits)
  moreover have "in_order (pf_proposals f) (pf_sequence f)" "\<forall>j \<in> set (pf_sequence f). om_contains (pf_proposals f) j"
    using ok by (auto simp: draining_def forest_ok_def)
  ultimately obtain ix where "insertion_ix ptr (proposal_enum_of act) (pf_proposals f1) (pf_sequence f1) = Ok ix"
    using insertion_ix_split [of "pf_sequence f" "pf_proposals f" ptr "proposal_enum_of act" 0 0] by auto
  then show ?thesis using Inr
    by (cases "slot_to_epoch h (fst (fst ptr)) (fst (fst ptr))") (simp_all add: pf_insert_def priority_insert_def Let_def)
qed (simp add: pf_insert_def Let_def)

lemma drain_iff:
  assumes "draining f" and "distinct (map fst ps)" and "\<forall>(i, row) \<in> set ps. om_lookup (pf_proposals f) i = None"
  shows "is_ok (try_fold (drain_one h e) ps f) \<longleftrightarrow>
    acceptable (\<lambda>k. pt_root (tree_at k f)) (\<lambda>k. tree_ids (tree_at k f)) ps \<and> (\<forall>(i, row) \<in> set ps. candidate_ok h e row)"
  using assms
proof (induction ps arbitrary: f)
  case (Cons x ps)
  obtain i row where x: "x = (i, row)" by (cases x)
  let ?p = "proposal_enum_of (cp_governance_action row)"
  have iff: "is_ok (drain_one h e x f) \<longleftrightarrow> is_ok (insert_in_tree i ?p f) \<and> candidate_ok h e row"
    using pf_insert_iff [OF Cons.prems(1)] by (auto simp: x drain_one_def candidate_ok_def)
  note tree = insert_in_tree_iff [OF Cons.prems(1), of i ?p]
  show ?case
  proof (cases "drain_one h e x f")
    case (Inl err)
    then show ?thesis using iff tree by (auto simp: x Let_def split: option.splits)
  next
    case (Inr f1)
    have new: "om_lookup (pf_proposals f) i = None" using Cons.prems(3) x by auto
    have ins: "pf_insert h i (cp_valid_until row) (cp_proposed_in row) (cp_governance_action row) f = Ok f1"
      using Inr by (auto simp: x drain_one_def split: if_splits)
    note one = pf_insert_draining [OF Cons.prems(1) new ins]
    obtain f0 where f0: "insert_in_tree i ?p f = Ok f0" and f1: "\<And>k. tree_at k f1 = tree_at k f0"
      using ins by (cases "slot_to_epoch h (fst (fst (cp_proposed_in row))) (fst (fst (cp_proposed_in row)))")
        (auto simp: pf_insert_def Let_def res_bind_ok_iff)
    have tok: "set (tree_links (tree_at k f)) = forest_links f k" for k using Cons.prems(1) by (auto simp: draining_def forest_ok_def)
    have root: "(\<lambda>k. pt_root (tree_at k f1)) = (\<lambda>k. pt_root (tree_at k f))"
      using insert_in_tree_ok(4) [OF Cons.prems(1) f0] by (simp add: f1)
    have ids: "(\<lambda>k. tree_ids (tree_at k f1)) =
        (case kind_of ?p of None \<Rightarrow> (\<lambda>k. tree_ids (tree_at k f)) | Some k \<Rightarrow> (\<lambda>k. tree_ids (tree_at k f))(k := insert i (tree_ids (tree_at k f))))"
      using insert_in_tree_ok(3) [OF Cons.prems(1) f0] by (auto simp: fun_eq_iff f1 tree_ids_links tok split: option.splits)
    have rest: "om_lookup (pf_proposals f1) j = None" if "(j, r) \<in> set ps" for j r
    proof -
      have "j \<noteq> i" using that Cons.prems(2) x by force
      moreover have "om_lookup (pf_proposals f) j = None" using that Cons.prems(3) by fastforce
      ultimately show ?thesis using one by auto
    qed
    have "is_ok (try_fold (drain_one h e) ps f1) \<longleftrightarrow>
        acceptable (\<lambda>k. pt_root (tree_at k f1)) (\<lambda>k. tree_ids (tree_at k f1)) ps \<and> (\<forall>(i, row) \<in> set ps. candidate_ok h e row)"
      using Cons.prems(2) one x rest by (intro Cons.IH) auto
    then show ?thesis using Inr iff tree unfolding root ids by (auto simp: x Let_def split: option.splits)
  qed
qed simp

section \<open>Expiry\<close>

text \<open>An order of proposals in which no proposal comes before its parent.\<close>

fun parents_first :: "(proposal_id \<times> with_context) list \<Rightarrow> bool" where
  "parents_first [] = True" |
  "parents_first ((i, c) # xs) =
    ((case pe_parent (wc_proposal c) of None \<Rightarrow> True | Some p \<Rightarrow> p \<noteq> i \<and> p \<notin> fst ` set xs) \<and> parents_first xs)"

lemma expire_other: "j \<noteq> i \<Longrightarrow> om_lookup (expire e m (i, c)) j = om_lookup m j"
  by (auto simp: expire_def split: option.splits)

lemma expire_self:
  "om_lookup m i = None \<Longrightarrow> om_lookup (expire e m (i, c)) i =
    (if wc_valid_until c = e \<or> (\<exists>p. pe_parent (wc_proposal c) = Some p \<and> om_lookup m p = Some NotRatified)
     then Some NotRatified else None)"
  by (auto simp: expire_def split: option.splits)

lemma expire_fold_other: "j \<notin> fst ` set xs \<Longrightarrow> om_lookup (foldl (expire e) m xs) j = om_lookup m j"
proof (induction xs arbitrary: m)
  case (Cons x xs)
  then show ?case using expire_other [of j "fst x" e m "snd x"] by simp
qed simp

text \<open>In such an order one pass is enough: what is pruned is closed under having a pruned parent.\<close>

lemma expire_fold:
  assumes "distinct (map fst xs)" and "parents_first xs" and "(i, c) \<in> set xs" and "om_lookup m i = None"
  shows "om_lookup (foldl (expire e) m xs) i =
    (if wc_valid_until c = e \<or>
        (\<exists>p. pe_parent (wc_proposal c) = Some p \<and> om_lookup (foldl (expire e) m xs) p = Some NotRatified)
     then Some NotRatified else None)"
  using assms
proof (induction xs arbitrary: m)
  case (Cons x xs)
  obtain j d where x: "x = (j, d)" by (cases x)
  define R where "R = foldl (expire e) m (x # xs)"
  have R: "R = foldl (expire e) (expire e m (j, d)) xs" by (simp add: R_def x)
  have "om_lookup R i =
    (if wc_valid_until c = e \<or> (\<exists>p. pe_parent (wc_proposal c) = Some p \<and> om_lookup R p = Some NotRatified) then Some NotRatified else None)"
  proof (cases "i = j")
    case True
    then have "i \<notin> fst ` set xs" and c: "c = d" using Cons.prems x by (auto simp: rev_image_eqI)
    then have i: "om_lookup R i = om_lookup (expire e m (i, c)) i" using True by (simp add: R expire_fold_other)
    have "om_lookup R p = om_lookup m p" if "pe_parent (wc_proposal c) = Some p" for p
      using that Cons.prems(2) expire_other [of p j e m d] by (simp add: R expire_fold_other x c)
    then show ?thesis unfolding i expire_self [OF Cons.prems(4)] by auto
  next
    case False
    then show ?thesis unfolding R using Cons.prems expire_other [of i j e m d] by (intro Cons.IH) (auto simp: x)
  qed
  then show ?case unfolding R_def .
qed simp

lemma pf_end_order:
  fixes f defines "xs \<equiv> sort_key (\<lambda>(_, c). wc_proposed_in c) (om_entries (pf_proposals f))"
  shows "distinct (map fst xs)" and "(i, c) \<in> set xs \<longleftrightarrow> om_lookup (pf_proposals f) i = Some c"
proof -
  have "mset (map fst xs) = mset (map fst (om_entries (pf_proposals f)))" by (simp add: xs_def)
  then show "distinct (map fst xs)" using mset_eq_imp_distinct_iff by fastforce
  show "(i, c) \<in> set xs \<longleftrightarrow> om_lookup (pf_proposals f) i = Some c" by (simp add: xs_def om_entries_iff)
qed

lemma pf_end_pruned:
  assumes "forest_ok f" and "parents_first (sort_key (\<lambda>(_, c). wc_proposed_in c) (om_entries (pf_proposals f)))"
    and "om_lookup (pf_proposals f) i = Some c"
  shows "om_lookup (pf_end f) i =
    (if wc_valid_until c = pf_current_epoch f \<or>
        (\<exists>p. pe_parent (wc_proposal c) = Some p \<and> om_lookup (pf_end f) p = Some NotRatified)
     then Some NotRatified else None)"
proof -
  have "om_lookup (pf_pruned f) i = None"
    using assms(1,3) by (cases i) (auto simp: forest_ok_def om_contains_def)
  then show ?thesis
    using expire_fold [OF pf_end_order(1) assms(2)] assms(3) pf_end_order(2) unfolding pf_end_def pf_end_in_def by blast
qed

lemma pf_end_other: "om_lookup (pf_proposals f) i = None \<Longrightarrow> om_lookup (pf_end f) i = om_lookup (pf_pruned f) i"
  unfolding pf_end_def pf_end_in_def using pf_end_order(2) [of i _ f] by (intro expire_fold_other) auto

subsection \<open>The order of the visits\<close>

text \<open>
  The sort by \<open>proposed_in\<close>, which is an epoch, is unstable: proposals of one epoch may
  be visited in any order.
\<close>

definition visit_order :: "proposals_forest \<Rightarrow> (proposal_id \<times> with_context) list \<Rightarrow> bool" where
  "visit_order f order =
    (mset order = mset (om_entries (pf_proposals f)) \<and> sorted (map (\<lambda>(_, c). wc_proposed_in c) order))"

fun visited_before :: "proposal_id \<Rightarrow> proposal_id \<Rightarrow> (proposal_id \<times> with_context) list \<Rightarrow> bool" where
  "visited_before p i [] = False" |
  "visited_before p i ((j, _) # xs) = (if j = p then i \<in> fst ` set xs else j \<noteq> i \<and> visited_before p i xs)"

lemma visit_orderD:
  assumes "visit_order f order"
  shows "distinct (map fst order)" and "(i, c) \<in> set order \<longleftrightarrow> om_lookup (pf_proposals f) i = Some c"
proof -
  have m: "mset order = mset (om_entries (pf_proposals f))" using assms by (simp add: visit_order_def)
  then have "mset (map fst order) = mset (map fst (om_entries (pf_proposals f)))" by simp
  then show "distinct (map fst order)" using mset_eq_imp_distinct_iff by fastforce
  show "(i, c) \<in> set order \<longleftrightarrow> om_lookup (pf_proposals f) i = Some c"
    using mset_eq_setD [OF m] by (simp add: om_entries_iff)
qed

lemma visit_order_sort: "visit_order f (sort_key (\<lambda>(_, c). wc_proposed_in c) (om_entries (pf_proposals f)))"
  by (simp add: visit_order_def)

text \<open>Once the parent has been visited, its fate decides that of the child.\<close>

lemma expire_fold_parent_done:
  assumes "distinct (map fst xs)" and "(i, c) \<in> set xs" and "om_lookup m i = None"
    and "pe_parent (wc_proposal c) = Some p" and "p \<notin> fst ` set xs"
  shows "om_lookup (foldl (expire e) m xs) i =
    (if wc_valid_until c = e \<or> om_lookup m p = Some NotRatified then Some NotRatified else None)"
  using assms
proof (induction xs arbitrary: m)
  case (Cons x xs)
  obtain j d where x: "x = (j, d)" by (cases x)
  show ?case
  proof (cases "i = j")
    case True
    then have "i \<notin> fst ` set xs" and c: "c = d" using Cons.prems x by (auto simp: rev_image_eqI)
    then show ?thesis using True Cons.prems(3,4) by (simp add: x expire_fold_other expire_self)
  next
    case False
    have "p \<noteq> j" using Cons.prems(5) x by auto
    then show ?thesis using False Cons.prems Cons.IH [of "expire e m (j, d)"] by (auto simp: x expire_other)
  qed
qed simp

lemma expire_fold_visits:
  assumes "distinct (map fst xs)" and "(i, c) \<in> set xs" and "om_lookup m i = None"
    and "pe_parent (wc_proposal c) = Some p" and "om_lookup m p = None"
  shows "om_lookup (foldl (expire e) m xs) i =
    (if wc_valid_until c = e \<or> (visited_before p i xs \<and> om_lookup (foldl (expire e) m xs) p = Some NotRatified)
     then Some NotRatified else None)"
  using assms
proof (induction xs arbitrary: m)
  case (Cons x xs)
  obtain j d where x: "x = (j, d)" by (cases x)
  consider "i = j" | "i \<noteq> j" "p = j" | "i \<noteq> j" "p \<noteq> j" by blast
  then show ?case
  proof cases
    case 1
    then have i: "i \<notin> fst ` set xs" and c: "c = d" using Cons.prems x by (auto simp: rev_image_eqI)
    then have "\<not> visited_before p i (x # xs)" using 1 by (auto simp: x)
    then show ?thesis using i 1 c Cons.prems(3-5) by (simp add: x expire_fold_other expire_self)
  next
    case 2
    then have p: "p \<notin> fst ` set xs" and i: "(i, c) \<in> set xs" using Cons.prems(1,2) by (auto simp: x)
    have "om_lookup (expire e m (j, d)) i = None" using 2 Cons.prems(3) by (simp add: expire_other)
    from expire_fold_parent_done [OF _ i this Cons.prems(4) p, of e] Cons.prems(1)
    show ?thesis using 2 i by (force simp: x expire_fold_other)
  next
    case 3
    then show ?thesis using Cons.prems Cons.IH [of "expire e m (j, d)"] by (auto simp: x expire_other)
  qed
qed simp

lemma pf_end_in_visits:
  assumes "forest_ok f" and "visit_order f order" and "om_lookup (pf_proposals f) i = Some c"
    and "pe_parent (wc_proposal c) = Some p" and "om_lookup (pf_proposals f) p = Some d"
  shows "om_lookup (pf_end_in order f) i =
    (if wc_valid_until c = pf_current_epoch f \<or>
        (visited_before p i order \<and> om_lookup (pf_end_in order f) p = Some NotRatified)
     then Some NotRatified else None)"
proof -
  have "om_lookup (pf_pruned f) j = None" if "om_lookup (pf_proposals f) j = Some y" for j y
    using assms(1) that by (cases j) (auto simp: forest_ok_def om_contains_def)
  then show ?thesis
    unfolding pf_end_in_def using visit_orderD [OF assms(2)] assms(3-5) by (intro expire_fold_visits) auto
qed

lemma links_no_loop: "distinct (map fst (links q ss)) \<Longrightarrow> (i, Some i) \<in> set (links q ss) \<Longrightarrow> q = Some i"
proof (induction q ss rule: links.induct)
  case (2 parent j children ss)
  then consider "parent = Some i" | "(i, Some i) \<in> set (links (Some j) children)" | "(i, Some i) \<in> set (links parent ss)" by auto
  then show ?case
  proof cases
    case 2
    then have "Some j = Some i" using "2.IH"(1) "2.prems"(1) by simp
    moreover have "i \<in> fst ` set (links (Some j) children)" using 2 by (rule rev_image_eqI) simp
    ultimately show ?thesis using "2.prems"(1) by auto
  qed (use "2.IH"(2) "2.prems"(1) in simp_all)
qed simp

lemma forest_parent_neq:
  assumes "forest_ok f" and "om_lookup (pf_proposals f) i = Some c" and "pe_parent (wc_proposal c) = Some p"
  shows "p \<noteq> i"
proof
  assume "p = i"
  obtain k where "kind_of (wc_proposal c) = Some k" using assms(3) by (cases "wc_proposal c") auto
  then have l: "(i, Some i) \<in> set (tree_links (tree_at k f))" and t: "tree_ok (tree_at k f)"
    using assms \<open>p = i\<close> by (auto simp: forest_ok_def forest_links_def)
  then have "pt_root (tree_at k f) = Some i" by (intro links_no_loop) (simp_all add: tree_links_def tree_ok_def)
  moreover have "i \<in> tree_ids (tree_at k f)" using l by (force simp: tree_ids_links)
  ultimately show False using t by (simp add: tree_ok_def)
qed

lemma sorted_visits:
  assumes "sorted (map (\<lambda>(_, c). wc_proposed_in c) xs)" and "(i, c) \<in> set xs" and "(p, d) \<in> set xs"
    and "distinct (map fst xs)" and "wc_proposed_in d < wc_proposed_in c"
  shows "visited_before p i xs"
  using assms
proof (induction xs)
  case (Cons x xs)
  obtain j y where x: "x = (j, y)" by (cases x)
  have later: "\<forall>(_, z) \<in> set xs. wc_proposed_in y \<le> wc_proposed_in z" using Cons.prems(1) by (auto simp: x)
  have "j \<noteq> i"
  proof
    assume "j = i"
    then have "c = y" "(p, d) \<in> set xs" using Cons.prems by (auto simp: x rev_image_eqI)
    then show False using later Cons.prems(5) by auto
  qed
  moreover have "visited_before p i xs" if "j \<noteq> p" using that Cons \<open>j \<noteq> i\<close> by (auto simp: x)
  ultimately show ?case using Cons.prems(2) by (auto simp: x rev_image_eqI)
qed simp

lemma insort_visits:
  assumes "(i, c) \<in> set xs" and "p \<notin> fst ` set xs" and "wc_proposed_in d \<le> wc_proposed_in c" and "distinct (map fst xs)"
  shows "visited_before p i (insort_key (\<lambda>(_, c). wc_proposed_in c) (p, d) xs)"
  using assms
proof (induction xs)
  case (Cons x xs)
  obtain j y where x: "x = (j, y)" by (cases x)
  show ?case
  proof (cases "wc_proposed_in d \<le> wc_proposed_in y")
    case True
    then show ?thesis using Cons.prems(1) by (auto simp: x rev_image_eqI)
  next
    case False
    then have "(i, c) \<in> set xs" using Cons.prems(1,3) by (auto simp: x)
    then show ?thesis using False Cons by (auto simp: x rev_image_eqI)
  qed
qed simp

text \<open>Of two proposals of one epoch, either may be visited first.\<close>

lemma visit_order_either:
  assumes "om_lookup (pf_proposals f) i = Some c" and "om_lookup (pf_proposals f) p = Some d" and "p \<noteq> i"
    and "wc_proposed_in d = wc_proposed_in c"
  shows "\<exists>order. visit_order f order \<and> visited_before p i order"
proof -
  let ?k = "\<lambda>(_, c). wc_proposed_in c" and ?es = "om_entries (pf_proposals f)"
  let ?xs = "sort_key ?k (remove1 (p, d) ?es)"
  have in_es: "(p, d) \<in> set ?es" "(i, c) \<in> set ?es" using assms(1,2) by (simp_all add: om_entries_iff)
  have dist: "distinct (map fst ?es)" by simp
  then have d: "distinct ?es" "p \<notin> fst ` set (remove1 (p, d) ?es)"
    using in_es(1) eq_key_imp_eq_value [OF dist] by (auto simp: distinct_map)
  have "mset (map fst ?xs) = mset (map fst (remove1 (p, d) ?es))" by simp
  then have "distinct (map fst ?xs)"
    using mset_eq_imp_distinct_iff dist d(1) by (metis distinct_map distinct_remove1 inj_on_subset set_remove1_subset)
  then have "visited_before p i (insort_key ?k (p, d) ?xs)"
    using in_es(2) d assms(3,4) by (intro insort_visits) auto
  moreover have "mset (insort_key ?k (p, d) ?xs) = mset ?es" using in_es(1) by simp
  then have "visit_order f (insort_key ?k (p, d) ?xs)" by (simp add: visit_order_def sorted_insort_key)
  ultimately show ?thesis by blast
qed

section \<open>What remains can be filled in again\<close>

text \<open>
  A forest on the way from another one: every proposal of the first is still there or
  has been pruned, and nothing else has been pruned.
\<close>

definition descends :: "proposals_forest \<Rightarrow> proposals_forest \<Rightarrow> bool" where
  "descends f0 f =
    (forest_ok f \<and> pf_current_epoch f = pf_current_epoch f0 \<and>
     (\<forall>i c. om_lookup (pf_proposals f0) i = Some c \<longleftrightarrow>
       om_lookup (pf_proposals f) i = Some c \<or> (om_lookup (pf_proposals f0) i = Some c \<and> om_contains (pf_pruned f) i)) \<and>
     (\<forall>i. om_contains (pf_pruned f) i \<longrightarrow> om_contains (pf_proposals f0) i) \<and>
     (\<forall>k. pt_root (tree_at k f) = pt_root (tree_at k f0) \<or>
       (\<exists>i. pt_root (tree_at k f) = Some i \<and> om_lookup (pf_pruned f) i = Some Ratified)))"

lemma acceptable_survivors:
  assumes "acceptable R K ps" and "\<And>k. K' k \<supseteq> K k \<inter> S"
    and fresh: "\<And>i row k. (i, row) \<in> set ps \<Longrightarrow> i \<in> S \<Longrightarrow> kind_of (proposal_enum_of (cp_governance_action row)) = Some k \<Longrightarrow>
      i \<notin> K' k \<and> R' k \<noteq> Some i"
    and parent: "\<And>i row k. (i, row) \<in> set ps \<Longrightarrow> i \<in> S \<Longrightarrow> kind_of (proposal_enum_of (cp_governance_action row)) = Some k \<Longrightarrow>
      pe_parent (proposal_enum_of (cp_governance_action row)) = R' k \<or>
      (pe_parent (proposal_enum_of (cp_governance_action row)) \<noteq> R k \<and> pe_parent (proposal_enum_of (cp_governance_action row)) \<in> Some ` S)"
    and "distinct (map fst ps)"
  shows "acceptable R' K' (filter (\<lambda>(i, _). i \<in> S) ps)"
  using assms
proof (induction R K ps arbitrary: K' rule: acceptable.induct)
  case (2 R K i row ps)
  let ?p = "proposal_enum_of (cp_governance_action row)"
  show ?case
  proof (cases "kind_of ?p")
    case None
    have "acceptable R' K' (filter (\<lambda>(i, _). i \<in> S) ps)"
      by (rule "2.IH"(1) [OF None _ "2.prems"(2-4)]) (use "2.prems"(1,5) None in auto)
    then show ?thesis using None by auto
  next
    case (Some k)
    let ?K = "K(k := insert i (K k))"
    have acc: "acceptable R ?K ps" "pe_parent ?p = R k \<or> pe_parent ?p \<in> Some ` K k" using "2.prems"(1) Some by (auto simp: Let_def)
    have out: "i \<notin> fst ` set ps" "distinct (map fst ps)" using "2.prems"(5) by auto
    show ?thesis
    proof (cases "i \<in> S")
      case True
      have "acceptable R' (K'(k := insert i (K' k))) (filter (\<lambda>(i, _). i \<in> S) ps)"
      proof (rule "2.IH"(2) [OF Some acc(1)])
        fix j r k' assume j: "(j, r) \<in> set ps" "j \<in> S" "kind_of (proposal_enum_of (cp_governance_action r)) = Some k'"
        then have "j \<noteq> i" using out(1) by force
        then show "j \<notin> (K'(k := insert i (K' k))) k' \<and> R' k' \<noteq> Some j" using "2.prems"(3) [of j r k'] j by auto
        show "pe_parent (proposal_enum_of (cp_governance_action r)) = R' k' \<or>
            (pe_parent (proposal_enum_of (cp_governance_action r)) \<noteq> R k' \<and> pe_parent (proposal_enum_of (cp_governance_action r)) \<in> Some ` S)"
          using "2.prems"(4) [of j r k'] j by simp
      qed (use "2.prems"(2) out(2) in auto)
      moreover have "i \<notin> K' k \<and> R' k \<noteq> Some i" using "2.prems"(3) [of i row k] True Some by simp
      moreover have "pe_parent ?p = R' k \<or> pe_parent ?p \<in> Some ` K' k"
        using "2.prems"(4) [of i row k] True Some acc(2) "2.prems"(2) [of k] by auto
      ultimately show ?thesis using True Some by (simp add: Let_def)
    next
      case False
      have "acceptable R' K' (filter (\<lambda>(i, _). i \<in> S) ps)"
        by (rule "2.IH"(2) [OF Some acc(1) _ "2.prems"(3,4) out(2)]) (use "2.prems"(2) False in auto)
      then show ?thesis using False by simp
    qed
  qed
qed simp

lemma acceptable_fresh:
  "acceptable R K ps \<Longrightarrow> (i, row) \<in> set ps \<Longrightarrow> kind_of (proposal_enum_of (cp_governance_action row)) = Some k \<Longrightarrow> R k \<noteq> Some i"
  by (induction R K ps rule: acceptable.induct) (auto split: option.splits)

lemma tree_link_parent: "(i, q) \<in> set (tree_links t) \<Longrightarrow> q = pt_root t \<or> q \<in> Some ` tree_ids t"
  by (auto simp: tree_links_def tree_ids_def dest!: links_parents)

lemma pf_drain_fold: "pf_drain h ps f = try_fold (drain_one h (pf_current_epoch f)) (sort_key (\<lambda>(_, row). cp_proposed_in row) ps) f"
  by (simp add: pf_drain_def drain_one_def)

lemma distinct_sort_fst: "distinct (map fst (sort_key k ps)) = distinct (map fst ps)"
proof -
  have "mset (map fst (sort_key k ps)) = mset (map fst ps)" by simp
  then show ?thesis by (rule mset_eq_imp_distinct_iff)
qed

lemma pf_drain_new:
  assumes "distinct (map fst ps)"
  shows "is_ok (pf_drain h ps (pf_new e roots n)) \<longleftrightarrow>
    acceptable (\<lambda>k. pt_root (tree_at k (pf_new e roots n))) (\<lambda>_. {}) (sort_key (\<lambda>(_, row). cp_proposed_in row) ps) \<and>
    (\<forall>(i, row) \<in> set ps. candidate_ok h e row)"
    and "pf_drain h ps (pf_new e roots n) = Ok f \<Longrightarrow>
      draining f \<and> pf_treasury f = n \<and> pf_current_epoch f = e \<and> holds_candidates h f ps \<and>
      (\<forall>k. pt_root (tree_at k f) = pt_root (tree_at k (pf_new e roots n)))"
proof -
  have new: "pf_proposals (pf_new e roots n) = om_empty" "pf_current_epoch (pf_new e roots n) = e" "pf_treasury (pf_new e roots n) = n"
    by (simp_all add: pf_new_def)
  have "tree_ids (tree_at k (pf_new e roots n)) = {}" for k by (cases k) (simp_all add: pf_new_def tree_ids_links pt_new_ok)
  then show "is_ok (pf_drain h ps (pf_new e roots n)) \<longleftrightarrow>
    acceptable (\<lambda>k. pt_root (tree_at k (pf_new e roots n))) (\<lambda>_. {}) (sort_key (\<lambda>(_, row). cp_proposed_in row) ps) \<and>
    (\<forall>(i, row) \<in> set ps. candidate_ok h e row)"
    using drain_iff [OF pf_new_draining, of "sort_key (\<lambda>(_, row). cp_proposed_in row) ps" e roots n h e] assms
    by (simp add: pf_drain_fold new distinct_sort_fst del: sort_key_simps)
  assume f: "pf_drain h ps (pf_new e roots n) = Ok f"
  have "holds_candidates h (pf_new e roots n) []" by (simp add: holds_candidates_def new)
  then show "draining f \<and> pf_treasury f = n \<and> pf_current_epoch f = e \<and> holds_candidates h f ps \<and>
      (\<forall>k. pt_root (tree_at k f) = pt_root (tree_at k (pf_new e roots n)))"
    using drain_all [OF f [unfolded pf_drain_fold] pf_new_draining, of "[]"] assms
    by (simp add: new distinct_sort_fst holds_candidates_def)
qed

lemma forest_tree_ids:
  assumes "forest_ok f"
  shows "tree_ids (tree_at k f) = {i. \<exists>c. om_lookup (pf_proposals f) i = Some c \<and> kind_of (wc_proposal c) = Some k}"
proof -
  have "tree_ids (tree_at k f) = fst ` forest_links f k" using assms by (simp add: forest_ok_def tree_ids_links)
  also have "\<dots> = {i. \<exists>c. om_lookup (pf_proposals f) i = Some c \<and> kind_of (wc_proposal c) = Some k}"
    unfolding forest_links_def by (rule set_eqI) (auto simp: image_iff)
  finally show ?thesis .
qed

lemma pf_new_roots: "pt_root (tree_at k (pf_new e (pf_roots f) n)) = pt_root (tree_at k f)"
  by (cases k) (simp_all add: pf_new_def pf_roots_def pt_new_ok)

text \<open>
  The proposals that are left after ratification and expiry can be filled in the forest
  of the next epoch, with the roots that ratification has left.
\<close>

lemma survivors_drain:
  assumes dist: "distinct (map fst ps)" and f0: "pf_drain h ps (pf_new e roots n) = Ok f0" and run: "descends f0 f"
    and first: "parents_first (sort_key (\<lambda>(_, c). wc_proposed_in c) (om_entries (pf_proposals f)))"
  shows "is_ok (pf_drain h (filter (\<lambda>(i, _). om_lookup (pf_end f) i = None) ps) (pf_new (e + 1) (pf_roots f) n'))"
proof -
  let ?S = "{i. om_lookup (pf_end f) i = None}" and ?sort = "sort_key (\<lambda>(_, row :: candidate_proposal). cp_proposed_in row)"
  let ?R = "\<lambda>k. pt_root (tree_at k (pf_new e roots n))" and ?R' = "\<lambda>k. pt_root (tree_at k f)"
  let ?enum = "\<lambda>row. proposal_enum_of (cp_governance_action row)"
  have d0: "holds_candidates h f0 ps" "pf_current_epoch f0 = e" "\<forall>k. pt_root (tree_at k f0) = ?R k"
    using pf_drain_new(2) [OF dist f0] by auto
  have acc: "acceptable ?R (\<lambda>_. {}) (?sort ps)" and valid: "\<forall>(i, row) \<in> set ps. candidate_ok h e row"
    using pf_drain_new(1) [OF dist, of h e roots n] f0 by simp_all
  have ok: "forest_ok f" and epoch: "pf_current_epoch f = e" using run d0(2) by (simp_all add: descends_def)
  have moved: "?R' k = ?R k \<or> (\<exists>i. ?R' k = Some i \<and> om_contains (pf_pruned f) i)" for k
    using run d0(3) unfolding descends_def om_contains_def by (metis option.distinct(1))
  have kept: "om_contains (pf_pruned f) j \<Longrightarrow> j \<notin> ?S" for j
    using ok pf_end_other [of f j] by (cases j; cases "om_lookup (pf_proposals f) j") (auto simp: forest_ok_def om_contains_def)
  have here: "\<exists>c. om_lookup (pf_proposals f) i = Some c \<and> wc_proposal c = ?enum row \<and> wc_valid_until c = cp_valid_until row"
    if i: "(i, row) \<in> set ps" "i \<in> ?S" for i row
  proof -
    obtain ep where ep: "slot_to_epoch h (fst (fst (cp_proposed_in row))) (fst (fst (cp_proposed_in row))) = Ok ep"
      using valid i(1) by (cases "slot_to_epoch h (fst (fst (cp_proposed_in row))) (fst (fst (cp_proposed_in row)))") (auto simp: candidate_ok_def)
    let ?c = "\<lparr>wc_proposed_in = ep, wc_valid_until = cp_valid_until row, wc_pointer = cp_proposed_in row, wc_proposal = ?enum row\<rparr>"
    have "om_lookup (pf_proposals f0) i = Some ?c" using d0(1) i(1) ep unfolding holds_candidates_def by fastforce
    then have "om_lookup (pf_proposals f) i = Some ?c" using run kept i(2) unfolding descends_def by blast
    then show ?thesis by simp
  qed
  have known: "\<exists>row. (j, row) \<in> set ps \<and> kind_of (?enum row) = Some k" if j: "j \<in> tree_ids (tree_at k f)" for j k
  proof -
    obtain c where "om_lookup (pf_proposals f) j = Some c" "kind_of (wc_proposal c) = Some k"
      using j unfolding forest_tree_ids [OF ok] by blast
    then have "om_lookup (pf_proposals f0) j = Some c" using run unfolding descends_def by blast
    then show ?thesis using d0(1) \<open>kind_of (wc_proposal c) = Some k\<close> unfolding holds_candidates_def by auto
  qed
  have "acceptable ?R' (\<lambda>_. {}) (filter (\<lambda>(i, _). i \<in> ?S) (?sort ps))"
  proof (rule acceptable_survivors [OF acc])
    fix i row k assume i: "(i, row) \<in> set (?sort ps)" "i \<in> ?S" "kind_of (?enum row) = Some k"
    have "?R k \<noteq> Some i" using acceptable_fresh [OF acc i(1,3)] .
    moreover have "\<not> om_contains (pf_pruned f) i" using kept i(2) by blast
    ultimately show "i \<notin> {} \<and> ?R' k \<noteq> Some i" using moved [of k] by auto
    obtain c where c: "om_lookup (pf_proposals f) i = Some c" "wc_proposal c = ?enum row"
      using here [of i row] i(1,2) by auto
    then have "(i, pe_parent (?enum row)) \<in> set (tree_links (tree_at k f))" using ok i(3) by (auto simp: forest_ok_def forest_links_def)
    then consider "pe_parent (?enum row) = ?R' k" | p where "pe_parent (?enum row) = Some p" "p \<in> tree_ids (tree_at k f)"
      using tree_link_parent by blast
    then show "pe_parent (?enum row) = ?R' k \<or> (pe_parent (?enum row) \<noteq> ?R k \<and> pe_parent (?enum row) \<in> Some ` ?S)"
    proof cases
      case 2
      obtain row' where "(p, row') \<in> set (?sort ps)" "kind_of (?enum row') = Some k" using known [OF 2(2)] by auto
      then have "?R k \<noteq> Some p" by (rule acceptable_fresh [OF acc])
      moreover obtain d where "om_lookup (pf_proposals f) p = Some d"
        using 2(2) unfolding forest_tree_ids [OF ok] by blast
      then have "om_lookup (pf_end f) p = None"
        using pf_end_pruned [OF ok first c(1)] pf_end_pruned [OF ok first, of p d] i(2) 2(1) c(2) by (auto split: if_splits)
      ultimately show ?thesis using 2(1) by auto
    qed simp
  qed (use dist in \<open>simp_all add: distinct_sort_fst\<close>)
  then have "acceptable ?R' (\<lambda>_. {}) (?sort (filter (\<lambda>(i, _). i \<in> ?S) ps))" by (simp add: filter_sort case_prod_unfold)
  moreover have "candidate_ok h (e + 1) row" if i: "(i, row) \<in> set ps" "i \<in> ?S" for i row
  proof -
    obtain c where c: "om_lookup (pf_proposals f) i = Some c" "wc_valid_until c = cp_valid_until row" using here [OF i] by blast
    then have "cp_valid_until row \<noteq> e" using pf_end_pruned [OF ok first c(1)] i(2) epoch by (auto split: if_splits)
    moreover have "candidate_ok h e row" using valid i(1) by auto
    ultimately show ?thesis by (auto simp: candidate_ok_def)
  qed
  moreover have "distinct (map fst (filter (\<lambda>(i, _). i \<in> ?S) ps))" using dist by (simp add: distinct_map_filter)
  ultimately show ?thesis
    using pf_drain_new(1) [of "filter (\<lambda>(i, _). i \<in> ?S) ps" h "e + 1" "pf_roots f" n'] by (auto simp: pf_new_roots)
qed

end
