(* ===== verification/Ratification.thy ===== *)
theory Ratification
  imports Proposals_Forest Stake_Summary
begin

text \<open>
  Ratification of governance proposals
  (\<open>amaru-ledger/src/governance/ratification.rs\<close> and the modules next to it): the
  constitutional committee, thresholds and tallies of the three voting bodies, and the
  loop that enacts what everyone accepts.
\<close>

section \<open>The constitutional committee\<close>

record constitutional_committee =
  com_threshold :: rat
  com_members :: "(credential, credential option \<times> epoch) omap"

definition hot_credential_from_row :: "cc_member_row \<Rightarrow> credential option" where
  "hot_credential_from_row row =
    (case ccrow_status row of Some (DelegatedToHotCredential c) \<Rightarrow> Some c | _ \<Rightarrow> None)"

text \<open>
  The members of a snapshot under an update: members that are added anew take their new
  term, others are kept when \<open>keep\<close> says so, and added ones that the snapshot does not
  have come in without a hot credential.
\<close>

definition updated_members ::
  "(credential \<Rightarrow> cc_member_row \<Rightarrow> (credential option \<times> epoch) option) \<Rightarrow> (credential, epoch) omap \<Rightarrow>
    (credential \<times> cc_member_row) list \<Rightarrow> (credential, credential option \<times> epoch) omap" where
  "updated_members keep added rows =
    (let (members, remaining) =
       foldl (\<lambda>(members, added) (cold, row).
           case om_lookup added cold of
             Some valid_until \<Rightarrow> (om_insert cold (hot_credential_from_row row, valid_until) members, om_remove cold added)
           | None \<Rightarrow> (case keep cold row of Some m \<Rightarrow> (om_insert cold m members, added) | None \<Rightarrow> (members, added)))
         (om_empty, added) rows
     in foldl (\<lambda>members (cold, valid_until). om_insert cold (None, valid_until) members) members (om_entries remaining))"

definition com_resolve :: "ledger_snapshot \<Rightarrow> cc_update option \<Rightarrow> constitutional_committee option" where
  "com_resolve db cc_update =
    (if cc_update = Some CCNoConfidence then None
     else case sn_constitutional_committee db of
       CCStatusNoConfidence \<Rightarrow>
         (case cc_update of
            Some (ChangeMembers _ added threshold) \<Rightarrow>
              Some \<lparr>com_threshold = threshold, com_members = updated_members (\<lambda>_ _. None) added (sn_cc_members db)\<rparr>
          | _ \<Rightarrow> None)
     | Trusted threshold \<Rightarrow>
         (case cc_update of
            Some (ChangeMembers removed added threshold') \<Rightarrow>
              Some \<lparr>com_threshold = threshold', com_members = updated_members
                (\<lambda>cold row. if om_contains removed cold then None
                   else map_option (\<lambda>v. (hot_credential_from_row row, v)) (ccrow_valid_until row))
                added (sn_cc_members db)\<rparr>
          | _ \<Rightarrow>
              Some \<lparr>com_threshold = threshold, com_members = updated_members
                (\<lambda>cold row. map_option (\<lambda>v. (hot_credential_from_row row, v)) (ccrow_valid_until row))
                om_empty (sn_cc_members db)\<rparr>))"

text \<open>
  The set of active members is remembered per epoch in the code and forgotten by
  \<open>update\<close>, the only operation that changes the members; it is recomputed here.
\<close>

definition com_update ::
  "rat \<Rightarrow> (credential, credential option \<times> epoch) omap \<Rightarrow> credential oset \<Rightarrow> constitutional_committee \<Rightarrow> constitutional_committee" where
  "com_update threshold added removed com =
    com\<lparr>com_threshold := threshold,
      com_members := foldl (\<lambda>members (cold, m). om_insert cold m members)
        (om_filter (\<lambda>cold _. \<not> om_contains removed cold) (com_members com)) (om_entries added)\<rparr>"

definition active_members :: "constitutional_committee \<Rightarrow> epoch \<Rightarrow> (credential, credential) omap" where
  "active_members com current_epoch =
    foldl (\<lambda>active (cold, hot, valid_until).
        case hot of
          Some h \<Rightarrow> if current_epoch < valid_until then om_insert cold h active else active
        | None \<Rightarrow> active)
      om_empty (om_entries (com_members com))"

definition com_voting_threshold :: "constitutional_committee \<Rightarrow> epoch \<Rightarrow> nat \<Rightarrow> proposal_enum \<Rightarrow> rat option" where
  "com_voting_threshold com current_epoch min_size proposal =
    (case proposal of
       POrphan NicePoll \<Rightarrow> None
     | PCommittee _ _ \<Rightarrow> Some 0
     | _ \<Rightarrow> if om_len (active_members com current_epoch) < min_size then None else Some (com_threshold com))"

fun count_vote :: "nat \<times> nat \<times> nat \<Rightarrow> vote \<Rightarrow> nat \<times> nat \<times> nat" where
  "count_vote (yes, no, abstain) VoteYes = (yes + 1, no, abstain)" |
  "count_vote (yes, no, abstain) VoteNo = (yes, no + 1, abstain)" |
  "count_vote (yes, no, abstain) VoteAbstain = (yes, no, abstain + 1)"

definition com_tally :: "constitutional_committee \<Rightarrow> epoch \<Rightarrow> (credential, vote) omap \<Rightarrow> rat" where
  "com_tally com epoch votes =
    (let active = active_members com epoch;
         hot_credentials = os_extend om_empty (om_values active);
         total_active_members = om_len active;
         (yes, no, abstain) = foldl (\<lambda>counts (hot, vote).
             if om_contains hot_credentials hot then count_vote counts vote else counts) (0, 0, 0) (om_entries votes)
     in if total_active_members \<le> abstain then 0
        else of_nat yes / of_nat (total_active_members - abstain))"

section \<open>Delegate representatives\<close>

definition max_ratio :: "rat list \<Rightarrow> rat" where
  "max_ratio rs = (case rs of [] \<Rightarrow> 0 | r # rest \<Rightarrow> foldl max r rest)"

definition drep_voting_threshold :: "bool \<Rightarrow> drep_voting_thresholds \<Rightarrow> proposal_enum \<Rightarrow> rat option" where
  "drep_voting_threshold is_state_of_no_confidence t proposal =
    (case proposal of
       POrphan NicePoll \<Rightarrow> None
     | PParams update _ \<Rightarrow>
         Some (max_ratio (List.map_filter (\<lambda>x. x)
           [any_update_in_network_group t update, any_update_in_economic_group t update,
            any_update_in_technical_group t update, any_update_in_governance_group t update]))
     | PHardFork _ _ \<Rightarrow> Some (dvt_hard_fork_initiation t)
     | PCommittee CCNoConfidence _ \<Rightarrow> Some (dvt_motion_no_confidence t)
     | PCommittee (ChangeMembers _ _ _) _ \<Rightarrow>
         Some (if is_state_of_no_confidence then dvt_committee_no_confidence t else dvt_committee_normal t)
     | PConstitution _ _ \<Rightarrow> Some (dvt_update_constitution t)
     | POrphan (TreasuryWithdrawal _) \<Rightarrow> Some (dvt_treasury_withdrawal t))"

definition count_drep_vote ::
  "epoch \<Rightarrow> proposal_enum \<Rightarrow> (drep, vote) omap \<Rightarrow> lovelace \<times> lovelace \<Rightarrow> drep \<times> drep_state \<Rightarrow> lovelace \<times> lovelace" where
  "count_drep_vote epoch proposal votes = (\<lambda>(yes, denominator) (drep, st).
    let stake = dst_voting_stake st in
    if is_active st epoch then
      (case drep of
         DRepAbstain \<Rightarrow> (yes, denominator)
       | DRepNoConfidence \<Rightarrow>
           if is_no_confidence proposal then (yes + stake, denominator + stake) else (yes, denominator + stake)
       | _ \<Rightarrow>
           (case om_lookup votes drep of
              None \<Rightarrow> (yes, denominator + stake)
            | Some VoteYes \<Rightarrow> (yes + stake, denominator + stake)
            | Some VoteNo \<Rightarrow> (yes, denominator + stake)
            | Some VoteAbstain \<Rightarrow> (yes, denominator)))
    else (yes, denominator))"

definition drep_counts :: "epoch \<Rightarrow> proposal_enum \<Rightarrow> (drep, vote) omap \<Rightarrow> stake_distribution \<Rightarrow> lovelace \<times> lovelace" where
  "drep_counts epoch proposal votes sd = foldl (count_drep_vote epoch proposal votes) (0, 0) (om_entries (sd_dreps sd))"

definition drep_tally :: "epoch \<Rightarrow> proposal_enum \<Rightarrow> (drep, vote) omap \<Rightarrow> stake_distribution \<Rightarrow> rat" where
  "drep_tally epoch proposal votes sd =
    (let (yes, denominator) = drep_counts epoch proposal votes sd in
     if denominator = 0 then 0 else of_nat yes / of_nat denominator)"

section \<open>Stake pools\<close>

definition pool_voting_threshold :: "bool \<Rightarrow> pool_voting_thresholds \<Rightarrow> proposal_enum \<Rightarrow> rat option" where
  "pool_voting_threshold is_state_of_no_confidence t proposal =
    (case proposal of
       PParams update _ \<Rightarrow> if any_in_security_group update then Some (pvt_security_voting_threshold t) else Some 0
     | PHardFork _ _ \<Rightarrow> Some (pvt_hard_fork_initiation t)
     | PCommittee CCNoConfidence _ \<Rightarrow> Some (pvt_motion_no_confidence t)
     | PCommittee (ChangeMembers _ _ _) _ \<Rightarrow>
         Some (if is_state_of_no_confidence then pvt_committee_no_confidence t else pvt_committee_normal t)
     | PConstitution _ _ \<Rightarrow> Some 0
     | POrphan (TreasuryWithdrawal _) \<Rightarrow> Some 0
     | POrphan NicePoll \<Rightarrow> None)"

definition count_pool_vote ::
  "proposal_enum \<Rightarrow> (pool_id, vote) omap \<Rightarrow> lovelace \<times> lovelace \<Rightarrow> pool_id \<times> pool_state \<Rightarrow> lovelace \<times> lovelace" where
  "count_pool_vote proposal votes = (\<lambda>(yes, abstain) (pid, pool).
    let stake = pst_voting_stake pool in
    (case om_lookup votes pid of
       Some VoteYes \<Rightarrow> (yes + stake, abstain)
     | Some VoteNo \<Rightarrow> (yes, abstain)
     | Some VoteAbstain \<Rightarrow> (yes, abstain + stake)
     | None \<Rightarrow>
         if is_hardfork proposal then (yes, abstain)
         else
           (case pst_fallback_drep pool of
              Some DRepNoConfidence \<Rightarrow> if is_no_confidence proposal then (yes + stake, abstain) else (yes, abstain)
            | Some DRepAbstain \<Rightarrow> (yes, abstain + stake)
            | _ \<Rightarrow> (yes, abstain))))"

definition pool_counts :: "proposal_enum \<Rightarrow> (pool_id, vote) omap \<Rightarrow> stake_distribution \<Rightarrow> lovelace \<times> lovelace" where
  "pool_counts proposal votes sd = foldl (count_pool_vote proposal votes) (0, 0) (om_entries (sd_pools sd))"

definition pool_tally :: "proposal_enum \<Rightarrow> (pool_id, vote) omap \<Rightarrow> stake_distribution \<Rightarrow> rat" where
  "pool_tally proposal votes sd =
    (if sd_pools_voting_stake sd = 0 then 0
     else
       let (yes, abstain) = pool_counts proposal votes sd in
       if sd_pools_voting_stake sd \<le> abstain then 0
       else of_nat yes / of_nat (sd_pools_voting_stake sd - abstain))"

section \<open>The context of ratification\<close>

record ratification_context =
  rc_epoch :: epoch
  rc_treasury :: lovelace
  rc_stake_distribution :: stake_distribution
  rc_protocol_parameters :: protocol_parameters
  rc_withdrawals :: "(credential, lovelace) omap"
  rc_constitutional_committee :: "constitutional_committee option"
  rc_committee_change :: "cc_update option"
  rc_new_constitution :: "constitution option"
  rc_votes :: "(proposal_id, (voter \<times> ballot) list) omap"

definition rc_new :: "ledger_snapshot \<Rightarrow> stake_distribution \<Rightarrow> protocol_parameters \<Rightarrow> lovelace \<Rightarrow> ratification_context" where
  "rc_new snapshot sd pp treasury =
    \<lparr>rc_epoch = sn_epoch snapshot, rc_treasury = treasury, rc_stake_distribution = sd, rc_protocol_parameters = pp,
     rc_withdrawals = om_empty, rc_constitutional_committee = com_resolve snapshot (sd_cc_update sd),
     rc_committee_change = None, rc_new_constitution = None,
     rc_votes = foldl (\<lambda>votes ((proposal, voter), ballot).
         om_insert proposal ((case om_lookup votes proposal of Some bs \<Rightarrow> bs | None \<Rightarrow> []) @ [(voter, ballot)]) votes)
       om_empty (sn_votes snapshot)\<rparr>"

definition partition_vote ::
  "(drep, vote) omap \<times> (credential, vote) omap \<times> (pool_id, vote) omap \<Rightarrow> voter \<times> ballot \<Rightarrow>
    (drep, vote) omap \<times> (credential, vote) omap \<times> (pool_id, vote) omap" where
  "partition_vote = (\<lambda>(dreps, committee, pools) (voter, ballot).
    (case voter of
       VoterCCKey h \<Rightarrow> (dreps, om_insert (KeyHash h) (fst ballot) committee, pools)
     | VoterCCScript h \<Rightarrow> (dreps, om_insert (ScriptHash h) (fst ballot) committee, pools)
     | VoterDRepKey h \<Rightarrow> (om_insert (DRepKey h) (fst ballot) dreps, committee, pools)
     | VoterDRepScript h \<Rightarrow> (om_insert (DRepScript h) (fst ballot) dreps, committee, pools)
     | VoterStakePool p \<Rightarrow> (dreps, committee, om_insert p (fst ballot) pools)))"

definition partition_votes ::
  "(voter \<times> ballot) list \<Rightarrow> (drep, vote) omap \<times> (credential, vote) omap \<times> (pool_id, vote) omap" where
  "partition_votes votes = foldl partition_vote (om_empty, om_empty, om_empty) votes"

definition is_accepted_by_constitutional_committee :: "ratification_context \<Rightarrow> proposal_enum \<Rightarrow> (credential, vote) omap \<Rightarrow> bool" where
  "is_accepted_by_constitutional_committee ctx proposal votes =
    (case rc_constitutional_committee ctx of
       None \<Rightarrow> False
     | Some committee \<Rightarrow>
         (case com_voting_threshold committee (rc_epoch ctx) (min_committee_size (rc_protocol_parameters ctx)) proposal of
            None \<Rightarrow> False
          | Some threshold \<Rightarrow> threshold = 0 \<or> threshold \<le> com_tally committee (rc_epoch ctx) votes))"

definition is_accepted_by_stake_pool_operators :: "ratification_context \<Rightarrow> proposal_enum \<Rightarrow> (pool_id, vote) omap \<Rightarrow> bool" where
  "is_accepted_by_stake_pool_operators ctx proposal votes =
    (case pool_voting_threshold (rc_constitutional_committee ctx = None)
        (pool_voting_thresholds (rc_protocol_parameters ctx)) proposal of
       None \<Rightarrow> False
     | Some threshold \<Rightarrow> threshold = 0 \<or> threshold \<le> pool_tally proposal votes (rc_stake_distribution ctx))"

definition is_accepted_by_delegate_representatives :: "ratification_context \<Rightarrow> proposal_enum \<Rightarrow> (drep, vote) omap \<Rightarrow> bool" where
  "is_accepted_by_delegate_representatives ctx proposal votes =
    (case drep_voting_threshold (rc_constitutional_committee ctx = None)
        (drep_voting_thresholds (rc_protocol_parameters ctx)) proposal of
       None \<Rightarrow> False
     | Some threshold \<Rightarrow> threshold = 0 \<or> threshold \<le> drep_tally (rc_epoch ctx) proposal votes (rc_stake_distribution ctx))"

definition is_accepted_by_everyone :: "ratification_context \<Rightarrow> proposal_id \<Rightarrow> proposal_enum \<Rightarrow> bool" where
  "is_accepted_by_everyone ctx i proposal =
    (let (dreps_votes, cc_votes, pool_votes) =
           partition_votes (case om_lookup (rc_votes ctx) i of Some v \<Rightarrow> v | None \<Rightarrow> [])
     in is_accepted_by_constitutional_committee ctx proposal cc_votes \<and>
        is_accepted_by_stake_pool_operators ctx proposal pool_votes \<and>
        is_accepted_by_delegate_representatives ctx proposal dreps_votes)"

text \<open>The effect of an enacted proposal; enacting a poll is unreachable.\<close>

fun enact_proposal :: "proposal_enum \<Rightarrow> ratification_context \<Rightarrow> ratification_context option" where
  "enact_proposal (PParams update _) ctx =
    Some (ctx\<lparr>rc_protocol_parameters := pp_update (rc_protocol_parameters ctx) update\<rparr>)" |
  "enact_proposal (PHardFork version _) ctx =
    Some (ctx\<lparr>rc_protocol_parameters := (rc_protocol_parameters ctx)\<lparr>protocol_version := version\<rparr>\<rparr>)" |
  "enact_proposal (PCommittee update _) ctx =
    (let committee = (case update of
         CCNoConfidence \<Rightarrow> None
       | ChangeMembers removed added threshold \<Rightarrow>
           (let added_as_inactive = om_map (\<lambda>_ valid_until. (None, valid_until)) added in
            case rc_constitutional_committee ctx of
              Some committee \<Rightarrow> Some (com_update threshold added_as_inactive removed committee)
            | None \<Rightarrow> Some \<lparr>com_threshold = threshold, com_members = added_as_inactive\<rparr>))
     in Some (ctx\<lparr>rc_constitutional_committee := committee, rc_committee_change := Some update\<rparr>))" |
  "enact_proposal (PConstitution c _) ctx = Some (ctx\<lparr>rc_new_constitution := Some c\<rparr>)" |
  "enact_proposal (POrphan (TreasuryWithdrawal withdrawals)) ctx =
    Some (ctx\<lparr>rc_withdrawals := foldl (\<lambda>m (credential, amount). add_amount credential amount m) (rc_withdrawals ctx)
      (om_entries withdrawals)\<rparr>)" |
  "enact_proposal (POrphan NicePoll) ctx = None"

section \<open>The loop\<close>

datatype ratification_error = ForestError forest_error | UnenactableProposal

lemma pf_next_shrinks:
  assumes "pf_next pp f = Ok (Some ip, f')"
  shows "length (pf_sequence f') < length (pf_sequence f)"
proof -
  have "next_in pp f seq = Ok (Some ip, rest) \<Longrightarrow> length rest < length seq" for seq rest
  proof (induction seq)
    case (Cons i seq)
    then show ?case by (auto split: option.splits if_splits)
  qed simp
  then show ?thesis using assms by (auto simp: pf_next_def res_bind_ok_iff split: if_splits prod.splits)
qed

lemma pf_enact_shrinks:
  assumes "pf_enact i p f = Ok f'"
  shows "length (pf_sequence f') \<le> length (pf_sequence f)"
proof -
  obtain j pruned f1 where f1: "enact_in_tree i p f = Ok (j, pruned, f1)"
    and f': "pf_sequence f' = filter (\<lambda>k. \<not> om_contains (pf_pruned f') k) (pf_sequence f1)"
    using assms by (auto simp: pf_enact_def res_bind_ok_iff Let_def)
  have "pf_sequence f1 = pf_sequence f"
    using f1 by (cases "(i, p, f)" rule: enact_in_tree.cases)
      (auto simp: res_bind_ok_iff Let_def split: orphan_proposal.splits if_splits)
  then show ?thesis using f' by simp
qed

function ratify_loop ::
  "ratification_context \<Rightarrow> proposals_forest \<Rightarrow> (ratification_error, ratification_context \<times> proposals_forest) result" where
  "ratify_loop ctx f =
    (case pf_next (rc_protocol_parameters ctx) f of
       Inl e \<Rightarrow> Err (ForestError e)
     | Inr (None, f1) \<Rightarrow> Ok (ctx, f1)
     | Inr (Some (i, proposal), f1) \<Rightarrow>
         if is_accepted_by_everyone ctx i proposal then
           (case pf_enact i proposal f1 of
              Inl e \<Rightarrow> Err (ForestError e)
            | Inr f2 \<Rightarrow>
                (case enact_proposal proposal ctx of
                   None \<Rightarrow> Err UnenactableProposal
                 | Some ctx' \<Rightarrow> ratify_loop ctx' f2))
         else ratify_loop ctx f1)"
  by pat_completeness auto
termination
  by (relation "measure (\<lambda>(_, f). length (pf_sequence f))")
    (auto dest!: pf_next_shrinks pf_enact_shrinks)

definition ratify_proposals ::
  "era_history \<Rightarrow> (proposal_id \<times> candidate_proposal) list \<Rightarrow> proposals_roots \<Rightarrow> ratification_context \<Rightarrow>
    (ratification_error, (proposals_roots \<times> (proposal_id, ratification_status) omap) \<times> ratification_context) result" where
  "ratify_proposals era_history proposals roots ctx =
    (case pf_drain era_history proposals (pf_new (rc_epoch ctx) roots (rc_treasury ctx)) of
       Inl e \<Rightarrow> Err (ForestError e)
     | Inr forest \<Rightarrow>
         (case ratify_loop ctx forest of
            Inl e \<Rightarrow> Err e
          | Inr (ctx', f) \<Rightarrow> Ok ((pf_roots f, pf_end f), ctx')))"

section \<open>The loop never fails\<close>

lemma poll_not_accepted: "is_accepted_by_everyone ctx i p \<Longrightarrow> p \<noteq> POrphan NicePoll"
  by (auto simp: is_accepted_by_everyone_def is_accepted_by_stake_pool_operators_def pool_voting_threshold_def
      split: prod.splits)

lemma enact_proposal_defined: "p \<noteq> POrphan NicePoll \<Longrightarrow> \<exists>ctx'. enact_proposal p ctx = Some ctx'"
  by (cases "(p, ctx)" rule: enact_proposal.cases) (simp_all add: Let_def)

lemma displaced_known: "j \<in> displaced f i p \<Longrightarrow> om_lookup (pf_proposals f) j \<noteq> None"
  by (auto simp: displaced_def forest_links_def split: option.splits)

lemma tree_at_roots: "pt_root (tree_at k f) = (case k of KParams \<Rightarrow> root_protocol_parameters | KHardFork \<Rightarrow> root_hard_fork
    | KCommittee \<Rightarrow> root_constitutional_committee | KConstitution \<Rightarrow> root_constitution) (pf_roots f)"
  by (cases k) (simp_all add: pf_roots_def)

lemma pf_enact_root:
  assumes "pf_enact i p f = Ok f'"
  shows "pt_root (tree_at k f') = pt_root (tree_at k f) \<or> pt_root (tree_at k f') = Some i"
proof -
  obtain j pruned f1 where f1: "enact_in_tree i p f = Ok (j, pruned, f1)" and f': "tree_at k f' = tree_at k f1"
    using assms by (auto simp: pf_enact_def res_bind_ok_iff Let_def)
  show ?thesis
  proof (cases "kind_of p")
    case None
    then obtain orphan where "p = POrphan orphan" by (cases p) auto
    then show ?thesis using f1 f' by (auto simp: Let_def split: orphan_proposal.splits if_splits)
  next
    case (Some k')
    then obtain t where t: "pt_enact i (tree_at k' f) = Ok (j, pruned, t)" and "tree_at k f1 = (if k = k' then t else tree_at k f)"
      using f1 by (auto simp: enact_in_tree_kind res_bind_ok_iff lift_tree_ok_iff tree_at_set_tree)
    moreover have "pt_root t = Some i"
    proof -
      obtain s rest where "sib_partition (pt_siblings (tree_at k' f)) i = (Some s, rest)" "pt_root t = Some (sib_id s)"
        using t by (auto simp: pt_enact_def split: option.splits prod.splits)
      moreover have "sib_partition ss i = (Some s, rest) \<Longrightarrow> sib_id s = i" for ss :: "proposal_id sibling list"
        unfolding sib_partition_def by (induction ss arbitrary: s rest rule: rev_induct) (auto split: if_splits prod.splits)
      ultimately show ?thesis by simp
    qed
    ultimately show ?thesis using f' by auto
  qed
qed

lemma matching_root_sequence [simp]: "matching_root (f\<lparr>pf_sequence := rest\<rparr>) p = matching_root f p"
  by (cases p) simp_all

lemma descends_refl: "draining f \<Longrightarrow> descends f f"
  by (auto simp: descends_def draining_def om_contains_def)

lemma descends_next: "descends f0 f \<Longrightarrow> forest_ok (f\<lparr>pf_sequence := rest\<rparr>) \<Longrightarrow> descends f0 (f\<lparr>pf_sequence := rest\<rparr>)"
  by (simp add: descends_def)

lemma descends_enact:
  assumes d: "descends f0 f" and c: "om_lookup (pf_proposals f) i = Some c" and root: "matching_root f (wc_proposal c)"
    and e: "pf_enact i (wc_proposal c) f = Ok f'"
  shows "descends f0 f'"
proof -
  have ok: "forest_ok f" using d by (simp add: descends_def)
  obtain ok': "forest_ok f'" "pf_current_epoch f' = pf_current_epoch f"
    and pr: "\<And>j. om_lookup (pf_pruned f') j = (if j = i then Some Ratified
      else if j \<in> displaced f i (wc_proposal c) then Some NotRatified else om_lookup (pf_pruned f) j)"
    and ps: "\<And>j. om_lookup (pf_proposals f') j =
      (if j = i \<or> j \<in> displaced f i (wc_proposal c) then None else om_lookup (pf_proposals f) j)"
    using pf_enact_ok [OF ok c root] e by auto
  have same: "om_lookup (pf_proposals f) j = Some b \<Longrightarrow> om_lookup (pf_proposals f0) j = Some b" for j b
    using d unfolding descends_def by blast
  have all: "om_lookup (pf_proposals f0) j = Some b \<Longrightarrow> om_lookup (pf_proposals f) j = Some b \<or> om_lookup (pf_pruned f) j \<noteq> None" for j b
    using d unfolding descends_def om_contains_def by blast
  have prior: "om_lookup (pf_pruned f) j \<noteq> None \<Longrightarrow> om_lookup (pf_proposals f0) j \<noteq> None" for j
    using d unfolding descends_def om_contains_def by blast
  have "om_lookup (pf_proposals f0) j = Some b \<longleftrightarrow>
      om_lookup (pf_proposals f') j = Some b \<or> (om_lookup (pf_proposals f0) j = Some b \<and> om_contains (pf_pruned f') j)" for j b
    using same [of j b] all [of j b] unfolding ps pr om_contains_def by auto
  moreover have "om_contains (pf_pruned f') j \<Longrightarrow> om_contains (pf_proposals f0) j" for j
    using prior [of j] same [OF c] displaced_known [of j f i "wc_proposal c"] same [of j]
    unfolding pr om_contains_def by (auto split: if_splits)
  moreover have "pt_root (tree_at k f') = pt_root (tree_at k f0) \<or>
      (\<exists>j. pt_root (tree_at k f') = Some j \<and> om_lookup (pf_pruned f') j = Some Ratified)" for k
  proof -
    consider "pt_root (tree_at k f') = Some i" | "pt_root (tree_at k f') = pt_root (tree_at k f)" using pf_enact_root [OF e] by blast
    then show ?thesis
    proof cases
      case 2
      moreover have "j \<notin> displaced f i (wc_proposal c)" if "om_lookup (pf_pruned f) j = Some Ratified" for j
        using that ok displaced_known [of j f i "wc_proposal c"] by (cases j) (auto simp: forest_ok_def om_contains_def)
      ultimately show ?thesis using d unfolding descends_def by (metis pr)
    qed (simp add: pr)
  qed
  ultimately show ?thesis using ok' d unfolding descends_def by simp
qed

lemma ratify_loop_ok:
  "descends f0 f \<Longrightarrow> \<exists>ctx' f'. ratify_loop ctx f = Ok (ctx', f') \<and> descends f0 f'"
proof (induction ctx f rule: ratify_loop.induct)
  case (1 ctx f)
  have ok: "forest_ok f" using "1.prems" by (simp add: descends_def)
  obtain found rest where n: "pf_next (rc_protocol_parameters ctx) f = Ok (found, f\<lparr>pf_sequence := rest\<rparr>)"
    "forest_ok (f\<lparr>pf_sequence := rest\<rparr>)"
    "case found of None \<Rightarrow> True
     | Some (i, p) \<Rightarrow> length rest < length (pf_sequence f) \<and> i \<notin> set rest \<and> \<not> pf_is_interrupted f \<and>
         (\<exists>c. om_lookup (pf_proposals f) i = Some c \<and> p = wc_proposal c \<and> pf_step (rc_protocol_parameters ctx) f c)"
    using pf_next_ok [OF ok, of "rc_protocol_parameters ctx"] by blast
  let ?f = "f\<lparr>pf_sequence := rest\<rparr>"
  have d: "descends f0 ?f" using descends_next [OF "1.prems" n(2)] .
  show ?case
  proof (cases found)
    case None
    then show ?thesis using n(1) d by simp
  next
    case (Some ip)
    then obtain i c where ip: "ip = (i, wc_proposal c)" "om_lookup (pf_proposals ?f) i = Some c" "pf_step (rc_protocol_parameters ctx) f c"
      using n(3) by (cases ip) auto
    have root: "matching_root ?f (wc_proposal c)" using ip(3) by (simp add: pf_step_def)
    show ?thesis
    proof (cases "is_accepted_by_everyone ctx i (wc_proposal c)")
      case True
      obtain f2 where f2: "pf_enact i (wc_proposal c) ?f = Ok f2" using pf_enact_ok [OF n(2) ip(2) root] by blast
      obtain ctx' where ctx': "enact_proposal (wc_proposal c) ctx = Some ctx'" using enact_proposal_defined [OF poll_not_accepted [OF True]] by blast
      have "\<exists>ctx'' f'. ratify_loop ctx' f2 = Ok (ctx'', f') \<and> descends f0 f'"
        using "1.IH"(1) [OF n(1) refl _ _ True f2 ctx'] Some ip(1) descends_enact [OF d ip(2) root f2] by simp
      then show ?thesis using n(1) Some ip(1) True f2 ctx' by simp
    next
      case False
      have "\<exists>ctx'' f'. ratify_loop ctx ?f = Ok (ctx'', f') \<and> descends f0 f'"
        using "1.IH"(2) [OF n(1) refl _ _ False] Some ip(1) d by simp
      then show ?thesis using n(1) Some ip(1) False by simp
    qed
  qed
qed

lemma pf_step_sequence [simp]: "pf_step pp (f\<lparr>pf_sequence := rest\<rparr>) c = pf_step pp f c"
  by (cases "wc_proposal c") (auto simp: pf_step_def split: orphan_proposal.splits cc_update.splits)

text \<open>What skipping and enacting proposals keep, the loop keeps.\<close>

lemma ratify_loop_invariant:
  assumes "ratify_loop ctx f = Ok (ctx', f')" and "forest_ok f" and "P ctx f"
    and skip: "\<And>ctx f rest. forest_ok f \<Longrightarrow> P ctx f \<Longrightarrow> P ctx (f\<lparr>pf_sequence := rest\<rparr>)"
    and enact: "\<And>ctx f i c ctx' f'. forest_ok f \<Longrightarrow> P ctx f \<Longrightarrow> \<not> pf_is_interrupted f \<Longrightarrow> om_lookup (pf_proposals f) i = Some c \<Longrightarrow>
      pf_step (rc_protocol_parameters ctx) f c \<Longrightarrow> is_accepted_by_everyone ctx i (wc_proposal c) \<Longrightarrow>
      pf_enact i (wc_proposal c) f = Ok f' \<Longrightarrow> enact_proposal (wc_proposal c) ctx = Some ctx' \<Longrightarrow> P ctx' f'"
  shows "P ctx' f'"
  using assms(1-3)
proof (induction ctx f rule: ratify_loop.induct)
  case (1 ctx f)
  obtain found rest where n: "pf_next (rc_protocol_parameters ctx) f = Ok (found, f\<lparr>pf_sequence := rest\<rparr>)"
    "forest_ok (f\<lparr>pf_sequence := rest\<rparr>)"
    "case found of None \<Rightarrow> True
     | Some (i, p) \<Rightarrow> length rest < length (pf_sequence f) \<and> i \<notin> set rest \<and> \<not> pf_is_interrupted f \<and>
         (\<exists>c. om_lookup (pf_proposals f) i = Some c \<and> p = wc_proposal c \<and> pf_step (rc_protocol_parameters ctx) f c)"
    using pf_next_ok [OF "1.prems"(2), of "rc_protocol_parameters ctx"] by blast
  let ?f = "f\<lparr>pf_sequence := rest\<rparr>"
  have P: "P ctx ?f" using skip "1.prems"(2,3) by blast
  show ?case
  proof (cases found)
    case None
    then show ?thesis using n(1) P "1.prems"(1) by simp
  next
    case (Some ip)
    then obtain i c where ip: "ip = (i, wc_proposal c)" "om_lookup (pf_proposals ?f) i = Some c" "pf_step (rc_protocol_parameters ctx) ?f c"
      and go: "\<not> pf_is_interrupted ?f"
      using n(3) by (cases ip) (simp, blast)
    show ?thesis
    proof (cases "is_accepted_by_everyone ctx i (wc_proposal c)")
      case True
      obtain f2 ctx2 where s: "pf_enact i (wc_proposal c) ?f = Ok f2" "enact_proposal (wc_proposal c) ctx = Some ctx2" "ratify_loop ctx2 f2 = Ok (ctx', f')"
        using "1.prems"(1) n(1) Some ip(1) True by (auto split: sum.splits option.splits)
      have "forest_ok f2" using pf_enact_ok [OF n(2) ip(2)] ip(3) s(1) by (auto simp: pf_step_def)
      then show ?thesis
        using "1.IH"(1) [OF n(1) refl _ _ True s(1,2)] Some ip(1) s(3) enact [OF n(2) P go ip(2,3) True s(1,2)] by simp
    next
      case False
      then have "ratify_loop ctx ?f = Ok (ctx', f')" using "1.prems"(1) n(1) Some ip(1) by simp
      then show ?thesis using "1.IH"(2) [OF n(1) refl _ _ False] Some ip(1) n(2) P by simp
    qed
  qed
qed

section \<open>The treasury pays what it has\<close>

lemma saturated_total: "foldl (\<lambda>total n. min u64_max (total + n)) t ns \<le> b \<Longrightarrow> b < u64_max \<Longrightarrow>
    foldl (\<lambda>total n. min u64_max (total + n)) t ns = t + sum_list ns"
proof (induction ns arbitrary: t)
  case (Cons n ns)
  show ?case
  proof (cases "t + n \<le> u64_max")
    case True
    then have "min u64_max (t + n) = t + n" by simp
    then show ?thesis using Cons.IH [of "t + n"] Cons.prems by (simp add: add.assoc)
  next
    case False
    have "u64_max \<le> foldl (\<lambda>total n. min u64_max (total + n)) u64_max ns" by (induction ns) simp_all
    then show ?thesis using Cons.prems False by simp
  qed
qed simp

lemma om_sum_values: "om_sum f m = sum_list (map f (om_values m))"
  by (simp add: om_sum_def om_values_def case_prod_unfold comp_def)

lemma total_withdrawn_exact: "total_withdrawn w \<le> n \<Longrightarrow> n < u64_max \<Longrightarrow> total_withdrawn w = om_sum (\<lambda>x. x) w"
  using saturated_total [of 0 "om_values w" n] by (simp add: total_withdrawn_def om_sum_values)

lemma treasury_after_withdrawal: "foldl (\<lambda>n (_, amount). n - amount) n (om_entries w) = n - om_sum (\<lambda>x. x) w"
proof -
  have "foldl (\<lambda>n (_, amount). n - amount) n xs = n - sum_list (map snd xs)" for xs :: "('b \<times> nat) list"
    by (induction xs arbitrary: n) auto
  then show ?thesis by (simp add: om_sum_def case_prod_unfold)
qed

lemma om_sum_add_amounts:
  "om_sum (\<lambda>x. x) (foldl (\<lambda>m (credential, amount). add_amount credential amount m) m (om_entries w)) = om_sum (\<lambda>x. x) m + om_sum (\<lambda>x. x) w"
proof -
  have "om_sum (\<lambda>x. x) (foldl (\<lambda>m (credential, amount). add_amount credential amount m) m xs) = om_sum (\<lambda>x. x) m + sum_list (map snd xs)"
    for xs :: "('a \<times> nat) list"
    by (induction xs arbitrary: m) (auto simp: om_sum_add_amount [unfolded id_def])
  then show ?thesis by (simp add: om_sum_def [of _ w] case_prod_unfold)
qed

lemma ratify_loop_treasury:
  assumes "ratify_loop ctx f = Ok (ctx', f')" and "forest_ok f" and "pf_treasury f < u64_max"
  shows "om_sum (\<lambda>x. x) (rc_withdrawals ctx') + pf_treasury f' = om_sum (\<lambda>x. x) (rc_withdrawals ctx) + pf_treasury f \<and>
    pf_treasury f' < u64_max"
proof (rule ratify_loop_invariant [OF assms(1,2), where P = "\<lambda>ctx' f'.
    om_sum (\<lambda>x. x) (rc_withdrawals ctx') + pf_treasury f' = om_sum (\<lambda>x. x) (rc_withdrawals ctx) + pf_treasury f \<and> pf_treasury f' < u64_max"])
  fix ctx1 f1 i c ctx2 f2
  assume ok: "forest_ok f1" and inv: "om_sum (\<lambda>x. x) (rc_withdrawals ctx1) + pf_treasury f1 = om_sum (\<lambda>x. x) (rc_withdrawals ctx) + pf_treasury f \<and>
      pf_treasury f1 < u64_max"
    and c: "om_lookup (pf_proposals f1) i = Some c" and step: "pf_step (rc_protocol_parameters ctx1) f1 c"
    and e: "pf_enact i (wc_proposal c) f1 = Ok f2" and ctx2: "enact_proposal (wc_proposal c) ctx1 = Some ctx2"
  have t: "pf_treasury f2 = treasury_after (wc_proposal c) (pf_treasury f1)"
    using pf_enact_ok [OF ok c] e step by (auto simp: pf_step_def)
  show "om_sum (\<lambda>x. x) (rc_withdrawals ctx2) + pf_treasury f2 = om_sum (\<lambda>x. x) (rc_withdrawals ctx) + pf_treasury f \<and>
      pf_treasury f2 < u64_max"
  proof (cases "\<exists>w. wc_proposal c = POrphan (TreasuryWithdrawal w)")
    case True
    then obtain w where w: "wc_proposal c = POrphan (TreasuryWithdrawal w)" by blast
    then have "om_sum (\<lambda>x. x) w \<le> pf_treasury f1"
      using step inv total_withdrawn_exact [of w "pf_treasury f1"] by (simp add: pf_step_def not_less)
    moreover have "om_sum (\<lambda>x. x) (rc_withdrawals ctx2) = om_sum (\<lambda>x. x) (rc_withdrawals ctx1) + om_sum (\<lambda>x. x) w"
      using ctx2 w by (auto simp: om_sum_add_amounts)
    ultimately show ?thesis using inv t w by (simp add: treasury_after_withdrawal less_imp_diff_less)
  next
    case False
    then have "treasury_after (wc_proposal c) (pf_treasury f1) = pf_treasury f1" "rc_withdrawals ctx2 = rc_withdrawals ctx1"
      using ctx2 by (cases "(wc_proposal c, ctx1)" rule: enact_proposal.cases; auto simp: Let_def)+
    then show ?thesis using inv t by simp
  qed
qed (use assms(3) in simp_all)

end
