(* ===== verification/Ratification_Laws.thy ===== *)
theory Ratification_Laws
  imports Ratification "HOL-Library.Code_Target_Nat"
begin

text \<open>
  What ratification guarantees: when it succeeds, what it can withdraw, that the
  proposals it leaves can be ratified at the next boundary, and the bounds of the
  tallies; with the cases in which the code falls short of that.
\<close>

section \<open>From the loop to ratification\<close>

lemma ratify_proposals_run:
  assumes "distinct (map fst ps)" and "ratify_proposals h ps roots ctx = Ok ((roots', pruned), ctx')"
  obtains f0 f where "pf_drain h ps (pf_new (rc_epoch ctx) roots (rc_treasury ctx)) = Ok f0"
    and "ratify_loop ctx f0 = Ok (ctx', f)" and "descends f0 f" and "forest_ok f0" and "draining f0"
    and "pf_treasury f0 = rc_treasury ctx" and "pf_roots f0 = roots" and "roots' = pf_roots f" and "pruned = pf_end f"
proof -
  obtain f0 f where f: "pf_drain h ps (pf_new (rc_epoch ctx) roots (rc_treasury ctx)) = Ok f0"
      "ratify_loop ctx f0 = Ok (ctx', f)" "roots' = pf_roots f" "pruned = pf_end f"
    using assms(2) by (auto simp: ratify_proposals_def split: sum.splits)
  note d = pf_drain_new(2) [OF assms(1) f(1)]
  have r: "pt_root (tree_at k f0) = pt_root (tree_at k (pf_new (rc_epoch ctx) roots (rc_treasury ctx)))" for k using d by blast
  have "pf_roots f0 = roots"
    using r [of KParams] r [of KHardFork] r [of KCommittee] r [of KConstitution]
    by (simp add: pf_roots_def pf_new_def pt_new_ok)
  then show ?thesis using that [OF f(1,2)] f d ratify_loop_ok [OF descends_refl, of f0 ctx] by (auto simp: draining_def)
qed

lemma is_ok_ratify:
  assumes "distinct (map fst ps)"
  shows "is_ok (ratify_proposals h ps roots ctx) \<longleftrightarrow> is_ok (pf_drain h ps (pf_new (rc_epoch ctx) roots (rc_treasury ctx)))"
proof (cases "pf_drain h ps (pf_new (rc_epoch ctx) roots (rc_treasury ctx))")
  case (Inr f0)
  then show ?thesis
    using pf_drain_new(2) [OF assms Inr] ratify_loop_ok [OF descends_refl, of f0 ctx]
    by (auto simp: ratify_proposals_def)
qed (simp add: ratify_proposals_def)

definition root_at :: "proposals_roots \<Rightarrow> tree_kind \<Rightarrow> proposal_id option" where
  "root_at roots k =
    (case k of KParams \<Rightarrow> root_protocol_parameters roots | KHardFork \<Rightarrow> root_hard_fork roots
     | KCommittee \<Rightarrow> root_constitutional_committee roots | KConstitution \<Rightarrow> root_constitution roots)"

lemma pf_new_root_at: "(\<lambda>k. pt_root (tree_at k (pf_new e roots n))) = root_at roots"
proof
  show "pt_root (tree_at k (pf_new e roots n)) = root_at roots k" for k
    by (cases k) (simp_all add: root_at_def pf_new_def pt_new_ok)
qed

text \<open>Every parent belongs to an earlier epoch than its children.\<close>

definition parents_in_earlier_epochs :: "era_history \<Rightarrow> (proposal_id \<times> candidate_proposal) list \<Rightarrow> bool" where
  "parents_in_earlier_epochs h ps =
    (\<forall>(i, row) \<in> set ps. \<forall>(j, parent) \<in> set ps.
      pe_parent (proposal_enum_of (cp_governance_action row)) = Some j \<longrightarrow>
      (case (slot_to_epoch h (fst (fst (cp_proposed_in parent))) (fst (fst (cp_proposed_in parent))),
             slot_to_epoch h (fst (fst (cp_proposed_in row))) (fst (fst (cp_proposed_in row)))) of
         (Inr e, Inr e') \<Rightarrow> e < e' | _ \<Rightarrow> False))"

lemma sorted_parents_first:
  assumes "sorted (map (\<lambda>(_, c). wc_proposed_in c) xs)"
    and "\<And>i c j d. (i, c) \<in> set xs \<Longrightarrow> (j, d) \<in> set xs \<Longrightarrow> pe_parent (wc_proposal c) = Some j \<Longrightarrow> wc_proposed_in d < wc_proposed_in c"
  shows "parents_first xs"
  using assms
proof (induction xs rule: parents_first.induct)
  case (2 i c xs)
  have "p \<noteq> i \<and> p \<notin> fst ` set xs" if p: "pe_parent (wc_proposal c) = Some p" for p
  proof -
    have "wc_proposed_in d < wc_proposed_in c" if "(p, d) \<in> set ((i, c) # xs)" for d
      using "2.prems"(2) [of i c p d] that p by simp
    moreover have "wc_proposed_in c \<le> wc_proposed_in d" if "(p, d) \<in> set xs" for d using "2.prems"(1) that by auto
    ultimately show ?thesis by fastforce
  qed
  moreover have "parents_first xs"
  proof (rule "2.IH")
    show "wc_proposed_in d < wc_proposed_in c'" if "(i', c') \<in> set xs" "(j, d) \<in> set xs" "pe_parent (wc_proposal c') = Some j" for i' c' j d
      using "2.prems"(2) [of i' c' j d] that by simp
  qed (use "2.prems"(1) in simp)
  ultimately show ?case by (auto split: option.splits)
qed simp

lemma descends_lookup: "descends f0 f \<Longrightarrow> om_lookup (pf_proposals f) i = Some c \<Longrightarrow> om_lookup (pf_proposals f0) i = Some c"
  unfolding descends_def by blast

lemma descends_parents_first:
  assumes "parents_in_earlier_epochs h ps" and "holds_candidates h f0 ps" and "descends f0 f"
  shows "parents_first (sort_key (\<lambda>(_, c). wc_proposed_in c) (om_entries (pf_proposals f)))"
proof (rule sorted_parents_first)
  fix i c j d
  assume "(i, c) \<in> set (sort_key (\<lambda>(_, c). wc_proposed_in c) (om_entries (pf_proposals f)))"
    and "(j, d) \<in> set (sort_key (\<lambda>(_, c). wc_proposed_in c) (om_entries (pf_proposals f)))"
    and p: "pe_parent (wc_proposal c) = Some j"
  then have "om_lookup (pf_proposals f0) i = Some c" "om_lookup (pf_proposals f0) j = Some d"
    using descends_lookup [OF assms(3)] by (simp_all add: om_entries_iff)
  then obtain row parent where "(i, row) \<in> set ps" "wc_proposal c = proposal_enum_of (cp_governance_action row)"
      "slot_to_epoch h (fst (fst (cp_proposed_in row))) (fst (fst (cp_proposed_in row))) = Ok (wc_proposed_in c)"
      "(j, parent) \<in> set ps" "slot_to_epoch h (fst (fst (cp_proposed_in parent))) (fst (fst (cp_proposed_in parent))) = Ok (wc_proposed_in d)"
    using assms(2) unfolding holds_candidates_def by blast
  then show "wc_proposed_in d < wc_proposed_in c" using assms(1) p unfolding parents_in_earlier_epochs_def by fastforce
qed (simp add: case_prod_unfold)

text \<open>
  When every proposal comes in a later epoch than its parent, what is pruned does not
  depend on the order in which the proposals of an epoch are visited.
\<close>

lemma pf_end_in_any_order:
  assumes ok: "forest_ok f" and order: "visit_order f order" "visit_order f order'"
    and earlier: "\<forall>i c p d. om_lookup (pf_proposals f) i = Some c \<and> pe_parent (wc_proposal c) = Some p \<and>
      om_lookup (pf_proposals f) p = Some d \<longrightarrow> wc_proposed_in d < wc_proposed_in c"
  shows "pf_end_in order f = pf_end_in order' f"
proof (rule om_eqI)
  have pruned: "om_lookup (pf_end_in ord f) i =
      (if wc_valid_until c = pf_current_epoch f \<or>
          (\<exists>p. pe_parent (wc_proposal c) = Some p \<and> om_lookup (pf_end_in ord f) p = Some NotRatified)
       then Some NotRatified else None)"
    if ord: "visit_order f ord" and i: "om_lookup (pf_proposals f) i = Some c" for ord i c
  proof -
    have "parents_first ord"
      using visit_orderD(2) [OF ord] ord earlier by (intro sorted_parents_first) (auto simp: visit_order_def)
    moreover have "om_lookup (pf_pruned f) i = None" using ok i by (cases i) (auto simp: forest_ok_def om_contains_def)
    ultimately show ?thesis
      unfolding pf_end_in_def using expire_fold [OF visit_orderD(1) [OF ord]] visit_orderD(2) [OF ord] i by blast
  qed
  have other: "om_lookup (pf_end_in ord f) j = om_lookup (pf_pruned f) j"
    if "visit_order f ord" "om_lookup (pf_proposals f) j = None" for ord j
    unfolding pf_end_in_def using visit_orderD(2) [OF that(1), of j] that(2) by (intro expire_fold_other) auto
  have same: "om_lookup (pf_end_in order f) j = om_lookup (pf_end_in order' f) j"
    if "om_lookup (pf_proposals f) j = Some c" "wc_proposed_in c = e" for j c e
    using that
  proof (induction e arbitrary: j c rule: less_induct)
    case (less e)
    have "om_lookup (pf_end_in order f) p = om_lookup (pf_end_in order' f) p" if p: "pe_parent (wc_proposal c) = Some p" for p
    proof (cases "om_lookup (pf_proposals f) p")
      case (Some d)
      then have "wc_proposed_in d < e" using earlier less.prems p by blast
      then show ?thesis using less.IH Some by blast
    qed (use other [OF order(1), of p] other [OF order(2), of p] in simp)
    then show ?case using pruned [OF order(1) less.prems(1)] pruned [OF order(2) less.prems(1)] by auto
  qed
  show "om_lookup (pf_end_in order f) j = om_lookup (pf_end_in order' f) j" for j
    using same other [OF order(1), of j] other [OF order(2), of j] by (cases "om_lookup (pf_proposals f) j") auto
qed

section \<open>A state of no confidence\<close>

lemma no_committee_accepts_nothing: "rc_constitutional_committee ctx = None \<Longrightarrow> \<not> is_accepted_by_everyone ctx i p"
  by (simp add: is_accepted_by_everyone_def is_accepted_by_constitutional_committee_def split: prod.splits)

lemma expire_ratifies_nothing: "om_lookup (foldl (expire e) m xs) i = Some Ratified \<Longrightarrow> om_lookup m i = Some Ratified"
proof (induction xs arbitrary: m)
  case (Cons x xs)
  obtain j d where x: "x = (j, d)" by (cases x)
  have "om_lookup (expire e m x) i = Some Ratified" using Cons.IH Cons.prems by simp
  then show ?case by (auto simp: x expire_def split: if_splits option.splits)
qed simp

lemma pf_roots_sequence [simp]: "pf_roots (f\<lparr>pf_sequence := rest\<rparr>) = pf_roots f"
  by (simp add: pf_roots_def)

lemma ratify_loop_no_confidence:
  assumes "ratify_loop ctx f = Ok (ctx', f')" and "forest_ok f" and "rc_constitutional_committee ctx = None"
  shows "ctx' = ctx \<and> pf_roots f' = pf_roots f \<and> pf_pruned f' = pf_pruned f"
  by (rule ratify_loop_invariant [OF assms(1,2)]) (use no_committee_accepts_nothing [OF assms(3)] in auto)

section \<open>Tallies\<close>

lemma count_pool_vote_bound:
  "fst (count_pool_vote p votes (yes, abstain) (k, pool)) + snd (count_pool_vote p votes (yes, abstain) (k, pool))
    \<le> yes + abstain + pst_voting_stake pool"
  by (simp add: count_pool_vote_def Let_def split: option.splits vote.splits drep.splits)

lemma pool_counts_bound: "fst (pool_counts p votes sd) + snd (pool_counts p votes sd) \<le> om_sum pst_voting_stake (sd_pools sd)"
proof -
  have "fst (foldl (count_pool_vote p votes) ya xs) + snd (foldl (count_pool_vote p votes) ya xs)
      \<le> fst ya + snd ya + sum_list (map (\<lambda>(_, pool). pst_voting_stake pool) xs)" for ya xs
  proof (induction xs arbitrary: ya)
    case (Cons x xs)
    show ?case using Cons.IH [of "count_pool_vote p votes ya x"] count_pool_vote_bound [of p votes "fst ya" "snd ya" "fst x" "snd x"]
      by (simp add: case_prod_unfold)
  qed simp
  from this [of "(0, 0)" "om_entries (sd_pools sd)"] show ?thesis by (simp add: pool_counts_def om_sum_def case_prod_unfold)
qed

lemma drep_counts_bound: "fst (drep_counts e p votes sd) \<le> snd (drep_counts e p votes sd)"
proof -
  have step: "fst (count_drep_vote e p votes yd x) \<le> snd (count_drep_vote e p votes yd x)" if "fst yd \<le> snd yd" for yd x
    using that by (cases yd; cases x) (auto simp: count_drep_vote_def Let_def split: drep.splits option.splits vote.splits)
  have "fst yd \<le> snd yd \<Longrightarrow> fst (foldl (count_drep_vote e p votes) yd xs) \<le> snd (foldl (count_drep_vote e p votes) yd xs)" for yd xs
    by (induction xs arbitrary: yd) (simp_all add: step)
  then show ?thesis by (simp add: drep_counts_def)
qed

lemma ratio_in_unit: "y \<le> d \<Longrightarrow> 0 \<le> (of_nat y / of_nat d :: rat) \<and> (of_nat y / of_nat d :: rat) \<le> 1"
  by (cases "d = 0") (simp_all add: divide_le_eq_1)

lemma count_vote_total: "fst (count_vote c v) + snd (snd (count_vote c v)) \<le> fst c + snd (snd c) + 1"
  by (cases "(c, v)" rule: count_vote.cases) auto

lemma com_counts_bound:
  assumes "distinct (map fst xs)" and "finite H"
  shows "fst (foldl (\<lambda>counts (hot, vote). if hot \<in> H then count_vote counts vote else counts) c xs) +
      snd (snd (foldl (\<lambda>counts (hot, vote). if hot \<in> H then count_vote counts vote else counts) c xs))
    \<le> fst c + snd (snd c) + card (fst ` set xs \<inter> H)"
  using assms(1)
proof (induction xs arbitrary: c)
  case (Cons x xs)
  obtain hot v where x: "x = (hot, v)" by (cases x)
  show ?case
  proof (cases "hot \<in> H")
    case True
    have "card (fst ` set (x # xs) \<inter> H) = Suc (card (fst ` set xs \<inter> H))"
      using True Cons.prems x by (simp add: Int_insert_left)
    then show ?thesis using True Cons.IH [of "count_vote c v"] Cons.prems count_vote_total [of c v] by (simp add: x)
  next
    case False
    then show ?thesis using Cons.IH [of c] Cons.prems by (simp add: x)
  qed
qed simp

lemma com_tally_in_unit: "0 \<le> com_tally com e votes \<and> com_tally com e votes \<le> 1"
proof -
  define active where "active = active_members com e"
  define H where "H = set (om_values active)"
  define counts where "counts = foldl (\<lambda>counts (hot, vote). if hot \<in> H then count_vote counts vote else counts) (0, 0, 0) (om_entries votes)"
  have H: "om_contains (os_extend om_empty (om_values active)) = (\<lambda>hot. hot \<in> H)"
    by (rule ext) (simp add: H_def om_contains_os_set)
  have tally: "com_tally com e votes = (if om_len active \<le> snd (snd counts) then 0 else of_nat (fst counts) / of_nat (om_len active - snd (snd counts)))"
    unfolding com_tally_def Let_def active_def [symmetric] H counts_def [symmetric] by (simp add: case_prod_unfold)
  have "fst counts + snd (snd counts) \<le> card (fst ` set (om_entries votes) \<inter> H)"
    using com_counts_bound [of "om_entries votes" H "(0, 0, 0)"] by (simp add: counts_def H_def)
  also have "\<dots> \<le> card H" by (rule card_mono) (simp_all add: H_def)
  also have "\<dots> \<le> om_len active" using card_length [of "om_values active"] by (simp add: H_def om_len_def om_values_def)
  finally have "fst counts \<le> om_len active - snd (snd counts)" by simp
  from ratio_in_unit [OF this] show ?thesis by (simp add: tally del: of_nat_diff)
qed

section \<open>Properties\<close>

text \<open>
  A chain with epochs of ten slots, and candidates on it: a motion of no confidence of
  epoch 0, a child of it of epoch 3, and a child of the child of the same epoch that
  has a smaller identifier than its parent.
\<close>

definition short_epochs :: era_history where
  "short_epochs = \<lparr>eh_stability_window = 5, eh_eras =
    [\<lparr>es_start = \<lparr>eb_time = 0, eb_slot = 0, eb_epoch = 0\<rparr>, es_end = None,
      es_params = \<lparr>epoch_size_slots = 10, slot_length = 1, era_name = Conway\<rparr>\<rparr>]\<rparr>"

definition motion_of :: "slot \<Rightarrow> epoch \<Rightarrow> proposal_id option \<Rightarrow> candidate_proposal" where
  "motion_of s e parent = \<lparr>cp_valid_until = e, cp_proposed_in = ((s, 0), 0), cp_governance_action = NoConfidence parent\<rparr>"

definition motions :: "slot \<Rightarrow> (proposal_id \<times> candidate_proposal) list" where
  "motions s = [((1, 0), motion_of 1 5 None), ((9, 0), motion_of 30 8 (Some (1, 0))), ((2, 0), motion_of s 8 (Some (9, 0)))]"

definition no_roots :: proposals_roots where
  "no_roots = \<lparr>root_protocol_parameters = None, root_hard_fork = None, root_constitutional_committee = None, root_constitution = None\<rparr>"

definition ratify_at :: "epoch \<Rightarrow> constitutional_committee option \<Rightarrow> ratification_context" where
  "ratify_at e com =
    \<lparr>rc_epoch = e, rc_treasury = 100,
     rc_stake_distribution = ss_stake_distribution (stake_summary_new example_snapshot example_governance),
     rc_protocol_parameters = example_parameters\<lparr>min_committee_size := 0\<rparr>, rc_withdrawals = om_empty,
     rc_constitutional_committee = com, rc_committee_change = None, rc_new_constitution = None, rc_votes = om_empty\<rparr>"

lemma motions_checks:
  "distinct (map fst (motions s))"
  "is_ok (ratify_proposals short_epochs (motions 31) no_roots (ratify_at 5 None))"
  "is_ok (ratify_proposals short_epochs (motions 41) no_roots (ratify_at 5 None))"
  "parents_in_earlier_epochs short_epochs (motions 41)"
proof -
  show "distinct (map fst (motions s))" by (simp add: motions_def)
  show "is_ok (ratify_proposals short_epochs (motions 31) no_roots (ratify_at 5 None))" by code_simp
  show "is_ok (ratify_proposals short_epochs (motions 41) no_roots (ratify_at 5 None))" by code_simp
  show "parents_in_earlier_epochs short_epochs (motions 41)" by code_simp
qed

text \<open>
  C15. Ratification succeeds exactly when the candidates, in order of submission, have
  valid parents and none is expired or beyond the era history: none of the errors and
  panics of the loop that enacts proposals is reachable.
\<close>

theorem ratification_fails_only_on_bad_candidates:
  assumes "distinct (map fst ps)"
  shows "is_ok (ratify_proposals h ps roots ctx) \<longleftrightarrow>
    acceptable (root_at roots) (\<lambda>_. {}) (sort_key (\<lambda>(_, row). cp_proposed_in row) ps) \<and>
    (\<forall>(i, row) \<in> set ps. candidate_ok h (rc_epoch ctx) row)"
  unfolding is_ok_ratify [OF assms] pf_drain_new(1) [OF assms] pf_new_root_at by (rule refl)

theorem ratification_fails_only_on_bad_candidates_witness:
  "acceptable (root_at no_roots) (\<lambda>_. {}) (sort_key (\<lambda>(_, row). cp_proposed_in row) (motions 31))"
  using ratification_fails_only_on_bad_candidates [OF motions_checks(1), of short_epochs 31 no_roots "ratify_at 5 None"]
    motions_checks(2) by simp

text \<open>
  C28. The withdrawals of all proposals that are enacted at one boundary are covered by
  the treasury together, not only each by itself.
\<close>

theorem withdrawals_within_treasury:
  assumes "distinct (map fst ps)" and "rc_withdrawals ctx = om_empty" and "rc_treasury ctx < u64_max"
    and "ratify_proposals h ps roots ctx = Ok ((roots', pruned), ctx')"
  shows "om_sum (\<lambda>x. x) (rc_withdrawals ctx') \<le> rc_treasury ctx"
proof -
  obtain f0 f where "ratify_loop ctx f0 = Ok (ctx', f)" "forest_ok f0" "pf_treasury f0 = rc_treasury ctx"
    using ratify_proposals_run [OF assms(1,4)] by metis
  then show ?thesis using ratify_loop_treasury [of ctx f0 ctx' f] assms(2,3) by simp
qed

text \<open>Two withdrawals of 60 from a treasury of 100, both with all votes in favour.\<close>

definition withdrawal_of :: "slot \<Rightarrow> credential \<Rightarrow> candidate_proposal" where
  "withdrawal_of s account = \<lparr>cp_valid_until = 8, cp_proposed_in = ((s, 0), 0),
    cp_governance_action = TreasuryWithdrawals (om_of_list [((True, account), 60)]) None\<rparr>"

definition two_withdrawals :: "(proposal_id \<times> candidate_proposal) list" where
  "two_withdrawals = [((1, 0), withdrawal_of 31 (KeyHash 4)), ((2, 0), withdrawal_of 32 (KeyHash 5))]"

definition in_favour :: ratification_context where
  "in_favour = (ratify_at 5 (Some \<lparr>com_threshold = 0, com_members = om_empty\<rparr>))
    \<lparr>rc_votes := om_of_list [((1, 0), [(VoterDRepKey 9, (VoteYes, None))]), ((2, 0), [(VoterDRepKey 9, (VoteYes, None))])]\<rparr>"

lemma one_withdrawal_enacted:
  "map_sum (\<lambda>_. ()) (\<lambda>((_, pruned), ctx). (om_entries pruned, om_entries (rc_withdrawals ctx)))
    (ratify_proposals short_epochs two_withdrawals no_roots in_favour) = Inr ([((1, 0), Ratified)], [(KeyHash 4, 60)])"
  by code_simp

theorem withdrawals_within_treasury_witness:
  "\<exists>roots' pruned ctx'. ratify_proposals short_epochs two_withdrawals no_roots in_favour = Ok ((roots', pruned), ctx') \<and>
    om_entries (rc_withdrawals ctx') = [(KeyHash 4, 60)] \<and> om_sum (\<lambda>x. x) (rc_withdrawals ctx') \<le> 100"
proof -
  obtain roots' pruned ctx' where r: "ratify_proposals short_epochs two_withdrawals no_roots in_favour = Ok ((roots', pruned), ctx')"
      "om_entries (rc_withdrawals ctx') = [(KeyHash 4, 60)]"
    using one_withdrawal_enacted by (cases "ratify_proposals short_epochs two_withdrawals no_roots in_favour") auto
  moreover have "distinct (map fst two_withdrawals)" "rc_withdrawals in_favour = om_empty" "rc_treasury in_favour = 100" "rc_treasury in_favour < u64_max"
    by (simp_all add: two_withdrawals_def in_favour_def ratify_at_def u64_max_def)
  ultimately show ?thesis using withdrawals_within_treasury [of two_withdrawals in_favour short_epochs no_roots roots' pruned ctx'] by simp
qed

text \<open>
  C29. When every proposal was submitted in a later epoch than its parent, the proposals
  that remain after ratification can be ratified at the next boundary.
\<close>

theorem survivors_can_be_ratified_again:
  assumes "distinct (map fst ps)" and "parents_in_earlier_epochs h ps"
    and "ratify_proposals h ps roots ctx = Ok ((roots', pruned), ctx')" and "rc_epoch ctx2 = rc_epoch ctx + 1"
  shows "is_ok (ratify_proposals h (filter (\<lambda>(i, _). om_lookup pruned i = None) ps) roots' ctx2)"
proof -
  obtain f0 f where f: "pf_drain h ps (pf_new (rc_epoch ctx) roots (rc_treasury ctx)) = Ok f0" "descends f0 f"
      "roots' = pf_roots f" "pruned = pf_end f"
    using ratify_proposals_run [OF assms(1,3)] by metis
  have "parents_first (sort_key (\<lambda>(_, c). wc_proposed_in c) (om_entries (pf_proposals f)))"
    using descends_parents_first [OF assms(2) _ f(2)] pf_drain_new(2) [OF assms(1) f(1)] by blast
  from survivors_drain [OF assms(1) f(1,2) this, of "rc_treasury ctx2"]
  show ?thesis using assms(1,4) by (simp add: f(3,4) is_ok_ratify distinct_map_filter)
qed

theorem survivors_can_be_ratified_again_witness:
  "\<exists>roots' pruned ctx'. ratify_proposals short_epochs (motions 41) no_roots (ratify_at 5 None) = Ok ((roots', pruned), ctx') \<and>
    is_ok (ratify_proposals short_epochs (filter (\<lambda>(i, _). om_lookup pruned i = None) (motions 41)) roots' (ratify_at 6 None))"
proof -
  obtain roots' pruned ctx' where r: "ratify_proposals short_epochs (motions 41) no_roots (ratify_at 5 None) = Ok ((roots', pruned), ctx')"
    using motions_checks(3) by (cases "ratify_proposals short_epochs (motions 41) no_roots (ratify_at 5 None)") auto
  from survivors_can_be_ratified_again [OF motions_checks(1,4) r, of "ratify_at 6 None"] r
  show ?thesis by (auto simp: ratify_at_def)
qed

text \<open>
  C30. The final pass over the forest, for every order in which the unstable sort may
  visit it.  A proposal whose parent is still in the forest is pruned exactly when it
  expires, or when its parent is pruned and was visited first.  A parent of an earlier
  epoch is always visited first; with a parent of the same epoch both orders are
  possible, and the child that is visited first outlives its pruned parent.
\<close>

theorem pruned_with_parents_visited_first:
  assumes "forest_ok f" and "visit_order f order"
    and "om_lookup (pf_proposals f) i = Some c" and "pe_parent (wc_proposal c) = Some p" and "om_lookup (pf_proposals f) p = Some d"
  shows "om_lookup (pf_end_in order f) i =
      (if wc_valid_until c = pf_current_epoch f \<or>
          (visited_before p i order \<and> om_lookup (pf_end_in order f) p = Some NotRatified)
       then Some NotRatified else None) \<and>
    (wc_proposed_in d < wc_proposed_in c \<longrightarrow> visited_before p i order) \<and>
    (wc_proposed_in d = wc_proposed_in c \<longrightarrow>
      (\<exists>o1. visit_order f o1 \<and> visited_before p i o1) \<and> (\<exists>o2. visit_order f o2 \<and> visited_before i p o2))"
proof (intro conjI impI)
  have "p \<noteq> i" by (rule forest_parent_neq [OF assms(1,3,4)])
  then show "\<exists>o1. visit_order f o1 \<and> visited_before p i o1" "\<exists>o2. visit_order f o2 \<and> visited_before i p o2"
    if "wc_proposed_in d = wc_proposed_in c"
    using visit_order_either [OF assms(3,5)] visit_order_either [OF assms(5,3)] that by auto
  show "visited_before p i order" if "wc_proposed_in d < wc_proposed_in c"
    using sorted_visits [of order i c p d] visit_orderD [OF assms(2)] assms that by (simp add: visit_order_def)
qed (rule pf_end_in_visits [OF assms])

text \<open>
  The chain of three motions: the first expires and takes its child of epoch 3 with it,
  which the grandchild of epoch 3 outlives when it is visited before its parent.
\<close>

definition forest_of :: "(proposal_id \<times> candidate_proposal) list \<Rightarrow> proposals_forest option" where
  "forest_of ps = (case pf_drain short_epochs ps (pf_new 5 no_roots 100) of Inl _ \<Rightarrow> None | Inr f \<Rightarrow> Some f)"

lemma motions_visited:
  "case forest_of (motions 31) of None \<Rightarrow> False
   | Some f \<Rightarrow> pf_current_epoch f = 5 \<and>
       (case (om_lookup (pf_proposals f) (2, 0), om_lookup (pf_proposals f) (9, 0)) of
          (Some c, Some d) \<Rightarrow> pe_parent (wc_proposal c) = Some (9, 0) \<and> wc_valid_until c = 8 | _ \<Rightarrow> False) \<and>
       (let order = sort_key (\<lambda>(_, c). wc_proposed_in c) (om_entries (pf_proposals f)) in
          \<not> visited_before (9, 0) (2, 0) order \<and> om_lookup (pf_end_in order f) (9, 0) = Some NotRatified)"
  by code_simp

theorem pruned_with_parents_visited_first_witness:
  "\<exists>f order. forest_of (motions 31) = Some f \<and> visit_order f order \<and>
    om_lookup (pf_end_in order f) (9, 0) = Some NotRatified \<and> om_lookup (pf_end_in order f) (2, 0) = None"
proof -
  obtain f c d where f: "forest_of (motions 31) = Some f" "pf_current_epoch f = 5"
      "om_lookup (pf_proposals f) (2, 0) = Some c" "pe_parent (wc_proposal c) = Some (9, 0)" "om_lookup (pf_proposals f) (9, 0) = Some d"
      "wc_valid_until c = 8"
    and order: "\<not> visited_before (9, 0) (2, 0) (sort_key (\<lambda>(_, c). wc_proposed_in c) (om_entries (pf_proposals f)))"
      "om_lookup (pf_end_in (sort_key (\<lambda>(_, c). wc_proposed_in c) (om_entries (pf_proposals f))) f) (9, 0) = Some NotRatified"
    using motions_visited by (auto simp: Let_def split: option.splits)
  have "forest_ok f"
    using f(1) pf_drain_new(2) [OF motions_checks(1), of short_epochs 31 5 no_roots 100 f]
    by (auto simp: forest_of_def draining_def split: sum.splits)
  from pruned_with_parents_visited_first [OF this visit_order_sort f(3-5)] f(1,2,6) order visit_order_sort show ?thesis by auto
qed

text \<open>The ratification of the next boundary then fails on the proposal that is left without its parent.\<close>

lemma child_outlives_parent_of_same_epoch:
  "case ratify_proposals short_epochs (motions 31) no_roots (ratify_at 5 None) of
     Inl _ \<Rightarrow> False
   | Inr ((roots', pruned), ctx') \<Rightarrow>
       om_lookup pruned (9, 0) = Some NotRatified \<and> om_lookup pruned (2, 0) = None \<and>
       ratify_proposals short_epochs (filter (\<lambda>(i, _). om_lookup pruned i = None) (motions 31)) roots' (ratify_at 6 None) =
         Err (ForestError (TreeError (UnknownParent (2, 0) (Some (9, 0)))))"
  by code_simp

text \<open>
  C31. Without a constitutional committee nothing is ever enacted, and so no committee can
  be elected either: ratification leaves the context and the roots as they are.
\<close>

theorem no_confidence_is_permanent:
  assumes "distinct (map fst ps)" and "rc_constitutional_committee ctx = None"
    and "ratify_proposals h ps roots ctx = Ok ((roots', pruned), ctx')"
  shows "ctx' = ctx \<and> roots' = roots \<and> (\<forall>i. om_lookup pruned i \<noteq> Some Ratified)"
proof -
  obtain f0 f where f: "ratify_loop ctx f0 = Ok (ctx', f)" "forest_ok f0" "draining f0" "pf_roots f0 = roots"
      "roots' = pf_roots f" "pruned = pf_end f"
    using ratify_proposals_run [OF assms(1,3)] by metis
  have "ctx' = ctx \<and> pf_roots f = pf_roots f0 \<and> pf_pruned f = pf_pruned f0" using ratify_loop_no_confidence [OF f(1,2) assms(2)] .
  moreover have "pf_pruned f0 = om_empty" using f(3) by (simp add: draining_def)
  ultimately show ?thesis using f(4-6) expire_ratifies_nothing [of _ om_empty] by (auto simp: pf_end_def pf_end_in_def)
qed

theorem no_confidence_is_permanent_witness:
  "\<exists>pruned. ratify_proposals short_epochs (motions 31) no_roots (ratify_at 5 None) = Ok ((no_roots, pruned), ratify_at 5 None)"
proof -
  obtain roots' pruned ctx' where r: "ratify_proposals short_epochs (motions 31) no_roots (ratify_at 5 None) = Ok ((roots', pruned), ctx')"
    using motions_checks(2) by (cases "ratify_proposals short_epochs (motions 31) no_roots (ratify_at 5 None)") auto
  from no_confidence_is_permanent [OF motions_checks(1) _ r] r show ?thesis by (auto simp: ratify_at_def)
qed

text \<open>
  C32. The tallies of the three voting bodies are ratios between zero and one, whatever the
  votes, and so comparable with thresholds: abstentions never exceed what they are
  subtracted from.
\<close>

theorem tallies_are_ratios:
  assumes "governance_summary_new db h = Ok gs" and "sd = ss_stake_distribution (stake_summary_new db gs)"
  shows "pool_tally p pool_votes sd \<in> {0..1} \<and> drep_tally e p drep_votes sd \<in> {0..1} \<and> com_tally com e cc_votes \<in> {0..1}"
proof -
  obtain yes abstain where c: "pool_counts p pool_votes sd = (yes, abstain)" by fastforce
  have "yes + abstain \<le> sd_pools_voting_stake sd"
    using pool_counts_bound [of p pool_votes sd] c voting_stake_adds_up [OF assms(1)] assms(2) by simp
  then have "pool_tally p pool_votes sd \<in> {0..1}"
    using c ratio_in_unit [of yes "sd_pools_voting_stake sd - abstain"] by (simp add: pool_tally_def)
  moreover have "drep_tally e p drep_votes sd \<in> {0..1}"
    using drep_counts_bound [of e p drep_votes sd] ratio_in_unit by (simp add: drep_tally_def case_prod_unfold Let_def)
  ultimately show ?thesis using com_tally_in_unit [of com e cc_votes] by simp
qed

theorem tallies_are_ratios_witness:
  "drep_tally 5 (POrphan NicePoll) (om_of_list [(DRepKey 9, VoteYes)])
    (ss_stake_distribution (stake_summary_new example_snapshot example_governance)) \<in> {0..1}"
  using tallies_are_ratios [OF example_governance_ok [of short_epochs] refl] by blast

end
