(* ===== verification/Governance_Updates.thy ===== *)
theory Governance_Updates
  imports Epoch_Boundary Ratification_Laws
begin

text \<open>
  The governance updates of an epoch boundary
  (\<open>amaru-ledger/src/epoch_transition/ratification.rs\<close>): ratification of all pending
  proposals, the refunds of those that are dropped, and whether the next epoch is
  dormant.
\<close>

record proposal_metadata =
  pm_valid_until :: epoch
  pm_return_account :: credential
  pm_deposit :: lovelace

definition metadata_of :: "proposal_row \<Rightarrow> proposal_metadata" where
  "metadata_of row =
    \<lparr>pm_valid_until = prow_valid_until row, pm_return_account = snd (prop_reward_account (prow_proposal row)),
     pm_deposit = prop_deposit (prow_proposal row)\<rparr>"

definition candidate_of :: "proposal_row \<Rightarrow> candidate_proposal" where
  "candidate_of row =
    \<lparr>cp_valid_until = prow_valid_until row, cp_proposed_in = prow_proposed_in row,
     cp_governance_action = prop_gov_action (prow_proposal row)\<rparr>"

text \<open>The error of ratification, and the panic on an expired proposal that was not pruned.\<close>

datatype governance_error = RatificationFailed ratification_error | ExpiredNotPruned proposal_id

definition settle_proposal ::
  "epoch \<Rightarrow> (proposal_id, ratification_status) omap \<Rightarrow> proposal_id \<times> proposal_metadata \<Rightarrow>
    (credential, lovelace) omap \<times> bool \<Rightarrow> (governance_error, (credential, lovelace) omap \<times> bool) result" where
  "settle_proposal epoch pruned_proposals = (\<lambda>(i, proposal) (deposit_refunds, is_dormant_epoch).
    let expired = (epoch = pm_valid_until proposal) in
    if om_contains pruned_proposals i then
      Ok (add_amount (pm_return_account proposal) (pm_deposit proposal) deposit_refunds, is_dormant_epoch)
    else if expired then Err (ExpiredNotPruned i)
    else Ok (deposit_refunds, is_dormant_epoch \<and> pm_valid_until proposal < epoch + 2))"

definition governance_updates_new ::
  "proposals_roots \<Rightarrow> (proposal_id \<times> proposal_row) list \<Rightarrow> era_history \<Rightarrow> ratification_context \<Rightarrow>
    (governance_error, governance_updates) result" where
  "governance_updates_new roots proposals era_history ctx =
    (let proposals_metadata = foldl (\<lambda>m (i, row). om_insert i (metadata_of row) m) om_empty proposals in
     case ratify_proposals era_history (map (\<lambda>(i, row). (i, candidate_of row)) proposals) roots ctx of
       Inl e \<Rightarrow> Err (RatificationFailed e)
     | Inr ((roots', pruned_proposals), ctx') \<Rightarrow>
         res_bind (try_fold (settle_proposal (rc_epoch ctx') pruned_proposals) (om_entries proposals_metadata) (om_empty, True))
           (\<lambda>(deposit_refunds, is_dormant_epoch).
             Ok \<lparr>gu_roots = roots', gu_protocol_parameters = rc_protocol_parameters ctx',
                 gu_pruned_proposals = pruned_proposals, gu_deposit_refunds = deposit_refunds,
                 gu_treasury_withdrawals = rc_withdrawals ctx', gu_is_dormant_epoch = is_dormant_epoch,
                 gu_constitutional_committee = rc_committee_change ctx', gu_new_constitution = rc_new_constitution ctx'\<rparr>))"

section \<open>Expired proposals are pruned\<close>

lemma expire_contains: "om_contains m i \<Longrightarrow> om_contains (foldl (expire e) m xs) i"
proof (induction xs arbitrary: m)
  case (Cons x xs)
  obtain j d where x: "x = (j, d)" by (cases x)
  have "om_contains (expire e m x) i" using Cons.prems by (auto simp: x expire_def om_contains_def split: option.splits)
  then show ?case using Cons.IH by simp
qed simp

lemma expired_contained: "(i, c) \<in> set xs \<Longrightarrow> wc_valid_until c = e \<Longrightarrow> om_contains (foldl (expire e) m xs) i"
proof (induction xs arbitrary: m)
  case (Cons x xs)
  show ?case
  proof (cases "x = (i, c)")
    case True
    then have "om_contains (expire e m x) i" using Cons.prems(2) by (simp add: expire_def om_contains_def)
    then show ?thesis by (simp add: expire_contains)
  next
    case False
    then show ?thesis using Cons.prems Cons.IH by simp
  qed
qed simp

lemma ratify_loop_epoch:
  assumes "ratify_loop ctx f = Ok (ctx', f')" and "forest_ok f"
  shows "rc_epoch ctx' = rc_epoch ctx"
proof (rule ratify_loop_invariant [OF assms, where P = "\<lambda>c _. rc_epoch c = rc_epoch ctx"])
  fix ctx1 ctx2 :: ratification_context and f1 f2 :: proposals_forest and i :: proposal_id and c :: with_context
  assume "rc_epoch ctx1 = rc_epoch ctx" "enact_proposal (wc_proposal c) ctx1 = Some ctx2"
  then show "rc_epoch ctx2 = rc_epoch ctx" by (cases "(wc_proposal c, ctx1)" rule: enact_proposal.cases) (auto simp: Let_def)
qed simp_all

lemma expired_are_pruned:
  assumes "distinct (map fst ps)" and "ratify_proposals h ps roots ctx = Ok ((roots', pruned), ctx')"
  shows "rc_epoch ctx' = rc_epoch ctx"
    and "(i, row) \<in> set ps \<Longrightarrow> cp_valid_until row = rc_epoch ctx \<Longrightarrow> om_contains pruned i"
proof -
  obtain f0 f where f: "pf_drain h ps (pf_new (rc_epoch ctx) roots (rc_treasury ctx)) = Ok f0"
      "ratify_loop ctx f0 = Ok (ctx', f)" "descends f0 f" "forest_ok f0" "pruned = pf_end f"
    using ratify_proposals_run [OF assms] by metis
  show "rc_epoch ctx' = rc_epoch ctx" using ratify_loop_epoch [OF f(2,4)] .
  assume i: "(i, row) \<in> set ps" and e: "cp_valid_until row = rc_epoch ctx"
  note d = pf_drain_new(2) [OF assms(1) f(1)]
  have ok: "candidate_ok h (rc_epoch ctx) row"
    using i pf_drain_new(1) [OF assms(1), of h "rc_epoch ctx" roots "rc_treasury ctx"] f(1) by auto
  then obtain ep where ep: "slot_to_epoch h (fst (fst (cp_proposed_in row))) (fst (fst (cp_proposed_in row))) = Ok ep"
    by (cases "slot_to_epoch h (fst (fst (cp_proposed_in row))) (fst (fst (cp_proposed_in row)))") (auto simp: candidate_ok_def)
  let ?c = "\<lparr>wc_proposed_in = ep, wc_valid_until = rc_epoch ctx, wc_pointer = cp_proposed_in row, wc_proposal = proposal_enum_of (cp_governance_action row)\<rparr>"
  have "holds_candidates h f0 ps" using d by blast
  then have "om_lookup (pf_proposals f0) i = Some ?c" using i e ep unfolding holds_candidates_def by fastforce
  then consider "om_lookup (pf_proposals f) i = Some ?c" | "om_contains (pf_pruned f) i" using f(3) unfolding descends_def by blast
  moreover have "pf_current_epoch f = rc_epoch ctx" using f(3) d by (simp add: descends_def)
  ultimately show "om_contains pruned i"
    unfolding f(5) pf_end_def pf_end_in_def
    by cases (simp_all add: expire_contains expired_contained [of i ?c] om_entries_iff)
qed

section \<open>Refunds\<close>

lemma settle_all:
  assumes "\<And>i p. (i, p) \<in> set xs \<Longrightarrow> pm_valid_until p = e \<Longrightarrow> om_contains pruned i"
  shows "\<exists>refunds dormant. try_fold (settle_proposal e pruned) xs (refunds0, dormant0) = Ok (refunds, dormant) \<and>
    (\<forall>account. amount_of refunds account = amount_of refunds0 account +
      sum_list (map (\<lambda>(i, p). if om_contains pruned i \<and> pm_return_account p = account then pm_deposit p else 0) xs)) \<and>
    (dormant \<longleftrightarrow> dormant0 \<and> (\<forall>(i, p) \<in> set xs. om_contains pruned i \<or> pm_valid_until p < e + 2))"
  using assms
proof (induction xs arbitrary: refunds0 dormant0)
  case (Cons x xs)
  obtain i p where x: "x = (i, p)" by (cases x)
  let ?r = "if om_contains pruned i then add_amount (pm_return_account p) (pm_deposit p) refunds0 else refunds0"
  let ?d = "dormant0 \<and> (om_contains pruned i \<or> pm_valid_until p < e + 2)"
  have one: "settle_proposal e pruned x (refunds0, dormant0) = Ok (?r, ?d)"
    using Cons.prems [of i p] by (auto simp: x settle_proposal_def)
  have "\<exists>refunds dormant. try_fold (settle_proposal e pruned) xs (?r, ?d) = Ok (refunds, dormant) \<and>
    (\<forall>account. amount_of refunds account = amount_of ?r account +
      sum_list (map (\<lambda>(i, p). if om_contains pruned i \<and> pm_return_account p = account then pm_deposit p else 0) xs)) \<and>
    (dormant \<longleftrightarrow> ?d \<and> (\<forall>(i, p) \<in> set xs. om_contains pruned i \<or> pm_valid_until p < e + 2))"
    by (rule Cons.IH) (use Cons.prems in force)
  then obtain refunds dormant where r: "try_fold (settle_proposal e pruned) xs (?r, ?d) = Ok (refunds, dormant)"
    "\<And>account. amount_of refunds account = amount_of ?r account +
      sum_list (map (\<lambda>(i, p). if om_contains pruned i \<and> pm_return_account p = account then pm_deposit p else 0) xs)"
    "dormant \<longleftrightarrow> ?d \<and> (\<forall>(i, p) \<in> set xs. om_contains pruned i \<or> pm_valid_until p < e + 2)"
    by blast
  have "try_fold (settle_proposal e pruned) (x # xs) (refunds0, dormant0) = Ok (refunds, dormant)"
    unfolding try_fold.simps one by (simp only: res_bind_simps r(1))
  moreover have "dormant \<longleftrightarrow> dormant0 \<and> (\<forall>(i, p) \<in> set (x # xs). om_contains pruned i \<or> pm_valid_until p < e + 2)"
    using r(3) by (simp add: x)
  ultimately show ?case using r(2) by (auto simp: x)
qed simp

lemma om_entries_inserts:
  fixes xs :: "('k :: linorder \<times> 'a) list"
  assumes "distinct (map fst xs)"
  shows "mset (om_entries (foldl (\<lambda>m (k, v). om_insert k (g v) m) om_empty xs)) = mset (map (\<lambda>(k, v). (k, g v)) xs)"
proof -
  have look: "om_lookup (foldl (\<lambda>m (k, v). om_insert k (g v) m) m xs) k = (case map_of xs k of Some v \<Rightarrow> Some (g v) | None \<Rightarrow> om_lookup m k)"
    if "distinct (map fst xs)" for m k and xs :: "('k \<times> 'a) list"
    using that by (induction xs arbitrary: m) (auto split: option.splits simp: map_of_eq_None_iff [symmetric])
  let ?m = "foldl (\<lambda>m (k, v). om_insert k (g v) m) om_empty xs"
  have "set (om_entries ?m) = set (map (\<lambda>(k, v). (k, g v)) xs)"
    using assms by (force simp: om_entries_iff look split: option.splits dest: map_of_SomeD)
  moreover have "distinct (om_entries ?m)" using om_entries_distinct [of ?m] by (simp add: distinct_map)
  moreover have "map fst (map (\<lambda>(k, v). (k, g v)) xs) = map fst xs" by (simp add: comp_def case_prod_unfold)
  then have "distinct (map (\<lambda>(k, v). (k, g v)) xs)" using assms distinct_map [of fst] by metis
  ultimately show ?thesis using set_eq_iff_mset_eq_distinct by blast
qed

section \<open>Properties\<close>

text \<open>
  C33. The updates of an epoch boundary: once ratification has succeeded the assertion on
  expired proposals holds, every dropped proposal has its deposit returned in full to
  its return account, and the epoch is dormant when no proposal left can be voted on
  in it.
\<close>

theorem dropped_proposals_are_refunded:
  assumes "distinct (map fst proposals)"
    and "ratify_proposals h (map (\<lambda>(i, row). (i, candidate_of row)) proposals) roots ctx = Ok ((roots', pruned), ctx')"
  shows "\<exists>gu. governance_updates_new roots proposals h ctx = Ok gu \<and> gu_pruned_proposals gu = pruned \<and>
    gu_treasury_withdrawals gu = rc_withdrawals ctx' \<and>
    amount_of (gu_deposit_refunds gu) account =
      (\<Sum>(i, row) \<leftarrow> proposals. if om_contains pruned i \<and> snd (prop_reward_account (prow_proposal row)) = account
        then prop_deposit (prow_proposal row) else 0) \<and>
    gu_is_dormant_epoch gu = (\<forall>(i, row) \<in> set proposals. om_contains pruned i \<or> prow_valid_until row < rc_epoch ctx + 2)"
proof -
  let ?meta = "om_entries (foldl (\<lambda>m (i, row). om_insert i (metadata_of row) m) om_empty proposals)"
  have fst: "map fst (map (\<lambda>(i, row). (i, candidate_of row)) proposals) = map fst proposals" by (simp add: comp_def case_prod_unfold)
  note e = expired_are_pruned [OF assms(1) [folded fst] assms(2)]
  have meta: "mset ?meta = mset (map (\<lambda>(i, row). (i, metadata_of row)) proposals)" by (rule om_entries_inserts [OF assms(1)])
  have "om_contains pruned i" if i: "(i, p) \<in> set ?meta" and "pm_valid_until p = rc_epoch ctx" for i p
  proof -
    have "(i, p) \<in> set (map (\<lambda>(i, row). (i, metadata_of row)) proposals)" using i unfolding set_mset_mset [symmetric] meta .
    then obtain row where "(i, row) \<in> set proposals" "p = metadata_of row" by auto
    then show ?thesis using that(2) by (intro e(2) [of i "candidate_of row"]) (force, simp add: metadata_of_def candidate_of_def)
  qed
  then obtain refunds dormant where
    r: "try_fold (settle_proposal (rc_epoch ctx) pruned) ?meta (om_empty, True) = Ok (refunds, dormant)"
    "amount_of refunds account =
      sum_list (map (\<lambda>(i, p). if om_contains pruned i \<and> pm_return_account p = account then pm_deposit p else 0) ?meta)"
    "dormant \<longleftrightarrow> (\<forall>(i, p) \<in> set ?meta. om_contains pruned i \<or> pm_valid_until p < rc_epoch ctx + 2)"
    using settle_all [of ?meta "rc_epoch ctx" pruned om_empty True] unfolding amount_of_empty add_0 simp_thms by blast
  have sums: "sum_list (map g ?meta) = sum_list (map g (map (\<lambda>(i, row). (i, metadata_of row)) proposals))" for g :: "_ \<Rightarrow> nat"
    by (subst (1 2) sum_mset_sum_list [symmetric]) (simp only: mset_map meta)
  have "amount_of refunds account = (\<Sum>(i, row) \<leftarrow> proposals.
      if om_contains pruned i \<and> snd (prop_reward_account (prow_proposal row)) = account then prop_deposit (prow_proposal row) else 0)"
    unfolding r(2) sums by (simp add: comp_def case_prod_unfold metadata_of_def cong: if_cong)
  moreover have "dormant \<longleftrightarrow> (\<forall>(i, row) \<in> set proposals. om_contains pruned i \<or> prow_valid_until row < rc_epoch ctx + 2)"
    unfolding r(3) set_mset_mset [of ?meta, symmetric] meta by (auto simp: metadata_of_def)
  ultimately show ?thesis using assms(2) r(1) e(1) by (simp add: governance_updates_new_def Let_def)
qed

definition motion_row :: "slot \<Rightarrow> epoch \<Rightarrow> proposal_id option \<Rightarrow> proposal_row" where
  "motion_row s e parent =
    \<lparr>prow_proposed_in = ((s, 0), 0), prow_valid_until = e,
     prow_proposal = \<lparr>prop_deposit = 7, prop_reward_account = (True, KeyHash 3), prop_gov_action = NoConfidence parent,
       prop_anchor = (0, [])\<rparr>\<rparr>"

definition motion_rows :: "(proposal_id \<times> proposal_row) list" where
  "motion_rows = [((1, 0), motion_row 1 5 None), ((2, 0), motion_row 30 8 (Some (1, 0))), ((3, 0), motion_row 31 8 None)]"

lemma motion_rows_pruned:
  "map_sum (\<lambda>_. ()) (\<lambda>((_, pruned), _). om_entries pruned)
    (ratify_proposals short_epochs (map (\<lambda>(i, row). (i, candidate_of row)) motion_rows) no_roots (ratify_at 5 None)) =
    Inr [((1, 0), NotRatified), ((2, 0), NotRatified)]"
  by code_simp

theorem dropped_proposals_are_refunded_witness:
  "\<exists>gu. governance_updates_new no_roots motion_rows short_epochs (ratify_at 5 None) = Ok gu \<and>
    amount_of (gu_deposit_refunds gu) (KeyHash 3) = 14"
proof -
  obtain roots' pruned ctx' where
    r: "ratify_proposals short_epochs (map (\<lambda>(i, row). (i, candidate_of row)) motion_rows) no_roots (ratify_at 5 None) =
      Ok ((roots', pruned), ctx')" and p: "om_entries pruned = [((1, 0), NotRatified), ((2, 0), NotRatified)]"
    using motion_rows_pruned
    by (cases "ratify_proposals short_epochs (map (\<lambda>(i, row). (i, candidate_of row)) motion_rows) no_roots (ratify_at 5 None)") auto
  have "distinct (map fst motion_rows)" by (simp add: motion_rows_def)
  moreover have "om_contains pruned i \<longleftrightarrow> i \<in> {(1, 0), (2, 0)}" for i
    using om_entries_iff [of i _ pruned] unfolding p om_contains_def by auto
  ultimately show ?thesis
    using dropped_proposals_are_refunded [OF _ r, of "KeyHash 3"] by (auto simp: motion_rows_def motion_row_def)
qed

end
