(* ===== verification/Uplc_Types.thy ===== *)
theory Uplc_Types
  imports Amaru_Prelude "HOL-Library.Word"
begin

text \<open>
  Data of the evaluator of untyped Plutus Core (\<open>amaru-uplc/src\<close>): types, constants and
  data, the builtin functions with their arities, terms, and the values, environments
  and errors of the machine.  Variables are de Bruijn indices that start at one; the
  names that binders may carry play no role in evaluation and are left out.
\<close>

type_synonym byte = "8 word"

section \<open>Types, data and constants\<close>

datatype uplc_type =
    TyBool | TyInteger | TyString | TyByteString | TyUnit
  | TyList uplc_type | TyArray uplc_type | TyPair uplc_type uplc_type
  | TyData | TyG1 | TyG2 | TyMlResult | TyValue

datatype plutus_data =
    DConstr nat "plutus_data list"
  | DMap "(plutus_data \<times> plutus_data) list"
  | DInteger int
  | DByteString "byte list"
  | DList "plutus_data list"

record token_entry =
  tk_name :: "byte list"
  tk_quantity :: int

record currency_entry =
  cy_currency :: "byte list"
  cy_tokens :: "token_entry list"

record ledger_value =
  lv_entries :: "currency_entry list"
  lv_size :: nat
  lv_negative_count :: nat

text \<open>
  A string is its sequence of bytes, as in memory.  Elements of the elliptic curve
  groups are opaque: they are values of a library.
\<close>

datatype uplc_constant =
    CInteger int
  | CByteString "byte list"
  | CString "byte list"
  | CBoolean bool
  | CData plutus_data
  | CList uplc_type "uplc_constant list"
  | CArray uplc_type "uplc_constant list"
  | CPair uplc_type uplc_type uplc_constant uplc_constant
  | CUnit
  | CG1 nat
  | CG2 nat
  | CMlResult nat
  | CValue ledger_value

primrec type_of :: "uplc_constant \<Rightarrow> uplc_type" where
  "type_of (CInteger _) = TyInteger" |
  "type_of (CByteString _) = TyByteString" |
  "type_of (CString _) = TyString" |
  "type_of (CBoolean _) = TyBool" |
  "type_of (CData _) = TyData" |
  "type_of (CList t _) = TyList t" |
  "type_of (CArray t _) = TyArray t" |
  "type_of (CPair t1 t2 _ _) = TyPair t1 t2" |
  "type_of CUnit = TyUnit" |
  "type_of (CG1 _) = TyG1" |
  "type_of (CG2 _) = TyG2" |
  "type_of (CMlResult _) = TyMlResult" |
  "type_of (CValue _) = TyValue"

section \<open>Builtin functions\<close>

text \<open>
  The enumeration of the builtin functions, split along the groups in which it lists them.
\<close>

datatype (plugins only: code) integer_fun =
    AddInteger | SubtractInteger | MultiplyInteger | DivideInteger | QuotientInteger | RemainderInteger |
    ModInteger | EqualsInteger | LessThanInteger | LessThanEqualsInteger | ExpModInteger

datatype (plugins only: code) byte_string_fun =
    AppendByteString | ConsByteString | SliceByteString | LengthOfByteString | IndexByteString |
    EqualsByteString | LessThanByteString | LessThanEqualsByteString

datatype (plugins only: code) crypto_fun =
    Sha2_256 | Sha3_256 | Blake2b_256 | Keccak_256 | Blake2b_224 | Ripemd_160 | VerifyEd25519Signature |
    VerifyEcdsaSecp256k1Signature | VerifySchnorrSecp256k1Signature

datatype (plugins only: code) string_fun =
    AppendString | EqualsString | EncodeUtf8 | DecodeUtf8

datatype (plugins only: code) control_fun =
    IfThenElse | ChooseUnit | Trace

datatype (plugins only: code) pair_fun =
    FstPair | SndPair

datatype (plugins only: code) list_fun =
    ChooseList | MkCons | HeadList | TailList | NullList | DropList

datatype (plugins only: code) data_fun =
    ChooseData | ConstrData | MapData | ListData | IData | BData | UnConstrData | UnMapData | UnListData |
    UnIData | UnBData | EqualsData | SerialiseData | MkPairData | MkNilData | MkNilPairData

datatype (plugins only: code) bls_fun =
    Bls12_381_G1_Add | Bls12_381_G1_Neg | Bls12_381_G1_ScalarMul | Bls12_381_G1_Equal |
    Bls12_381_G1_Compress | Bls12_381_G1_Uncompress | Bls12_381_G1_HashToGroup | Bls12_381_G2_Add |
    Bls12_381_G2_Neg | Bls12_381_G2_ScalarMul | Bls12_381_G2_Equal | Bls12_381_G2_Compress |
    Bls12_381_G2_Uncompress | Bls12_381_G2_HashToGroup | Bls12_381_MillerLoop | Bls12_381_MulMlResult |
    Bls12_381_FinalVerify | Bls12_381_G1_MultiScalarMul | Bls12_381_G2_MultiScalarMul

datatype (plugins only: code) bitwise_fun =
    IntegerToByteString | ByteStringToInteger | AndByteString | OrByteString | XorByteString |
    ComplementByteString | ReadBit | WriteBits | ReplicateByte | ShiftByteString | RotateByteString |
    CountSetBits | FindFirstSetBit

datatype (plugins only: code) array_fun =
    LengthOfArray | ListToArray | IndexArray

datatype (plugins only: code) value_fun =
    InsertCoin | LookupCoin | UnionValue | ValueContains | ValueDataFn | UnValueDataFn | ScaleValue

datatype (plugins only: code) default_function =
    FInteger integer_fun | FByteString byte_string_fun | FCrypto crypto_fun | FString string_fun |
    FControl control_fun | FPair pair_fun | FList list_fun | FData data_fun | FBls bls_fun |
    FBitwise bitwise_fun | FArray array_fun | FValue value_fun

definition builtin_of_tag :: "nat \<Rightarrow> default_function option" where
  "builtin_of_tag tag = (if tag < 101 then Some ([
      FInteger AddInteger, FInteger SubtractInteger, FInteger MultiplyInteger, FInteger DivideInteger,
      FInteger QuotientInteger, FInteger RemainderInteger, FInteger ModInteger, FInteger EqualsInteger,
      FInteger LessThanInteger, FInteger LessThanEqualsInteger, FByteString AppendByteString,
      FByteString ConsByteString, FByteString SliceByteString, FByteString LengthOfByteString,
      FByteString IndexByteString, FByteString EqualsByteString, FByteString LessThanByteString,
      FByteString LessThanEqualsByteString, FCrypto Sha2_256, FCrypto Sha3_256, FCrypto Blake2b_256,
      FCrypto VerifyEd25519Signature, FString AppendString, FString EqualsString, FString EncodeUtf8,
      FString DecodeUtf8, FControl IfThenElse, FControl ChooseUnit, FControl Trace, FPair FstPair,
      FPair SndPair, FList ChooseList, FList MkCons, FList HeadList, FList TailList, FList NullList,
      FData ChooseData, FData ConstrData, FData MapData, FData ListData, FData IData, FData BData,
      FData UnConstrData, FData UnMapData, FData UnListData, FData UnIData, FData UnBData, FData EqualsData,
      FData MkPairData, FData MkNilData, FData MkNilPairData, FData SerialiseData,
      FCrypto VerifyEcdsaSecp256k1Signature, FCrypto VerifySchnorrSecp256k1Signature, FBls Bls12_381_G1_Add,
      FBls Bls12_381_G1_Neg, FBls Bls12_381_G1_ScalarMul, FBls Bls12_381_G1_Equal,
      FBls Bls12_381_G1_Compress, FBls Bls12_381_G1_Uncompress, FBls Bls12_381_G1_HashToGroup,
      FBls Bls12_381_G2_Add, FBls Bls12_381_G2_Neg, FBls Bls12_381_G2_ScalarMul, FBls Bls12_381_G2_Equal,
      FBls Bls12_381_G2_Compress, FBls Bls12_381_G2_Uncompress, FBls Bls12_381_G2_HashToGroup,
      FBls Bls12_381_MillerLoop, FBls Bls12_381_MulMlResult, FBls Bls12_381_FinalVerify, FCrypto Keccak_256,
      FCrypto Blake2b_224, FBitwise IntegerToByteString, FBitwise ByteStringToInteger,
      FBitwise AndByteString, FBitwise OrByteString, FBitwise XorByteString, FBitwise ComplementByteString,
      FBitwise ReadBit, FBitwise WriteBits, FBitwise ReplicateByte, FBitwise ShiftByteString,
      FBitwise RotateByteString, FBitwise CountSetBits, FBitwise FindFirstSetBit, FCrypto Ripemd_160,
      FInteger ExpModInteger, FList DropList, FArray LengthOfArray, FArray ListToArray, FArray IndexArray,
      FBls Bls12_381_G1_MultiScalarMul, FBls Bls12_381_G2_MultiScalarMul, FValue InsertCoin,
      FValue LookupCoin, FValue UnionValue, FValue ValueContains, FValue ValueDataFn, FValue UnValueDataFn,
      FValue ScaleValue] ! tag) else None)"

fun force_count :: "default_function \<Rightarrow> nat" where
  "force_count (FInteger _) = 0" |
  "force_count (FByteString _) = 0" |
  "force_count (FCrypto _) = 0" |
  "force_count (FString _) = 0" |
  "force_count (FControl _) = 1" |
  "force_count (FPair _) = 2" |
  "force_count (FList f) = (case f of ChooseList \<Rightarrow> 2 | _ \<Rightarrow> 1)" |
  "force_count (FData f) = (case f of ChooseData \<Rightarrow> 1 | _ \<Rightarrow> 0)" |
  "force_count (FBls _) = 0" |
  "force_count (FBitwise _) = 0" |
  "force_count (FArray _) = 1" |
  "force_count (FValue _) = 0"

fun arity :: "default_function \<Rightarrow> nat" where
  "arity (FInteger f) = (case f of ExpModInteger \<Rightarrow> 3 | _ \<Rightarrow> 2)" |
  "arity (FByteString f) = (case f of SliceByteString \<Rightarrow> 3 | LengthOfByteString \<Rightarrow> 1 | _ \<Rightarrow> 2)" |
  "arity (FCrypto f) = (case f of VerifyEd25519Signature \<Rightarrow> 3 | VerifyEcdsaSecp256k1Signature \<Rightarrow> 3 | VerifySchnorrSecp256k1Signature \<Rightarrow> 3 | _ \<Rightarrow> 1)" |
  "arity (FString f) = (case f of AppendString \<Rightarrow> 2 | EqualsString \<Rightarrow> 2 | _ \<Rightarrow> 1)" |
  "arity (FControl f) = (case f of IfThenElse \<Rightarrow> 3 | _ \<Rightarrow> 2)" |
  "arity (FPair _) = 1" |
  "arity (FList f) = (case f of ChooseList \<Rightarrow> 3 | MkCons \<Rightarrow> 2 | DropList \<Rightarrow> 2 | _ \<Rightarrow> 1)" |
  "arity (FData f) = (case f of ChooseData \<Rightarrow> 6 | ConstrData \<Rightarrow> 2 | EqualsData \<Rightarrow> 2 | MkPairData \<Rightarrow> 2 | _ \<Rightarrow> 1)" |
  "arity (FBls f) = (case f of Bls12_381_G1_Neg \<Rightarrow> 1 | Bls12_381_G1_Compress \<Rightarrow> 1 | Bls12_381_G1_Uncompress \<Rightarrow> 1 | Bls12_381_G2_Neg \<Rightarrow> 1 | Bls12_381_G2_Compress \<Rightarrow> 1 | Bls12_381_G2_Uncompress \<Rightarrow> 1 | _ \<Rightarrow> 2)" |
  "arity (FBitwise f) = (case f of IntegerToByteString \<Rightarrow> 3 | AndByteString \<Rightarrow> 3 | OrByteString \<Rightarrow> 3 | XorByteString \<Rightarrow> 3 | ComplementByteString \<Rightarrow> 1 | WriteBits \<Rightarrow> 3 | CountSetBits \<Rightarrow> 1 | FindFirstSetBit \<Rightarrow> 1 | _ \<Rightarrow> 2)" |
  "arity (FArray f) = (case f of IndexArray \<Rightarrow> 2 | _ \<Rightarrow> 1)" |
  "arity (FValue f) = (case f of InsertCoin \<Rightarrow> 4 | LookupCoin \<Rightarrow> 3 | ValueDataFn \<Rightarrow> 1 | UnValueDataFn \<Rightarrow> 1 | _ \<Rightarrow> 2)"

section \<open>Terms and values\<close>

datatype uplc_term =
    Var nat
  | Lambda uplc_term
  | Apply uplc_term uplc_term
  | Delay uplc_term
  | Force uplc_term
  | Case uplc_term "uplc_term list"
  | Constr nat "uplc_term list"
  | Constant uplc_constant
  | Builtin default_function
  | TError

text \<open>An environment is the list of its values, the innermost first.\<close>

datatype uplc_value =
    VCon uplc_constant
  | VLambda uplc_term "uplc_value list"
  | VBuiltin default_function nat "uplc_value list"
  | VDelay uplc_term "uplc_value list"
  | VConstr nat "uplc_value list"

type_synonym uplc_env = "uplc_value list"

fun env_lookup :: "uplc_env \<Rightarrow> nat \<Rightarrow> uplc_value option" where
  "env_lookup env 0 = None" |
  "env_lookup [] (Suc n) = None" |
  "env_lookup (v # env) (Suc n) = (if n = 0 then Some v else env_lookup env n)"

section \<open>Errors\<close>

record ex_budget =
  eb_mem :: int
  eb_cpu :: int

datatype (plugins only: code) un_value_data_error =
    NonMapConstructor | NonByteStringConstructor | NonIntegerConstructor | InvalidKey
  | EmptyInnerMap | CurrencyNotAscending | TokenNotAscending | InvalidQuantity

datatype (plugins only: code) value_error =
    InsertCoinInvalidCurrency | InsertCoinInvalidToken | UnionValueQuantityOutOfBounds
  | ValueContainsFirstNegative | ValueContainsSecondNegative | ScaleValueQuantityOutOfBounds
  | ValueDataMaxSizeExceeded nat | UnValueData un_value_data_error | QuantityOutOfBounds

datatype (plugins only: code) runtime_error =
    ByteStringOutOfBounds "byte list" int
  | TypeMismatch uplc_type uplc_constant
  | ExpectedPair uplc_constant
  | ExpectedList uplc_constant
  | ExpectedArray uplc_constant
  | NotData uplc_constant
  | MalFormedData plutus_data
  | EmptyList "uplc_constant list"
  | UnexpectedEd25519PublicKeyLength
  | UnexpectedEd25519SignatureLength
  | DivisionByZeroInteger int int
  | IntegerOutOfBounds int
  | MkConsTypeMismatch uplc_constant
  | ByteStringConsNotAByte int
  | ConstrTagOutOfBounds int
  | Secp256k1Error nat
  | DecodeUtf8Error
  | BlsError nat
  | HashToCurveDstTooBig
  | IntegerToByteStringSizeTooBig int int
  | IntegerToByteStringSizeTooSmall int nat
  | IntegerToByteStringNegativeInput int
  | IntegerToByteStringNegativeSize int
  | EmptyByteArray
  | ReadBitOutOfBounds int nat
  | WriteBitsOutOfBounds int nat
  | WriteBitsInputTooLong nat nat
  | OutsideByteBounds int
  | OutsideUsizeBounds int
  | ReplicateByteSizeTooBig int int
  | ReplicateByteNegativeInput int
  | ReplicateByteNegativeSize int
  | IndexArrayOutOfBounds int nat
  | SerializationError plutus_data
  | MultiScalarMulScalarOutOfBounds
  | ValueError value_error

record machine_version =
  mv_major :: nat
  mv_minor :: nat
  mv_patch :: nat

text \<open>
  The last constructor stands for the panics of the evaluator: an argument of a builtin
  that is not there, an \<open>unwrap\<close>, \<open>expect\<close> or \<open>unreachable\<close>.
\<close>

datatype (plugins only: code) machine_error =
    UnavailableProgramVersion machine_version
  | ExplicitErrorTerm
  | NonFunctionApplication uplc_value uplc_value
  | NotAConstant uplc_value
  | OpenTermEvaluated uplc_term
  | OutOfExError ex_budget
  | UnexpectedBuiltinTermArgument uplc_term
  | NonPolymorphicInstantiation uplc_value
  | BuiltinTermArgumentExpected uplc_term
  | NonConstrScrutinized uplc_value
  | MissingCaseBranch "uplc_term list" uplc_value
  | Runtime runtime_error
  | Panic

section \<open>Typed constants\<close>

text \<open>The elements of a list or array and the components of a pair have the types it states.\<close>

fun wt_constant :: "uplc_constant \<Rightarrow> bool" where
  "wt_constant (CList t cs) = (\<forall>c \<in> set cs. type_of c = t \<and> wt_constant c)" |
  "wt_constant (CArray t cs) = (\<forall>c \<in> set cs. type_of c = t \<and> wt_constant c)" |
  "wt_constant (CPair t1 t2 a b) = (type_of a = t1 \<and> type_of b = t2 \<and> wt_constant a \<and> wt_constant b)" |
  "wt_constant _ = True"

end
