(* ===== verification/Uplc_Costs.thy ===== *)
theory Uplc_Costs
  imports Uplc_Types
begin

text \<open>
  Costs of evaluation (\<open>amaru-uplc/src/machine/cost_model\<close>): sizes of arguments, the cost
  functions of builtins, the costs of machine steps and the execution budget.  Costs
  are signed 64-bit integers whose arithmetic saturates.
\<close>

section \<open>Saturating arithmetic\<close>

definition i64_max :: int where "i64_max = 2 ^ 63 - 1"

definition i64_min :: int where "i64_min = - (2 ^ 63)"

definition i64_sat :: "int \<Rightarrow> int" where
  "i64_sat x = max i64_min (min i64_max x)"

definition sat_add :: "int \<Rightarrow> int \<Rightarrow> int" where "sat_add a b = i64_sat (a + b)"

definition sat_sub :: "int \<Rightarrow> int \<Rightarrow> int" where "sat_sub a b = i64_sat (a - b)"

definition sat_mul :: "int \<Rightarrow> int \<Rightarrow> int" where "sat_mul a b = i64_sat (a * b)"

section \<open>Sizes\<close>

fun nat_bits :: "nat \<Rightarrow> nat" where
  "nat_bits n = (if n = 0 then 0 else 1 + nat_bits (n div 2))"

declare nat_bits.simps [simp del]

text \<open>The number of bits of the magnitude of an integer.\<close>

definition int_bits :: "int \<Rightarrow> nat" where
  "int_bits i = nat_bits (nat \<bar>i\<bar>)"

definition bytes_size :: "byte list \<Rightarrow> int" where
  "bytes_size bs = (if bs = [] then 1 else (int (length bs) - 1) div 8 + 1)"

definition integer_size :: "int \<Rightarrow> int" where
  "integer_size i = (if i = 0 then 1 else 1 + (int (int_bits i) - 1) div 64)"

text \<open>Characters of a string: all bytes but continuation bytes start one.\<close>

definition char_count :: "byte list \<Rightarrow> int" where
  "char_count bs = int (length (filter (\<lambda>b. \<not> (128 \<le> unat b \<and> unat b < 192)) bs))"

fun data_size :: "plutus_data \<Rightarrow> int" where
  "data_size (DConstr _ xs) = 4 + sum_list (map data_size xs)" |
  "data_size (DList items) = 4 + sum_list (map data_size items)" |
  "data_size (DMap items) = 4 + sum_list (map (\<lambda>(k, v). data_size k + data_size v) items)" |
  "data_size (DInteger i) = 4 + integer_size i" |
  "data_size (DByteString bs) = 4 + bytes_size bs"

text \<open>The logarithms are computed in floating point and rounded down.\<close>

definition ledger_value_size :: "ledger_value \<Rightarrow> int" where
  "ledger_value_size v =
    (let outer = length (lv_entries v);
         max_inner = foldr max (map (\<lambda>e. length (cy_tokens e)) (lv_entries v)) 0
     in int (nat_bits outer) + int (nat_bits max_inner))"

text \<open>The sizes of elements of the curve groups are those of a library, in words.\<close>

record group_sizes =
  gs_g1 :: nat
  gs_g2 :: nat
  gs_ml_result :: nat

fun constant_size :: "group_sizes \<Rightarrow> uplc_constant \<Rightarrow> int" where
  "constant_size gs (CInteger i) = integer_size i" |
  "constant_size gs (CByteString bs) = bytes_size bs" |
  "constant_size gs (CString s) = char_count s" |
  "constant_size gs CUnit = 1" |
  "constant_size gs (CBoolean _) = 1" |
  "constant_size gs (CList _ items) = int (length items)" |
  "constant_size gs (CArray _ items) = int (length items)" |
  "constant_size gs (CPair _ _ l r) = constant_size gs l + constant_size gs r" |
  "constant_size gs (CData d) = data_size d" |
  "constant_size gs (CG1 _) = int (gs_g1 gs)" |
  "constant_size gs (CG2 _) = int (gs_g2 gs)" |
  "constant_size gs (CMlResult _) = int (gs_ml_result gs)" |
  "constant_size gs (CValue v) = ledger_value_size v"

definition value_size :: "group_sizes \<Rightarrow> uplc_value \<Rightarrow> int" where
  "value_size gs v = (case v of VCon c \<Rightarrow> constant_size gs c | _ \<Rightarrow> 1)"

fun data_node_count :: "plutus_data \<Rightarrow> int" where
  "data_node_count (DConstr _ xs) = 1 + sum_list (map data_node_count xs)" |
  "data_node_count (DList items) = 1 + sum_list (map data_node_count items)" |
  "data_node_count (DMap items) = 1 + sum_list (map (\<lambda>(k, v). data_node_count k + data_node_count v) items)" |
  "data_node_count (DInteger _) = 1" |
  "data_node_count (DByteString _) = 1"

definition integer_log2 :: "int \<Rightarrow> int" where
  "integer_log2 i = (if i = 0 then 0 else int (int_bits i) - 1)"

section \<open>Semantics variants\<close>

datatype semantics = SemA | SemB | SemC | SemD | SemE

definition costs_strings_by_utf8_bytes :: "semantics \<Rightarrow> bool" where
  "costs_strings_by_utf8_bytes s = (s = SemD \<or> s = SemE)"

definition cons_byte_string_range_checks :: "semantics \<Rightarrow> bool" where
  "cons_byte_string_range_checks s = (s = SemC \<or> s = SemE)"

definition enforces_integer_bounds :: "semantics \<Rightarrow> bool" where
  "enforces_integer_bounds s = (s = SemD \<or> s = SemE)"

definition bounds_shift_amount_to_int64 :: "semantics \<Rightarrow> bool" where
  "bounds_shift_amount_to_int64 s = (s = SemD \<or> s = SemE)"

definition bounds_write_bits_input_length :: "semantics \<Rightarrow> bool" where
  "bounds_write_bits_input_length s = (s = SemD \<or> s = SemE)"

definition string_size :: "semantics \<Rightarrow> byte list \<Rightarrow> int" where
  "string_size s bs = (if costs_strings_by_utf8_bytes s then int (length bs) div 4 else char_count bs)"

section \<open>Cost functions of builtins\<close>

record linear_size =
  ls_intercept :: int
  ls_slope :: int

record two_variable_linear_size =
  tv_intercept :: int
  tv_slope1 :: int
  tv_slope2 :: int

record subtracted_sizes =
  su_intercept :: int
  su_slope :: int
  su_minimum :: int

record constant_or_linear =
  co_constant :: int
  co_intercept :: int
  co_slope :: int

record quadratic_function =
  qf_coeff_0 :: int
  qf_coeff_1 :: int
  qf_coeff_2 :: int

record two_arguments_quadratic_function =
  tq_minimum :: int
  tq_coeff_00 :: int
  tq_coeff_01 :: int
  tq_coeff_02 :: int
  tq_coeff_10 :: int
  tq_coeff_11 :: int
  tq_coeff_20 :: int

record with_interaction =
  wi_coeff_00 :: int
  wi_coeff_10 :: int
  wi_coeff_01 :: int
  wi_coeff_11 :: int

record exp_mod_cost =
  em_coeff_00 :: int
  em_coeff_11 :: int
  em_coeff_12 :: int

definition linear :: "linear_size \<Rightarrow> int \<Rightarrow> int" where
  "linear l x = sat_add (sat_mul (ls_slope l) x) (ls_intercept l)"

definition quadratic :: "quadratic_function \<Rightarrow> int \<Rightarrow> int" where
  "quadratic q x =
    sat_add (sat_add (qf_coeff_0 q) (sat_mul (qf_coeff_1 q) x)) (sat_mul (sat_mul (qf_coeff_2 q) x) x)"

datatype one_argument =
    Const1 int | LinearInX1 linear_size | Quadratic1 quadratic_function

fun cost1 :: "one_argument \<Rightarrow> int list \<Rightarrow> int" where
  "cost1 (Const1 c) args = c" |
  "cost1 (LinearInX1 m) args = linear m (args ! 0)" |
  "cost1 (Quadratic1 q) args = quadratic q (args ! 0)"

datatype two_arguments =
    Const2 int
  | LinearInX2 linear_size
  | LinearInY2 linear_size
  | LinearInXAndY2 two_variable_linear_size
  | AddedSizes linear_size
  | SubtractedSizes subtracted_sizes
  | MultipliedSizes linear_size
  | MinSize linear_size
  | MaxSize linear_size
  | LinearOnDiagonal constant_or_linear
  | ConstAboveDiagonal int two_arguments
  | AboveAndBelowDiagonal two_arguments
  | QuadraticInY2 quadratic_function
  | QuadraticInXAndY2 two_arguments_quadratic_function
  | WithInteraction with_interaction

fun cost2 :: "two_arguments \<Rightarrow> int list \<Rightarrow> int" where
  "cost2 (Const2 c) args = c" |
  "cost2 (LinearInX2 l) args = linear l (args ! 0)" |
  "cost2 (LinearInY2 l) args = linear l (args ! 1)" |
  "cost2 (LinearInXAndY2 l) args =
    sat_add (sat_add (sat_mul (tv_slope1 l) (args ! 0)) (sat_mul (tv_slope2 l) (args ! 1))) (tv_intercept l)" |
  "cost2 (AddedSizes s) args = linear s (sat_add (args ! 0) (args ! 1))" |
  "cost2 (SubtractedSizes s) args =
    sat_add (sat_mul (su_slope s) (max (su_minimum s) (sat_sub (args ! 0) (args ! 1)))) (su_intercept s)" |
  "cost2 (MultipliedSizes s) args = linear s (sat_mul (args ! 0) (args ! 1))" |
  "cost2 (MinSize s) args = linear s (min (args ! 0) (args ! 1))" |
  "cost2 (MaxSize s) args = linear s (max (args ! 0) (args ! 1))" |
  "cost2 (LinearOnDiagonal l) args =
    (if args ! 0 = args ! 1 then sat_add (sat_mul (args ! 0) (co_slope l)) (co_intercept l) else co_constant l)" |
  "cost2 (QuadraticInY2 q) args = quadratic q (args ! 1)" |
  "cost2 (QuadraticInXAndY2 q) args =
    (let x = args ! 0; y = args ! 1 in
     max (tq_minimum q)
       (sat_add (sat_add (sat_add (sat_add (sat_add (tq_coeff_00 q)
         (sat_mul (tq_coeff_10 q) x)) (sat_mul (tq_coeff_01 q) y))
         (sat_mul (sat_mul (tq_coeff_20 q) x) x)) (sat_mul (sat_mul (tq_coeff_11 q) x) y))
         (sat_mul (sat_mul (tq_coeff_02 q) y) y)))" |
  "cost2 (ConstAboveDiagonal c q) args = (if args ! 0 < args ! 1 then c else cost2 q args)" |
  "cost2 (AboveAndBelowDiagonal q) args = cost2 q [max (args ! 0) (args ! 1), min (args ! 0) (args ! 1)]" |
  "cost2 (WithInteraction w) args =
    (let x = args ! 0; y = args ! 1 in
     sat_add (sat_add (sat_add (wi_coeff_00 w) (sat_mul (wi_coeff_10 w) x)) (sat_mul (wi_coeff_01 w) y))
       (sat_mul (sat_mul (wi_coeff_11 w) x) y))"

datatype three_arguments =
    Const3 int
  | LinearInX3 linear_size
  | LinearInY3 linear_size
  | LinearInZ3 linear_size
  | QuadraticInZ3 quadratic_function
  | LiteralInYorLinearInZ linear_size
  | LinearInYAndZ two_variable_linear_size
  | LinearInMaxYZ linear_size
  | ExpModCost exp_mod_cost

text \<open>Division of the cost by two truncates towards zero.\<close>

fun cost3 :: "three_arguments \<Rightarrow> int list \<Rightarrow> int" where
  "cost3 (Const3 c) args = c" |
  "cost3 (LinearInX3 l) args = linear l (args ! 0)" |
  "cost3 (LinearInY3 l) args = linear l (args ! 1)" |
  "cost3 (LinearInZ3 l) args = linear l (args ! 2)" |
  "cost3 (QuadraticInZ3 q) args = quadratic q (args ! 2)" |
  "cost3 (LiteralInYorLinearInZ l) args = (if args ! 1 = 0 then linear l (args ! 2) else args ! 1)" |
  "cost3 (LinearInYAndZ l) args =
    sat_add (sat_add (sat_mul (args ! 1) (tv_slope1 l)) (sat_mul (args ! 2) (tv_slope2 l))) (tv_intercept l)" |
  "cost3 (LinearInMaxYZ l) args = linear l (max (args ! 1) (args ! 2))" |
  "cost3 (ExpModCost c) args =
    (let x = args ! 0; y = args ! 1; z = args ! 2;
         cost = sat_add (sat_add (em_coeff_00 c) (sat_mul (sat_mul (em_coeff_11 c) y) z))
           (sat_mul (sat_mul (sat_mul (em_coeff_12 c) y) z) z)
     in if x \<le> z then cost else sat_add cost (sgn cost * (\<bar>cost\<bar> div 2)))"

datatype four_arguments = LinearInU linear_size

fun cost4 :: "four_arguments \<Rightarrow> int list \<Rightarrow> int" where
  "cost4 (LinearInU l) args = linear l (args ! 3)"

datatype six_arguments = Const6 int

fun cost6 :: "six_arguments \<Rightarrow> int list \<Rightarrow> int" where
  "cost6 (Const6 c) args = c"

text \<open>The memory and processor costs of a builtin, by the number of its arguments.\<close>

datatype builtin_costing =
    Costing1 one_argument one_argument
  | Costing2 two_arguments two_arguments
  | Costing3 three_arguments three_arguments
  | Costing4 four_arguments four_arguments
  | Costing6 six_arguments six_arguments

fun costing :: "builtin_costing \<Rightarrow> int list \<Rightarrow> ex_budget" where
  "costing (Costing1 m c) args = \<lparr>eb_mem = cost1 m args, eb_cpu = cost1 c args\<rparr>" |
  "costing (Costing2 m c) args = \<lparr>eb_mem = cost2 m args, eb_cpu = cost2 c args\<rparr>" |
  "costing (Costing3 m c) args = \<lparr>eb_mem = cost3 m args, eb_cpu = cost3 c args\<rparr>" |
  "costing (Costing4 m c) args = \<lparr>eb_mem = cost4 m args, eb_cpu = cost4 c args\<rparr>" |
  "costing (Costing6 m c) args = \<lparr>eb_mem = cost6 m args, eb_cpu = cost6 c args\<rparr>"

section \<open>Costs of steps\<close>

datatype step_kind =
    StepConstant | StepVar | StepLambda | StepApply | StepDelay | StepForce | StepBuiltin | StepConstr | StepCase

definition step_kinds :: "step_kind list" where
  "step_kinds = [StepConstant, StepVar, StepLambda, StepApply, StepDelay, StepForce, StepBuiltin, StepConstr, StepCase]"

record machine_costs =
  mc_startup :: ex_budget
  mc_constant :: ex_budget
  mc_var :: ex_budget
  mc_lambda :: ex_budget
  mc_delay :: ex_budget
  mc_force :: ex_budget
  mc_apply :: ex_budget
  mc_constr :: ex_budget
  mc_case :: ex_budget
  mc_builtin :: ex_budget

fun step_cost :: "machine_costs \<Rightarrow> step_kind \<Rightarrow> ex_budget" where
  "step_cost mc StepConstant = mc_constant mc" |
  "step_cost mc StepVar = mc_var mc" |
  "step_cost mc StepLambda = mc_lambda mc" |
  "step_cost mc StepApply = mc_apply mc" |
  "step_cost mc StepDelay = mc_delay mc" |
  "step_cost mc StepForce = mc_force mc" |
  "step_cost mc StepBuiltin = mc_builtin mc" |
  "step_cost mc StepConstr = mc_constr mc" |
  "step_cost mc StepCase = mc_case mc"

definition eb_scale :: "ex_budget \<Rightarrow> nat \<Rightarrow> ex_budget" where
  "eb_scale b n = \<lparr>eb_mem = sat_mul (eb_mem b) (int n), eb_cpu = sat_mul (eb_cpu b) (int n)\<rparr>"

definition eb_sub :: "ex_budget \<Rightarrow> ex_budget \<Rightarrow> ex_budget" where
  "eb_sub a b = \<lparr>eb_mem = sat_sub (eb_mem a) (eb_mem b), eb_cpu = sat_sub (eb_cpu a) (eb_cpu b)\<rparr>"

datatype case_on_constants = Unavailable | NoData

record cost_model =
  cm_semantics :: semantics
  cm_case_on_constants :: case_on_constants
  cm_machine_costs :: machine_costs
  cm_builtin_costs :: "default_function \<Rightarrow> builtin_costing"

definition get_cost :: "cost_model \<Rightarrow> default_function \<Rightarrow> int list \<Rightarrow> ex_budget" where
  "get_cost costs f sizes = costing (cm_builtin_costs costs f) sizes"

section \<open>Sizes and costs are not negative\<close>

lemma bytes_size_nonneg [simp]: "0 \<le> bytes_size bs"
  by (cases bs) (simp_all add: bytes_size_def)

lemma integer_size_nonneg [simp]: "0 \<le> integer_size i"
  by (simp add: integer_size_def int_bits_def nat_bits.simps [of "nat \<bar>i\<bar>"])

lemma data_size_nonneg [simp]: "0 \<le> data_size d"
  by (induction d rule: data_size.induct)
    (auto intro!: add_nonneg_nonneg sum_list_nonneg simp: image_iff split: prod.splits)

lemma constant_size_nonneg [simp]: "0 \<le> constant_size gs c"
  by (induction gs c rule: constant_size.induct) (simp_all add: char_count_def ledger_value_size_def Let_def)

lemma value_size_nonneg [simp]: "0 \<le> value_size gs v"
  by (simp add: value_size_def split: uplc_value.split)

lemma sat_nonneg [simp]:
  "0 \<le> a \<Longrightarrow> 0 \<le> b \<Longrightarrow> 0 \<le> sat_add a b"
  "0 \<le> a \<Longrightarrow> 0 \<le> b \<Longrightarrow> 0 \<le> sat_mul a b"
  by (simp_all add: sat_add_def sat_mul_def i64_sat_def i64_max_def i64_min_def le_max_iff_disj)

lemma half_nonneg [simp]: "0 \<le> x \<Longrightarrow> 0 \<le> sgn x * (\<bar>x\<bar> div 2)" for x :: int
  by (cases "x = 0") simp_all

lemma sat_sub_le: "i64_min \<le> a \<Longrightarrow> 0 \<le> b \<Longrightarrow> sat_sub a b \<le> a"
  by (simp add: sat_sub_def i64_sat_def i64_max_def i64_min_def)

definition linear_ok :: "linear_size \<Rightarrow> bool" where
  "linear_ok l = (0 \<le> ls_intercept l \<and> 0 \<le> ls_slope l)"

definition quadratic_ok :: "quadratic_function \<Rightarrow> bool" where
  "quadratic_ok q = (0 \<le> qf_coeff_0 q \<and> 0 \<le> qf_coeff_1 q \<and> 0 \<le> qf_coeff_2 q)"

definition two_variable_ok :: "two_variable_linear_size \<Rightarrow> bool" where
  "two_variable_ok l = (0 \<le> tv_intercept l \<and> 0 \<le> tv_slope1 l \<and> 0 \<le> tv_slope2 l)"

text \<open>
  Cost functions without negative coefficients.  The quadratic function of two arguments
  may have some: its minimum bounds it from below.
\<close>

fun no_refund1 :: "one_argument \<Rightarrow> bool" where
  "no_refund1 (Const1 c) = (0 \<le> c)" |
  "no_refund1 (LinearInX1 l) = linear_ok l" |
  "no_refund1 (Quadratic1 q) = quadratic_ok q"

fun no_refund2 :: "two_arguments \<Rightarrow> bool" where
  "no_refund2 (Const2 c) = (0 \<le> c)" |
  "no_refund2 (LinearInX2 l) = linear_ok l" |
  "no_refund2 (LinearInY2 l) = linear_ok l" |
  "no_refund2 (LinearInXAndY2 l) = two_variable_ok l" |
  "no_refund2 (AddedSizes l) = linear_ok l" |
  "no_refund2 (SubtractedSizes s) = (0 \<le> su_intercept s \<and> 0 \<le> su_slope s \<and> 0 \<le> su_minimum s)" |
  "no_refund2 (MultipliedSizes l) = linear_ok l" |
  "no_refund2 (MinSize l) = linear_ok l" |
  "no_refund2 (MaxSize l) = linear_ok l" |
  "no_refund2 (LinearOnDiagonal l) = (0 \<le> co_constant l \<and> 0 \<le> co_intercept l \<and> 0 \<le> co_slope l)" |
  "no_refund2 (ConstAboveDiagonal c q) = (0 \<le> c \<and> no_refund2 q)" |
  "no_refund2 (AboveAndBelowDiagonal q) = no_refund2 q" |
  "no_refund2 (QuadraticInY2 q) = quadratic_ok q" |
  "no_refund2 (QuadraticInXAndY2 q) = (0 \<le> tq_minimum q)" |
  "no_refund2 (WithInteraction w) =
    (0 \<le> wi_coeff_00 w \<and> 0 \<le> wi_coeff_10 w \<and> 0 \<le> wi_coeff_01 w \<and> 0 \<le> wi_coeff_11 w)"

fun no_refund3 :: "three_arguments \<Rightarrow> bool" where
  "no_refund3 (Const3 c) = (0 \<le> c)" |
  "no_refund3 (LinearInX3 l) = linear_ok l" |
  "no_refund3 (LinearInY3 l) = linear_ok l" |
  "no_refund3 (LinearInZ3 l) = linear_ok l" |
  "no_refund3 (QuadraticInZ3 q) = quadratic_ok q" |
  "no_refund3 (LiteralInYorLinearInZ l) = linear_ok l" |
  "no_refund3 (LinearInYAndZ l) = two_variable_ok l" |
  "no_refund3 (LinearInMaxYZ l) = linear_ok l" |
  "no_refund3 (ExpModCost c) = (0 \<le> em_coeff_00 c \<and> 0 \<le> em_coeff_11 c \<and> 0 \<le> em_coeff_12 c)"

fun no_refund :: "builtin_costing \<Rightarrow> bool" where
  "no_refund (Costing1 m c) = (no_refund1 m \<and> no_refund1 c)" |
  "no_refund (Costing2 m c) = (no_refund2 m \<and> no_refund2 c)" |
  "no_refund (Costing3 m c) = (no_refund3 m \<and> no_refund3 c)" |
  "no_refund (Costing4 (LinearInU m) (LinearInU c)) = (linear_ok m \<and> linear_ok c)" |
  "no_refund (Costing6 (Const6 m) (Const6 c)) = (0 \<le> m \<and> 0 \<le> c)"

fun costed_arguments :: "builtin_costing \<Rightarrow> nat" where
  "costed_arguments (Costing1 _ _) = 1" |
  "costed_arguments (Costing2 _ _) = 2" |
  "costed_arguments (Costing3 _ _) = 3" |
  "costed_arguments (Costing4 _ _) = 4" |
  "costed_arguments (Costing6 _ _) = 6"

lemma linear_nonneg: "linear_ok l \<Longrightarrow> 0 \<le> x \<Longrightarrow> 0 \<le> linear l x"
  by (simp add: linear_ok_def linear_def)

lemma quadratic_nonneg: "quadratic_ok q \<Longrightarrow> 0 \<le> x \<Longrightarrow> 0 \<le> quadratic q x"
  by (simp add: quadratic_ok_def quadratic_def)

lemma cost1_nonneg: "no_refund1 f \<Longrightarrow> 0 \<le> x \<Longrightarrow> 0 \<le> cost1 f [x]"
  by (cases f) (simp_all add: linear_nonneg quadratic_nonneg)

lemma cost2_nonneg: "no_refund2 f \<Longrightarrow> 0 \<le> x \<Longrightarrow> 0 \<le> y \<Longrightarrow> 0 \<le> cost2 f [x, y]"
  by (induction f arbitrary: x y)
    (auto simp: linear_nonneg quadratic_nonneg two_variable_ok_def Let_def min_def max_def)

lemma cost3_nonneg: "no_refund3 f \<Longrightarrow> 0 \<le> x \<Longrightarrow> 0 \<le> y \<Longrightarrow> 0 \<le> z \<Longrightarrow> 0 \<le> cost3 f [x, y, z]"
  by (cases f) (auto simp: linear_nonneg quadratic_nonneg two_variable_ok_def Let_def max_def simp del: abs_of_nonneg)

lemma costing_nonneg:
  assumes "no_refund k" "\<forall>x \<in> set sizes. 0 \<le> x" "length sizes = costed_arguments k"
  shows "0 \<le> eb_mem (costing k sizes) \<and> 0 \<le> eb_cpu (costing k sizes)"
proof (cases k)
  case (Costing1 m c)
  then obtain x where "sizes = [x]" using assms(3) by (auto simp: length_Suc_conv)
  then show ?thesis using Costing1 assms by (simp add: cost1_nonneg)
next
  case (Costing2 m c)
  then obtain x y where "sizes = [x, y]" using assms(3) by (auto simp: length_Suc_conv numeral_2_eq_2)
  then show ?thesis using Costing2 assms by (simp add: cost2_nonneg)
next
  case (Costing3 m c)
  then obtain x y z where "sizes = [x, y, z]" using assms(3) by (auto simp: length_Suc_conv numeral_3_eq_3)
  then show ?thesis using Costing3 assms by (simp add: cost3_nonneg)
next
  case (Costing4 m c)
  then have "0 \<le> sizes ! 3" using assms by simp
  then show ?thesis using Costing4 assms by (cases m; cases c) (simp add: linear_nonneg)
next
  case (Costing6 m c)
  then show ?thesis using assms by (cases m; cases c) simp
qed

text \<open>
  C40. With a cost model without negative coefficients, paying for a call of a builtin never
  adds to the remaining budget, saturation of the 64-bit arithmetic included.
\<close>

theorem builtin_costs_never_refund:
  assumes "no_refund (cm_builtin_costs costs f)" "\<forall>x \<in> set sizes. 0 \<le> x"
    and "length sizes = costed_arguments (cm_builtin_costs costs f)"
    and "i64_min \<le> eb_mem budget" "i64_min \<le> eb_cpu budget"
  shows "eb_mem (eb_sub budget (get_cost costs f sizes)) \<le> eb_mem budget \<and>
    eb_cpu (eb_sub budget (get_cost costs f sizes)) \<le> eb_cpu budget"
  using costing_nonneg [OF assms(1-3)] assms(4,5) by (simp add: eb_sub_def get_cost_def sat_sub_le)

definition sample_costs :: cost_model where
  "sample_costs = (let b = \<lparr>eb_mem = 100, eb_cpu = 16000\<rparr> in
    \<lparr>cm_semantics = SemC, cm_case_on_constants = Unavailable,
     cm_machine_costs = \<lparr>mc_startup = b, mc_constant = b, mc_var = b, mc_lambda = b, mc_delay = b, mc_force = b,
       mc_apply = b, mc_constr = b, mc_case = b, mc_builtin = b\<rparr>,
     cm_builtin_costs = (\<lambda>_. Costing2 (MaxSize \<lparr>ls_intercept = 1, ls_slope = 1\<rparr>)
       (MaxSize \<lparr>ls_intercept = 100788, ls_slope = 420\<rparr>))\<rparr>)"

theorem builtin_costs_never_refund_witness:
  "eb_cpu (eb_sub \<lparr>eb_mem = 10, eb_cpu = - 9223372036854775807\<rparr>
     (get_cost sample_costs (FInteger AddInteger) (map (value_size \<lparr>gs_g1 = 18, gs_g2 = 36, gs_ml_result = 72\<rparr>) [VCon (CInteger 7), VCon (CInteger (2 ^ 70))])))
   \<le> - 9223372036854775807"
  using builtin_costs_never_refund [of sample_costs "FInteger AddInteger"
      "map (value_size \<lparr>gs_g1 = 18, gs_g2 = 36, gs_ml_result = 72\<rparr>) [VCon (CInteger 7), VCon (CInteger (2 ^ 70))]" "\<lparr>eb_mem = 10, eb_cpu = - 9223372036854775807\<rparr>"]
  by (simp add: sample_costs_def linear_ok_def i64_min_def Let_def)

end
