(* ===== verification/Uplc_Integers.thy ===== *)
theory Uplc_Integers
  imports Uplc_Costs
begin

text \<open>
  Integer arithmetic of the evaluator (\<open>amaru-uplc/src/integer.rs\<close>): truncated and
  floored division, the range checks, Euclid's extended algorithm, modular powers and
  conversion from and to bytes.
\<close>

section \<open>Definitions\<close>

text \<open>Division that truncates towards zero, as the backends have it.\<close>

definition div_rem :: "int \<Rightarrow> int \<Rightarrow> int \<times> int" where
  "div_rem a b = (sgn a * sgn b * (\<bar>a\<bar> div \<bar>b\<bar>), sgn a * (\<bar>a\<bar> mod \<bar>b\<bar>))"

definition floor_div_mod :: "int \<Rightarrow> int \<Rightarrow> int \<times> int" where
  "floor_div_mod a b =
    (let (quotient, remainder) = div_rem a b in
     if remainder \<noteq> 0 \<and> (a < 0) \<noteq> (b < 0) then (quotient - 1, remainder + b) else (quotient, remainder))"

definition fits_signed_range :: "int \<Rightarrow> nat \<Rightarrow> bool" where
  "fits_signed_range i maximum_bits =
    (if int_bits i \<le> maximum_bits then True
     else if int_bits i \<noteq> maximum_bits + 1 \<or> \<not> i < 0 then False
     else nat \<bar>i\<bar> = 2 ^ maximum_bits)"

definition fits_cardano_range :: "int \<Rightarrow> bool" where
  "fits_cardano_range i = fits_signed_range i 262143"

definition rem_euclid :: "int \<Rightarrow> int \<Rightarrow> int" where
  "rem_euclid a b = a mod \<bar>b\<bar>"

lemma div_rem_eq: "b \<noteq> 0 \<Longrightarrow> a = fst (div_rem a b) * b + snd (div_rem a b)"
proof -
  assume "b \<noteq> 0"
  have "\<bar>a\<bar> = (\<bar>a\<bar> div \<bar>b\<bar>) * \<bar>b\<bar> + \<bar>a\<bar> mod \<bar>b\<bar>" by simp
  then have "sgn a * \<bar>a\<bar> = sgn a * ((\<bar>a\<bar> div \<bar>b\<bar>) * \<bar>b\<bar> + \<bar>a\<bar> mod \<bar>b\<bar>)" by simp
  also have "\<dots> = sgn a * (\<bar>a\<bar> div \<bar>b\<bar>) * (sgn b * b) + sgn a * (\<bar>a\<bar> mod \<bar>b\<bar>)" by (simp add: algebra_simps abs_sgn)
  finally show ?thesis by (simp add: div_rem_def mult.assoc mult.left_commute sgn_mult_abs)
qed

lemma div_rem_bound: "b \<noteq> 0 \<Longrightarrow> \<bar>snd (div_rem a b)\<bar> < \<bar>b\<bar>"
  by (cases "a = 0") (simp_all add: div_rem_def abs_mult)

function egcd_loop :: "int \<Rightarrow> int \<Rightarrow> int \<Rightarrow> int \<Rightarrow> int \<Rightarrow> int \<Rightarrow> nat \<times> int \<times> int" where
  "egcd_loop old_r r old_s s old_t t =
    (if r = 0 then (nat \<bar>old_r\<bar>, old_s, old_t)
     else let quotient = fst (div_rem old_r r) in
       egcd_loop r (old_r - quotient * r) s (old_s - quotient * s) t (old_t - quotient * t))"
  by pat_completeness auto

termination
proof (relation "measure (\<lambda>(_, r, _). nat \<bar>r\<bar>)")
  fix old_r r old_s s old_t t quotient :: int
  assume "r \<noteq> 0" and q: "quotient = fst (div_rem old_r r)"
  then have "old_r - quotient * r = snd (div_rem old_r r)" using div_rem_eq [of r old_r] by simp
  then have "\<bar>old_r - quotient * r\<bar> < \<bar>r\<bar>" using div_rem_bound [OF \<open>r \<noteq> 0\<close>, of old_r] by simp
  then show "((r, old_r - quotient * r, s, old_s - quotient * s, t, old_t - quotient * t), old_r, r, old_s, s, old_t, t)
      \<in> measure (\<lambda>(_, r, _). nat \<bar>r\<bar>)" by simp
qed simp

declare egcd_loop.simps [simp del]

definition extended_gcd :: "int \<Rightarrow> int \<Rightarrow> nat \<times> int \<times> int" where
  "extended_gcd a b = egcd_loop a b 1 0 0 1"

function mod_pow_loop :: "nat \<Rightarrow> nat \<Rightarrow> nat \<Rightarrow> nat \<Rightarrow> nat" where
  "mod_pow_loop base exponent modulus result =
    (if exponent = 0 then result
     else mod_pow_loop ((base * base) mod modulus) (exponent div 2) modulus
       (if odd exponent then (result * base) mod modulus else result))"
  by pat_completeness auto
termination by (relation "measure (\<lambda>(_, e, _). e)") auto

declare mod_pow_loop.simps [simp del]

definition mod_pow :: "nat \<Rightarrow> nat \<Rightarrow> nat \<Rightarrow> nat" where
  "mod_pow base exponent modulus = mod_pow_loop base exponent modulus (1 mod modulus)"

text \<open>\<open>expModInteger\<close> after its costs are paid; an error is a division by zero or an explicit one.\<close>

definition exp_mod_integer :: "int \<Rightarrow> int \<Rightarrow> int \<Rightarrow> (machine_error, int) result" where
  "exp_mod_integer base exponent modulus =
    (if modulus < 0 \<or> modulus = 0 then Err (Runtime (DivisionByZeroInteger base modulus))
     else
       let normalized_base = rem_euclid base modulus;
           e = nat \<bar>exponent\<bar>
       in if exponent < 0 then
            (let (g, inverse, _) = extended_gcd normalized_base modulus in
             if g \<noteq> 1 then Err ExplicitErrorTerm
             else Ok (int (mod_pow (nat \<bar>rem_euclid inverse modulus\<bar>) e (nat modulus))))
          else Ok (int (mod_pow (nat \<bar>normalized_base\<bar>) e (nat modulus))))"

text \<open>The bytes of a natural number, without leading zeros.\<close>

fun le_bytes :: "nat \<Rightarrow> byte list" where
  "le_bytes n = (if n = 0 then [] else word_of_nat (n mod 256) # le_bytes (n div 256))"

declare le_bytes.simps [simp del]

definition to_bytes :: "int \<Rightarrow> bool \<Rightarrow> byte list option" where
  "to_bytes i big_endian =
    (if i < 0 then None else Some (if big_endian then rev (le_bytes (nat i)) else le_bytes (nat i)))"

definition from_le_bytes :: "byte list \<Rightarrow> nat" where
  "from_le_bytes bs = foldr (\<lambda>b n. unat b + 256 * n) bs 0"

definition from_be_bytes :: "byte list \<Rightarrow> nat" where
  "from_be_bytes bs = foldl (\<lambda>n b. 256 * n + unat b) 0 bs"

section \<open>Lemmas\<close>

text \<open>Floored division is the division of HOL.\<close>

lemma floor_div_mod_eq: "b \<noteq> 0 \<Longrightarrow> floor_div_mod a b = (a div b, a mod b)"
proof -
  assume b: "b \<noteq> 0"
  obtain q r where qr: "div_rem a b = (q, r)" by fastforce
  have eq: "a = q * b + r" and bound: "\<bar>r\<bar> < \<bar>b\<bar>" using div_rem_eq [OF b, of a] div_rem_bound [OF b, of a] qr by simp_all
  have "0 \<le> \<bar>a\<bar> mod \<bar>b\<bar>" using b by simp
  then have sign: "0 \<le> a \<Longrightarrow> 0 \<le> r" "a < 0 \<Longrightarrow> r \<le> 0" using qr by (auto simp: div_rem_def sgn_if)
  define q' r' where "q' = fst (floor_div_mod a b)" and "r' = snd (floor_div_mod a b)"
  have f: "q' = (if r \<noteq> 0 \<and> (a < 0) \<noteq> (b < 0) then q - 1 else q)" "r' = (if r \<noteq> 0 \<and> (a < 0) \<noteq> (b < 0) then r + b else r)"
    by (simp_all add: q'_def r'_def floor_div_mod_def qr)
  have eq': "a = b * q' + r'" using eq f by (auto simp: algebra_simps)
  have "(q', r') = (a div b, a mod b)"
  proof (cases "0 < b")
    case True
    then have "0 \<le> r'" "r' < b" using bound sign f by auto
    then show ?thesis using int_div_pos_eq [OF eq'] int_mod_pos_eq [OF eq'] by simp
  next
    case False
    then have "r' \<le> 0" "b < r'" using bound sign f b by auto
    then show ?thesis using int_div_neg_eq [OF eq'] int_mod_neg_eq [OF eq'] by simp
  qed
  then show ?thesis by (simp add: q'_def r'_def prod_eq_iff)
qed

lemma nat_bits_le: "nat_bits n \<le> k \<longleftrightarrow> n < 2 ^ k"
proof (induction n arbitrary: k rule: nat_bits.induct)
  case (1 n)
  show ?case
  proof (cases "n = 0 \<or> k = 0")
    case True
    then show ?thesis by (auto simp: nat_bits.simps [of n])
  next
    case False
    then obtain j where k: "k = Suc j" by (cases k) auto
    have "nat_bits n \<le> k \<longleftrightarrow> nat_bits (n div 2) \<le> j" using False by (simp add: nat_bits.simps [of n] k)
    also have "\<dots> \<longleftrightarrow> n div 2 < 2 ^ j" using 1 False by simp
    also have "\<dots> \<longleftrightarrow> n < 2 ^ k" by (auto simp: k div_less_iff_less_mult)
    finally show ?thesis .
  qed
qed

lemma fits_signed_range_iff: "fits_signed_range i k \<longleftrightarrow> - (2 ^ k) \<le> i \<and> i < 2 ^ k"
proof -
  have le: "int_bits i \<le> m \<longleftrightarrow> \<bar>i\<bar> < 2 ^ m" for m
    unfolding int_bits_def nat_bits_le by (simp add: nat_less_iff)
  have abs: "nat \<bar>i\<bar> = 2 ^ k \<longleftrightarrow> \<bar>i\<bar> = 2 ^ k" by (metis abs_ge_zero int_nat_eq nat_int of_nat_numeral of_nat_power)
  show ?thesis
  proof (cases "int_bits i \<le> k")
    case True
    then show ?thesis using le [of k] by (auto simp: fits_signed_range_def)
  next
    case False
    then have big: "2 ^ k \<le> \<bar>i\<bar>" using le [of k] by simp
    have "\<bar>i\<bar> = 2 ^ k \<Longrightarrow> int_bits i \<le> k + 1" using le [of "k + 1"] by simp
    moreover have "- (2 ^ k) \<le> i \<and> i < 2 ^ k \<longleftrightarrow> i < 0 \<and> \<bar>i\<bar> = 2 ^ k" using big by linarith
    ultimately show ?thesis using False by (auto simp: fits_signed_range_def abs)
  qed
qed

lemma egcd_loop_bezout:
  assumes "old_r = old_s * a + old_t * b" and "r = s * a + t * b" and "gcd old_r r = gcd a b"
  shows "\<exists>g x y. egcd_loop old_r r old_s s old_t t = (g, x, y) \<and> int g = gcd a b \<and> \<bar>x * a + y * b\<bar> = gcd a b \<and>
    (0 \<le> old_r \<longrightarrow> 0 \<le> r \<longrightarrow> x * a + y * b = gcd a b)"
  using assms
proof (induction old_r r old_s s old_t t rule: egcd_loop.induct)
  case (1 old_r r old_s s old_t t)
  show ?case
  proof (cases "r = 0")
    case True
    then have "egcd_loop old_r r old_s s old_t t = (nat \<bar>old_r\<bar>, old_s, old_t)" by (simp add: egcd_loop.simps [of old_r 0])
    moreover have "\<bar>old_r\<bar> = gcd a b" using "1.prems"(3) True by simp
    ultimately show ?thesis using "1.prems"(1) by auto
  next
    case False
    let ?q = "fst (div_rem old_r r)"
    have rem: "old_r - ?q * r = snd (div_rem old_r r)" using div_rem_eq [OF False, of old_r] by simp
    have "gcd r (old_r - ?q * r) = gcd old_r r"
      using gcd_add_mult [of r "- ?q" old_r] by (simp add: gcd.commute algebra_simps)
    moreover have "old_r - ?q * r = (old_s - ?q * s) * a + (old_t - ?q * t) * b" using "1.prems"(1,2) by (simp add: algebra_simps)
    ultimately have "\<exists>g x y. egcd_loop r (old_r - ?q * r) s (old_s - ?q * s) t (old_t - ?q * t) = (g, x, y) \<and> int g = gcd a b \<and>
        \<bar>x * a + y * b\<bar> = gcd a b \<and> (0 \<le> r \<longrightarrow> 0 \<le> old_r - ?q * r \<longrightarrow> x * a + y * b = gcd a b)"
      using "1.IH" [OF False refl] "1.prems"(2,3) by simp
    moreover have "0 \<le> old_r \<Longrightarrow> 0 \<le> old_r - ?q * r" unfolding rem using False by (auto simp: div_rem_def sgn_if)
    ultimately show ?thesis using False by (auto simp: egcd_loop.simps [of old_r r] Let_def)
  qed
qed

lemma extended_gcd_bezout:
  assumes "0 \<le> a" and "0 \<le> b"
  shows "\<exists>g x y. extended_gcd a b = (g, x, y) \<and> int g = gcd a b \<and> x * a + y * b = gcd a b"
  using egcd_loop_bezout [of a 1 a 0 b b 0 1] assms unfolding extended_gcd_def by fastforce

lemma mod_pow_loop_eq: "0 < m \<Longrightarrow> result < m \<Longrightarrow> mod_pow_loop b e m result = (result * b ^ e) mod m"
proof (induction b e m result rule: mod_pow_loop.induct)
  case (1 b e m result)
  show ?case
  proof (cases "e = 0")
    case True
    then show ?thesis using "1.prems" by (simp add: mod_pow_loop.simps [of b 0])
  next
    case False
    have sq: "((b * b) mod m) ^ (e div 2) mod m = b ^ (2 * (e div 2)) mod m"
      by (simp add: power_mod power_mult power2_eq_square)
    let ?r = "if odd e then (result * b) mod m else result"
    have "mod_pow_loop b e m result = mod_pow_loop ((b * b) mod m) (e div 2) m ?r" using False by (simp add: mod_pow_loop.simps [of b e])
    also have "\<dots> = (?r * ((b * b) mod m) ^ (e div 2)) mod m" using "1.IH" [OF False] "1.prems" by auto
    also have "\<dots> = (?r * b ^ (2 * (e div 2))) mod m" using sq by (metis mod_mult_right_eq)
    also have "\<dots> = (result * b ^ e) mod m"
    proof (cases "odd e")
      case True
      then have "e = Suc (2 * (e div 2))" by simp
      then have "b ^ e = b * b ^ (2 * (e div 2))" by (metis power_Suc)
      then show ?thesis using True by (simp add: mod_mult_left_eq mult.assoc)
    qed simp
    finally show ?thesis .
  qed
qed

lemma mod_pow_eq: "0 < m \<Longrightarrow> mod_pow b e m = b ^ e mod m"
  using mod_pow_loop_eq [of m "1 mod m" b e] by (simp add: mod_pow_def mod_mult_left_eq)

lemma from_le_bytes_inverse: "from_le_bytes (le_bytes n) = n"
proof (induction n rule: le_bytes.induct)
  case (1 n)
  then show ?case
    by (cases "n = 0") (simp_all add: le_bytes.simps [of n] le_bytes.simps [of 0] from_le_bytes_def unat_of_nat)
qed

lemma from_be_bytes_rev: "from_be_bytes bs = from_le_bytes (rev bs)"
  by (simp add: from_be_bytes_def from_le_bytes_def foldr_conv_foldl add.commute)

lemma from_le_bytes_bound: "from_le_bytes bs < 256 ^ length bs"
proof (induction bs)
  case (Cons b bs)
  have "unat b < 256" using unsigned_less [of b] by simp
  moreover have "256 * from_le_bytes bs + 256 \<le> 256 * 256 ^ length bs" using Cons by simp
  ultimately show ?case by (simp add: from_le_bytes_def)
qed (simp add: from_le_bytes_def)

lemma from_le_bytes_append: "from_le_bytes (xs @ ys) = from_le_bytes xs + 256 ^ length xs * from_le_bytes ys"
  by (induction xs) (simp_all add: from_le_bytes_def algebra_simps)

section \<open>Modular exponentiation\<close>

lemma gcd_normalised: "gcd (b mod m) m = gcd b (m :: int)"
  by (simp add: gcd.commute gcd_red_int [symmetric])

lemma inverse_power:
  assumes "x * (b mod m) + y * m = (1 :: int)"
  shows "((x mod m) ^ k mod m) * b ^ k mod m = 1 mod m"
proof -
  have "x * b mod m = x * (b mod m) mod m" by (simp add: mod_mult_right_eq)
  also have "\<dots> = (x * (b mod m) + y * m) mod m" by simp
  also have "\<dots> = 1 mod m" using assms by simp
  finally have xb: "x * b mod m = 1 mod m" .
  have "((x mod m) ^ k mod m) * b ^ k mod m = x ^ k * b ^ k mod m" by (simp add: power_mod mod_mult_left_eq)
  also have "\<dots> = (x * b mod m) ^ k mod m" by (simp add: power_mult_distrib power_mod)
  also have "\<dots> = 1 mod m" unfolding xb by (simp add: power_mod)
  finally show ?thesis .
qed

lemma int_mod_pow: "0 < m \<Longrightarrow> 0 \<le> a \<Longrightarrow> int (mod_pow (nat a) k (nat m)) = a ^ k mod m"
  by (simp add: mod_pow_eq zmod_int)

text \<open>
  C39. \<open>expModInteger\<close> raises to the power modulo a positive modulus; for a negative exponent
  it gives the inverse of the power, and fails exactly when there is none.
\<close>

theorem exp_mod_integer_correct:
  "if m \<le> 0 then exp_mod_integer b e m = Err (Runtime (DivisionByZeroInteger b m))
   else if 0 \<le> e then exp_mod_integer b e m = Ok (b ^ nat e mod m)
   else if gcd b m = 1 then
     \<exists>r. exp_mod_integer b e m = Ok r \<and> 0 \<le> r \<and> r < m \<and> r * b ^ nat (- e) mod m = 1 mod m
   else exp_mod_integer b e m = Err ExplicitErrorTerm"
proof (cases "0 < m")
  case m: True
  then have base: "rem_euclid a m = a mod m" "0 \<le> a mod m" for a by (simp_all add: rem_euclid_def)
  show ?thesis
  proof (cases "0 \<le> e")
    case True
    then show ?thesis using m by (simp add: exp_mod_integer_def Let_def base int_mod_pow power_mod)
  next
    case False
    obtain g x y where g: "extended_gcd (b mod m) m = (g, x, y)" "int g = gcd b m" "x * (b mod m) + y * m = gcd b m"
      using extended_gcd_bezout [of "b mod m" m] base(2) m by (auto simp: gcd_normalised)
    have g1: "g = 1 \<longleftrightarrow> gcd b m = 1" using g(2) by linarith
    let ?r = "(x mod m) ^ nat (- e) mod m"
    have "exp_mod_integer b e m = (if g = 1 then Ok ?r else Err ExplicitErrorTerm)"
      using m False g(1) by (simp add: exp_mod_integer_def Let_def base int_mod_pow)
    moreover have "?r * b ^ nat (- e) mod m = 1 mod m" if "gcd b m = 1"
      using inverse_power g(3) that by metis
    ultimately show ?thesis using m False g1 by simp
  qed
qed (auto simp: exp_mod_integer_def)

end
