(* ===== verification/Uplc_Bytes.thy ===== *)
theory Uplc_Bytes
  imports Uplc_Integers "HOL-Library.Code_Target_Nat"
begin

unbundle bit_operations_syntax

text \<open>
  Operations on byte strings, as the builtins compute them byte by byte
  (\<open>amaru-uplc/src/machine/runtime.rs\<close>), related to the string of bits they work on.
\<close>

section \<open>Operations\<close>

definition clamp_index :: "int \<Rightarrow> nat \<Rightarrow> nat" where
  "clamp_index i len = (if i < 0 then 0 else if int len < i then len else nat i)"

definition slice_byte_string :: "int \<Rightarrow> int \<Rightarrow> byte list \<Rightarrow> byte list" where
  "slice_byte_string from_ix count bs =
    (let skip = clamp_index from_ix (length bs);
         to_take = clamp_index count (length bs);
         skip_take = (if skip + to_take > length bs then length bs else skip + to_take)
     in take (skip_take - skip) (drop skip bs))"

definition byte_at :: "byte \<Rightarrow> byte list \<Rightarrow> nat \<Rightarrow> byte" where
  "byte_at default_byte bs i = (if i < length bs then bs ! i else default_byte)"

text \<open>The bitwise operations of two strings, padded to the longer or cut to the shorter one.\<close>

definition combine_bytes :: "(byte \<Rightarrow> byte \<Rightarrow> byte) \<Rightarrow> byte \<Rightarrow> bool \<Rightarrow> byte list \<Rightarrow> byte list \<Rightarrow> byte list" where
  "combine_bytes f pad should_pad left right =
    (if should_pad then map (\<lambda>i. f (byte_at pad left i) (byte_at pad right i)) [0 ..< max (length left) (length right)]
     else map (\<lambda>(a, b). f a b) (zip left right))"

definition and_byte_string :: "bool \<Rightarrow> byte list \<Rightarrow> byte list \<Rightarrow> byte list" where
  "and_byte_string = combine_bytes (AND) 0xFF"

definition or_byte_string :: "bool \<Rightarrow> byte list \<Rightarrow> byte list \<Rightarrow> byte list" where
  "or_byte_string = combine_bytes (OR) 0"

definition xor_byte_string :: "bool \<Rightarrow> byte list \<Rightarrow> byte list \<Rightarrow> byte list" where
  "xor_byte_string = combine_bytes (XOR) 0"

definition complement_byte_string :: "byte list \<Rightarrow> byte list" where
  "complement_byte_string bs = map (\<lambda>b. b XOR 255) bs"

definition read_bit :: "byte list \<Rightarrow> int \<Rightarrow> (runtime_error, bool) result" where
  "read_bit bs bit_index =
    (if bs = [] then Err EmptyByteArray
     else if bit_index < 0 \<or> int (length bs * 8) \<le> bit_index then Err (ReadBitOutOfBounds bit_index (length bs * 8))
     else
       let (byte_index, bit_offset) = div_rem bit_index 8;
           flipped_index = length bs - 1 - nat byte_index;
           b = bs ! flipped_index
       in Ok (drop_bit (nat bit_offset) b AND 1 = 1))"

definition write_bit :: "bool \<Rightarrow> int \<Rightarrow> byte list \<Rightarrow> (runtime_error, byte list) result" where
  "write_bit set_to bit_index bs =
    (if bit_index < 0 \<or> int (length bs * 8) \<le> bit_index then Err (WriteBitsOutOfBounds bit_index (length bs * 8))
     else
       let (byte_index, bit_offset) = div_rem bit_index 8;
           flipped_index = length bs - 1 - nat byte_index;
           bit_mask = push_bit (nat bit_offset) 1
       in Ok (if set_to then bs[flipped_index := bs ! flipped_index OR bit_mask]
              else bs[flipped_index := bs ! flipped_index AND NOT bit_mask]))"

definition write_bits :: "byte list \<Rightarrow> int list \<Rightarrow> bool \<Rightarrow> (runtime_error, byte list) result" where
  "write_bits bs indices set_to = try_fold (write_bit set_to) indices bs"

definition write_bits_bounded :: "semantics \<Rightarrow> byte list \<Rightarrow> int list \<Rightarrow> bool \<Rightarrow> (runtime_error, byte list) result" where
  "write_bits_bounded sem bs indices set_to =
    (if bounds_write_bits_input_length sem \<and> 4096 < length bs then Err (WriteBitsInputTooLong (length bs) 4096)
     else write_bits bs indices set_to)"

definition shift_left :: "byte list \<Rightarrow> nat \<Rightarrow> nat \<Rightarrow> byte list" where
  "shift_left bs byte_shift bit_shift =
    (if bit_shift = 0 then drop byte_shift bs @ replicate byte_shift 0
     else
       map (\<lambda>i. let src = i + byte_shift in
           if src + 1 < length bs then push_bit bit_shift (bs ! src) OR drop_bit (8 - bit_shift) (bs ! (src + 1))
           else push_bit bit_shift (bs ! src)) [0 ..< length bs - byte_shift]
         @ replicate byte_shift 0)"

definition shift_right :: "byte list \<Rightarrow> nat \<Rightarrow> nat \<Rightarrow> byte list" where
  "shift_right bs byte_shift bit_shift =
    (if bit_shift = 0 then replicate byte_shift 0 @ take (length bs - byte_shift) bs
     else
       replicate byte_shift 0 @
       map (\<lambda>i. if 0 < i then drop_bit bit_shift (bs ! i) OR push_bit (8 - bit_shift) (bs ! (i - 1))
           else drop_bit bit_shift (bs ! i)) [0 ..< length bs - byte_shift])"

definition shift_byte_string :: "byte list \<Rightarrow> int \<Rightarrow> byte list" where
  "shift_byte_string bs shift =
    (let shift_abs = nat \<bar>shift\<bar> in
     if length bs * 8 \<le> shift_abs then replicate (length bs) 0
     else
       let byte_shift = shift_abs div 8; bit_shift = shift_abs mod 8 in
       if \<not> shift < 0 then shift_left bs byte_shift bit_shift else shift_right bs byte_shift bit_shift)"

definition rotate_left :: "byte list \<Rightarrow> nat \<Rightarrow> nat \<Rightarrow> byte list" where
  "rotate_left bs byte_shift bit_shift =
    (if bit_shift = 0 then drop byte_shift bs @ take byte_shift bs
     else
       let complement_shift = 8 - bit_shift;
           wraparound_bits = drop_bit complement_shift (bs ! 0)
       in map (\<lambda>i. let src = i + byte_shift in
               push_bit bit_shift (bs ! src) OR
               (if src + 1 < length bs then drop_bit complement_shift (bs ! (src + 1))
                else if 0 < byte_shift then drop_bit complement_shift (bs ! 0)
                else wraparound_bits)) [0 ..< length bs - byte_shift]
           @ map (\<lambda>i. push_bit bit_shift (bs ! i) OR
               (if i + 1 < byte_shift then drop_bit complement_shift (bs ! (i + 1))
                else drop_bit complement_shift (bs ! byte_shift))) [0 ..< byte_shift])"

definition rotate_byte_string :: "byte list \<Rightarrow> int \<Rightarrow> byte list" where
  "rotate_byte_string bs shift =
    (if bs = [] then bs
     else
       let n = nat \<bar>rem_euclid shift (int (length bs * 8))\<bar> in
       if n = 0 then bs else rotate_left bs (n div 8) (n mod 8))"

fun find_set :: "nat \<Rightarrow> byte list \<Rightarrow> int" where
  "find_set _ [] = -1" |
  "find_set byte_index (b # bs) =
    (if b = 0 then find_set (byte_index + 1) bs
     else int (length (takeWhile (\<lambda>k. \<not> bit b k) [0 ..< 8]) + byte_index * 8))"

text \<open>Reversing the bits of a byte and counting leading zeros is counting trailing zeros.\<close>

definition find_first_set_bit :: "byte list \<Rightarrow> int" where
  "find_first_set_bit bs = find_set 0 (rev bs)"

text \<open>Conversions of integers: the checks of the size come before the costs are paid, the others after.\<close>

definition max_byte_string_output_length :: int where
  "max_byte_string_output_length = 8192"

definition integer_to_byte_string :: "bool \<Rightarrow> int \<Rightarrow> int \<Rightarrow> (runtime_error, byte list) result" where
  "integer_to_byte_string endianness sz input =
    (if sz < 0 then Err (IntegerToByteStringNegativeSize sz)
     else if max_byte_string_output_length < sz then
       Err (IntegerToByteStringSizeTooBig sz max_byte_string_output_length)
     else if sz = 0 \<and> 8 * max_byte_string_output_length \<le> integer_log2 input then
       Err (IntegerToByteStringSizeTooBig (integer_log2 input div 8 + 1) max_byte_string_output_length)
     else case to_bytes input endianness of
       None \<Rightarrow> Err (IntegerToByteStringNegativeInput input)
     | Some bytes \<Rightarrow>
         if input = 0 then Ok (replicate (nat sz) 0)
         else if sz \<noteq> 0 \<and> nat sz < length bytes then Err (IntegerToByteStringSizeTooSmall sz (length bytes))
         else if 0 < nat sz then
           (let padding = replicate (nat sz - length bytes) 0 in
            Ok (if endianness then padding @ bytes else bytes @ padding))
         else Ok bytes)"

definition byte_string_to_integer :: "bool \<Rightarrow> byte list \<Rightarrow> int" where
  "byte_string_to_integer endianness bs = int (if endianness then from_be_bytes bs else from_le_bytes bs)"

section \<open>The string of bits\<close>

text \<open>The bits of a byte string, the most significant one first.\<close>

definition byte_bits :: "byte \<Rightarrow> bool list" where
  "byte_bits b = map (\<lambda>k. bit b (7 - k)) [0 ..< 8]"

definition to_bits :: "byte list \<Rightarrow> bool list" where
  "to_bits bs = concat (map byte_bits bs)"

lemma length_byte_bits [simp]: "length (byte_bits b) = 8"
  by (simp add: byte_bits_def)

lemma length_to_bits [simp]: "length (to_bits bs) = 8 * length bs"
  by (induction bs) (simp_all add: to_bits_def)

lemma nth_to_bits: "k < 8 * length bs \<Longrightarrow> to_bits bs ! k = bit (bs ! (k div 8)) (7 - k mod 8)"
proof (induction bs arbitrary: k)
  case (Cons b bs)
  show ?case
  proof (cases "k < 8")
    case True
    then have "k div 8 = 0" "k mod 8 = k" by auto
    then show ?thesis using True by (simp add: to_bits_def nth_append byte_bits_def)
  next
    case False
    then have "to_bits (b # bs) ! k = to_bits bs ! (k - 8)" by (simp add: to_bits_def nth_append)
    also have "\<dots> = bit (bs ! ((k - 8) div 8)) (7 - (k - 8) mod 8)" using Cons False by simp
    moreover have "k div 8 = Suc ((k - 8) div 8)" "(k - 8) mod 8 = k mod 8" using False by (simp_all add: le_div_geq le_mod_geq)
    ultimately show ?thesis by simp
  qed
qed simp

lemma to_bits_append: "to_bits (xs @ ys) = to_bits xs @ to_bits ys"
  by (simp add: to_bits_def)

lemma to_bits_zero: "to_bits (replicate n 0) = replicate (8 * n) False"
  by (induction n) (simp_all add: to_bits_def byte_bits_def eval_nat_numeral)

lemma bit_byte_shifts:
  fixes w :: byte
  shows "bit (push_bit n w) k \<longleftrightarrow> k < 8 \<and> n \<le> k \<and> bit w (k - n)"
    and "bit (drop_bit n w) k \<longleftrightarrow> bit w (n + k)"
    and "8 \<le> k \<Longrightarrow> \<not> bit w k"
  using bit_imp_le_length [of w k] by (auto simp: bit_simps)

lemma length_shifts [simp]:
  "byte_shift \<le> length bs \<Longrightarrow> length (shift_left bs byte_shift bit_shift) = length bs"
  "byte_shift \<le> length bs \<Longrightarrow> length (shift_right bs byte_shift bit_shift) = length bs"
  by (simp_all add: shift_left_def shift_right_def)

text \<open>Bit \<open>r\<close> of byte \<open>q\<close>, and the bit \<open>s\<close> further.\<close>

lemma nth_to_bits_at: "q < length bs \<Longrightarrow> r < 8 \<Longrightarrow> to_bits bs ! (8 * q + r) = bit (bs ! q) (7 - r)"
  by (simp add: nth_to_bits)

lemma nth_to_bits_further:
  assumes "q < length bs" "r < 8" "s < 8" "\<not> r + s < 8 \<longrightarrow> Suc q < length bs"
  shows "to_bits bs ! (8 * q + (r + s))
    = (if r + s < 8 then bit (bs ! q) (7 - (r + s)) else bit (bs ! Suc q) (15 - (r + s)))"
proof (cases "r + s < 8")
  case False
  then have "8 * q + (r + s) = 8 * Suc q + (r + s - 8)" by simp
  then show ?thesis using False assms nth_to_bits_at [of "Suc q" bs "r + s - 8"] by (simp add: Suc_diff_le)
qed (use assms nth_to_bits_at [of q bs "r + s"] in simp)

lemma to_bits_eqI:
  assumes "length xs = 8 * length bs"
    and "\<And>q r. q < length bs \<Longrightarrow> r < 8 \<Longrightarrow> bit (bs ! q) (7 - r) = xs ! (8 * q + r)"
  shows "to_bits bs = xs"
proof (rule nth_equalityI)
  fix k assume "k < length (to_bits bs)"
  then have "k div 8 < length bs" "k mod 8 < 8" by auto
  then show "to_bits bs ! k = xs ! k"
    using nth_to_bits_at [of "k div 8" bs "k mod 8"] assms(2) [of "k div 8" "k mod 8"] by simp
qed (use assms in simp)

text \<open>Shifting the bytes shifts the string of bits, filling with zeros.\<close>

lemma to_bits_shift_left:
  assumes "8 * byte_shift + bit_shift < 8 * length bs" "bit_shift < 8"
  shows "to_bits (shift_left bs byte_shift bit_shift)
      = drop (8 * byte_shift + bit_shift) (to_bits bs) @ replicate (8 * byte_shift + bit_shift) False"
    (is "_ = ?xs")
proof (rule to_bits_eqI)
  have len: "length (shift_left bs byte_shift bit_shift) = length bs" using assms by simp
  then show "length ?xs = 8 * length (shift_left bs byte_shift bit_shift)" using assms by simp
  fix q r :: nat
  assume "q < length (shift_left bs byte_shift bit_shift)" and r: "r < 8"
  then have q: "q < length bs" using len by simp
  have "8 * q + r + (8 * byte_shift + bit_shift) < 8 * length bs
      \<longleftrightarrow> (if r + bit_shift < 8 then q + byte_shift < length bs else Suc (q + byte_shift) < length bs)"
    using assms r by auto
  then have "?xs ! (8 * q + r)
      = (if r + bit_shift < 8 then q + byte_shift < length bs \<and> bit (bs ! (q + byte_shift)) (7 - (r + bit_shift))
         else Suc (q + byte_shift) < length bs \<and> bit (bs ! Suc (q + byte_shift)) (15 - (r + bit_shift)))"
    using nth_to_bits_further [of "q + byte_shift" bs r bit_shift] q r assms
    by (auto simp: nth_append algebra_simps)
  moreover have "bit (shift_left bs byte_shift bit_shift ! q) (7 - r)
      = (if r + bit_shift < 8 then q + byte_shift < length bs \<and> bit (bs ! (q + byte_shift)) (7 - (r + bit_shift))
         else Suc (q + byte_shift) < length bs \<and> bit (bs ! Suc (q + byte_shift)) (15 - (r + bit_shift)))"
    using q r assms(2)
    by (auto simp: shift_left_def Let_def nth_append bit_or_iff bit_byte_shifts add_ac)
  ultimately show "bit (shift_left bs byte_shift bit_shift ! q) (7 - r) = ?xs ! (8 * q + r)" by simp
qed

lemma to_bits_shift_right:
  assumes "8 * byte_shift + bit_shift < 8 * length bs" "bit_shift < 8"
  shows "to_bits (shift_right bs byte_shift bit_shift)
      = replicate (8 * byte_shift + bit_shift) False
        @ take (8 * length bs - (8 * byte_shift + bit_shift)) (to_bits bs)"
    (is "_ = ?xs")
proof (rule to_bits_eqI)
  have len: "length (shift_right bs byte_shift bit_shift) = length bs" using assms by simp
  then show "length ?xs = 8 * length (shift_right bs byte_shift bit_shift)" using assms by simp
  fix q r :: nat
  assume "q < length (shift_right bs byte_shift bit_shift)" and r: "r < 8"
  then have q: "q < length bs" using len by simp
  let ?bit = "if bit_shift \<le> r then byte_shift \<le> q \<and> bit (bs ! (q - byte_shift)) (7 - (r - bit_shift))
    else byte_shift < q \<and> bit (bs ! (q - byte_shift - 1)) (bit_shift - r - 1)"
  have "?xs ! (8 * q + r) = ?bit"
  proof (cases "bit_shift \<le> r")
    case True
    then have "8 * byte_shift + bit_shift \<le> 8 * q + r \<longleftrightarrow> byte_shift \<le> q" using r assms by auto
    moreover have "byte_shift \<le> q \<Longrightarrow> 8 * q + r - (8 * byte_shift + bit_shift) = 8 * (q - byte_shift) + (r - bit_shift)"
      using True by simp
    ultimately show ?thesis
      using True q r assms nth_to_bits_at [of "q - byte_shift" bs "r - bit_shift"] by (auto simp: nth_append not_less)
  next
    case False
    then have "8 * byte_shift + bit_shift \<le> 8 * q + r \<longleftrightarrow> byte_shift < q" using r assms by auto
    moreover have "byte_shift < q \<Longrightarrow>
        8 * q + r - (8 * byte_shift + bit_shift) = 8 * (q - byte_shift - 1) + (8 + r - bit_shift)"
      using False assms by simp
    moreover have "7 - (8 + r - bit_shift) = bit_shift - r - 1" using False assms by arith
    ultimately show ?thesis
      using False q r assms nth_to_bits_at [of "q - byte_shift - 1" bs "8 + r - bit_shift"]
      by (auto simp: nth_append not_less)
  qed
  moreover have "bit (shift_right bs byte_shift bit_shift ! q) (7 - r) = ?bit"
    using q r assms(2)
    by (auto simp: shift_right_def Let_def nth_append bit_or_iff bit_byte_shifts add_ac)
  ultimately show "bit (shift_right bs byte_shift bit_shift ! q) (7 - r) = ?xs ! (8 * q + r)" by simp
qed

text \<open>The specification of a shift on the string of bits.\<close>

definition shift_bits :: "int \<Rightarrow> bool list \<Rightarrow> bool list" where
  "shift_bits shift xs =
    (let n = min (nat \<bar>shift\<bar>) (length xs) in
     if 0 \<le> shift then drop n xs @ replicate n False else replicate n False @ take (length xs - n) xs)"

lemma to_bits_shift: "to_bits (shift_byte_string bs shift) = shift_bits shift (to_bits bs)"
proof (cases "8 * length bs \<le> nat \<bar>shift\<bar>")
  case True
  then show ?thesis by (simp add: shift_byte_string_def shift_bits_def to_bits_zero min_def Let_def mult.commute)
next
  case False
  let ?n = "nat \<bar>shift\<bar>"
  have n: "8 * (?n div 8) + ?n mod 8 = ?n" by simp
  have lt: "8 * (?n div 8) + ?n mod 8 < 8 * length bs" using False by simp
  have "?n mod 8 < 8" by simp
  note left = to_bits_shift_left [OF lt this] and right = to_bits_shift_right [OF lt this]
  show ?thesis using False left right unfolding n
    by (cases "0 \<le> shift") (simp_all add: shift_byte_string_def shift_bits_def Let_def mult.commute)
qed

lemma length_rotate_left [simp]: "byte_shift \<le> length bs \<Longrightarrow> length (rotate_left bs byte_shift bit_shift) = length bs"
  by (simp add: rotate_left_def Let_def)

text \<open>Rotating the bytes rotates the string of bits.\<close>

lemma nth_rotate_bits:
  assumes "q < length bs" "r < 8" "bit_shift < 8"
  shows "rotate (8 * byte_shift + bit_shift) (to_bits bs) ! (8 * q + r)
    = (if r + bit_shift < 8 then bit (bs ! ((q + byte_shift) mod length bs)) (7 - (r + bit_shift))
       else bit (bs ! (Suc (q + byte_shift) mod length bs)) (15 - (r + bit_shift)))"
proof -
  have at: "to_bits bs ! ((8 * a + t) mod (8 * length bs)) = bit (bs ! (a mod length bs)) (7 - t)" if "t < 8" for a t
  proof -
    have "(8 * a + t) mod (8 * length bs) = 8 * (a mod length bs) + t" using that by (simp add: mod_mult2_eq)
    moreover have "a mod length bs < length bs" using assms(1) by (intro mod_less_divisor) auto
    ultimately show ?thesis using that by (simp add: nth_to_bits_at)
  qed
  have "rotate (8 * byte_shift + bit_shift) (to_bits bs) ! (8 * q + r)
      = to_bits bs ! ((8 * (q + byte_shift) + (r + bit_shift)) mod (8 * length bs))"
    using assms by (simp add: nth_rotate algebra_simps)
  also have "\<dots> = (if r + bit_shift < 8 then bit (bs ! ((q + byte_shift) mod length bs)) (7 - (r + bit_shift))
       else bit (bs ! (Suc (q + byte_shift) mod length bs)) (15 - (r + bit_shift)))"
  proof (cases "r + bit_shift < 8")
    case False
    then have e: "8 * (q + byte_shift) + (r + bit_shift) = 8 * Suc (q + byte_shift) + (r + bit_shift - 8)"
      and "r + bit_shift - 8 < 8" "7 - (r + bit_shift - 8) = 15 - (r + bit_shift)" using assms by auto
    then show ?thesis unfolding e using False by (simp only: at) simp
  qed (simp only: at if_True)
  finally show ?thesis .
qed

lemma to_bits_rotate_left:
  assumes "byte_shift < length bs" "bit_shift < 8"
  shows "to_bits (rotate_left bs byte_shift bit_shift) = rotate (8 * byte_shift + bit_shift) (to_bits bs)"
proof (rule to_bits_eqI)
  have len: "length (rotate_left bs byte_shift bit_shift) = length bs" using assms by simp
  then show "length (rotate (8 * byte_shift + bit_shift) (to_bits bs)) = 8 * length (rotate_left bs byte_shift bit_shift)"
    by simp
  fix q r :: nat
  assume "q < length (rotate_left bs byte_shift bit_shift)" and r: "r < 8"
  then have q: "q < length bs" using len by simp
  have m: "(q + byte_shift) mod length bs = (if q + byte_shift < length bs then q + byte_shift else q + byte_shift - length bs)"
    "Suc (q + byte_shift) mod length bs
      = (if Suc (q + byte_shift) < length bs then Suc (q + byte_shift) else Suc (q + byte_shift) - length bs)"
    using q assms by (auto simp: mod_if)
  show "bit (rotate_left bs byte_shift bit_shift ! q) (7 - r) = rotate (8 * byte_shift + bit_shift) (to_bits bs) ! (8 * q + r)"
    unfolding nth_rotate_bits [OF q r assms(2)] m using q r assms
    by (auto simp: rotate_left_def Let_def nth_append bit_or_iff bit_byte_shifts add_ac not_less Suc_diff_le
        dest: le_antisym)
qed

lemma to_bits_rotate:
  "to_bits (rotate_byte_string bs shift) = rotate (nat (shift mod int (8 * length bs))) (to_bits bs)"
proof (cases "bs = []")
  case False
  define n where "n = nat (shift mod int (8 * length bs))"
  have "shift mod int (8 * length bs) < int (8 * length bs)" "0 \<le> shift mod int (8 * length bs)" using False by simp_all
  then have n: "n < 8 * length bs" "nat \<bar>rem_euclid shift (int (length bs * 8))\<bar> = n"
    by (simp_all add: n_def rem_euclid_def mult.commute)
  then have "n div 8 < length bs" by auto
  from to_bits_rotate_left [OF this, of "n mod 8"] show ?thesis
    using False unfolding n_def [symmetric] rotate_byte_string_def n(2) by (simp add: Let_def)
qed (simp add: rotate_byte_string_def to_bits_def)

section \<open>Reading and writing bits\<close>

definition bit_at :: "byte list \<Rightarrow> nat \<Rightarrow> bool" where
  "bit_at bs i = bit (bs ! (length bs - 1 - i div 8)) (i mod 8)"

lemma div_rem_nat: "div_rem (int i) 8 = (int (i div 8), int (i mod 8))"
  by (cases "i = 0") (simp_all add: div_rem_def zdiv_int zmod_int)

lemma read_bit_iff:
  "read_bit bs i = Ok b \<longleftrightarrow> 0 \<le> i \<and> nat i < 8 * length bs \<and> b = bit_at bs (nat i)"
proof (cases "bs = [] \<or> i < 0 \<or> int (length bs * 8) \<le> i")
  case False
  then have i: "i = int (nat i)" by simp
  have b: "(drop_bit k w AND 1 = 1) = bit w k" for k and w :: byte
    by (simp add: bit_iff_odd_drop_bit and_one_eq odd_iff_mod_2_eq_one)
  have "read_bit bs (int (nat i)) = Ok (bit_at bs (nat i))"
    using False by (simp only: read_bit_def div_rem_nat) (simp add: b bit_at_def)
  then have "read_bit bs i = Ok (bit_at bs (nat i))" using i by simp
  moreover have "0 \<le> i" "nat i < 8 * length bs" using False by auto
  ultimately show ?thesis by auto
qed (auto simp: read_bit_def)

lemma write_bit_ok_iff:
  "write_bit set_to i bs = Ok bs' \<longleftrightarrow> 0 \<le> i \<and> nat i < 8 * length bs \<and>
    bs' = (let q = length bs - 1 - nat i div 8 in
      bs[q := if set_to then bs ! q OR push_bit (nat i mod 8) 1 else bs ! q AND NOT (push_bit (nat i mod 8) 1)])"
proof (cases "i < 0 \<or> int (length bs * 8) \<le> i")
  case False
  then have i: "i = int (nat i)" by simp
  show ?thesis using False
    by (subst i, simp only: write_bit_def div_rem_nat) (auto simp: Let_def)
qed (auto simp: write_bit_def)

lemma bit_at_write:
  assumes "write_bit set_to i bs = Ok bs'" "j < 8 * length bs"
  shows "length bs' = length bs \<and> bit_at bs' j = (if j = nat i then set_to else bit_at bs j)"
proof -
  let ?i = "nat i"
  have i: "?i < 8 * length bs" using assms(1) write_bit_ok_iff by blast
  then have q: "?i div 8 < length bs" "j div 8 < length bs" using assms(2) by auto
  have eq: "j = ?i \<longleftrightarrow> j div 8 = ?i div 8 \<and> j mod 8 = ?i mod 8" by (metis div_mult_mod_eq)
  have eq': "length bs - 1 - j div 8 = length bs - 1 - ?i div 8 \<longleftrightarrow> j div 8 = ?i div 8" using q by linarith
  have "bit (push_bit (?i mod 8) (1 :: byte)) (j mod 8) \<longleftrightarrow> j mod 8 = ?i mod 8"
    using pos_mod_bound [of 8 "int ?i"] by (auto simp: bit_exp_iff push_bit_eq_mult possible_bit_def simp del: push_bit_of_1)
  note mask = this
  define p where "p = length bs - 1 - ?i div 8"
  define w where "w = (if set_to then bs ! p OR push_bit (?i mod 8) 1 else bs ! p AND NOT (push_bit (?i mod 8) 1))"
  have bs': "bs' = bs[p := w]" using assms(1) unfolding write_bit_ok_iff p_def w_def Let_def by blast
  have p: "p < length bs" using q unfolding p_def by linarith
  have w: "bit w (j mod 8) = (if j mod 8 = ?i mod 8 then set_to else bit (bs ! p) (j mod 8))"
    unfolding w_def using mask
    by (cases "j mod 8 = ?i mod 8")
      (simp_all add: bit_or_iff bit_and_iff bit_not_iff possible_bit_def del: push_bit_of_1)
  show ?thesis
  proof (cases "j div 8 = ?i div 8")
    case True
    then have "length bs - 1 - j div 8 = p" by (simp add: p_def)
    then show ?thesis unfolding eq bit_at_def bs' using True p w by (simp only: length_list_update nth_list_update_eq) simp
  next
    case False
    then have "length bs - 1 - j div 8 \<noteq> p" using eq' by (simp add: p_def)
    then show ?thesis unfolding eq bit_at_def bs' using False by (simp only: length_list_update nth_list_update_neq) simp
  qed
qed

lemma bit_at_write_bits:
  "write_bits bs is set_to = Ok bs' \<Longrightarrow> j < 8 * length bs \<Longrightarrow>
    length bs' = length bs \<and> bit_at bs' j = (if int j \<in> set is then set_to else bit_at bs j)"
proof (induction "is" arbitrary: bs)
  case (Cons i "is")
  from Cons.prems(1) obtain bs1 where one: "write_bit set_to i bs = Ok bs1" and rest: "write_bits bs1 is set_to = Ok bs'"
    by (auto simp: write_bits_def res_bind_ok_iff)
  have "0 \<le> i" using one write_bit_ok_iff by blast
  moreover note bit_at_write [OF one Cons.prems(2)]
  moreover have "length bs' = length bs1 \<and> bit_at bs' j = (if int j \<in> set is then set_to else bit_at bs1 j)"
    using Cons.IH [OF rest] calculation Cons.prems(2) by simp
  ultimately show ?case by auto
qed (simp add: write_bits_def)

section \<open>Conversions\<close>

lemma from_le_bytes_zeros: "from_le_bytes (replicate n 0) = 0"
  by (induction n) (simp_all add: from_le_bytes_def)

lemma from_le_bytes_padded: "from_le_bytes (bs @ replicate n 0) = from_le_bytes bs"
  by (simp add: from_le_bytes_append from_le_bytes_zeros)

lemma le_bytes_bound: "n < 256 ^ k \<Longrightarrow> length (le_bytes n) \<le> k"
proof (induction n arbitrary: k rule: le_bytes.induct)
  case (1 n)
  show ?case
  proof (cases "n = 0")
    case False
    then obtain m where k: "k = Suc m" using 1 by (cases k) auto
    then have "n div 256 < 256 ^ m" using 1 by (simp add: less_mult_imp_div_less mult.commute)
    then show ?thesis using 1 False k by (simp add: le_bytes.simps [of n])
  qed (simp add: le_bytes.simps)
qed

lemma integer_to_bytes_roundtrip:
  assumes "integer_to_byte_string be sz i = Ok bs"
  shows "byte_string_to_integer be bs = i" "sz \<noteq> 0 \<Longrightarrow> int (length bs) = sz"
proof -
  have "byte_string_to_integer be bs = i \<and> (sz \<noteq> 0 \<longrightarrow> int (length bs) = sz)"
    using assms
    by (auto simp: integer_to_byte_string_def byte_string_to_integer_def to_bytes_def Let_def from_be_bytes_rev
        from_le_bytes_padded from_le_bytes_zeros from_le_bytes_inverse split: if_splits)
  then show "byte_string_to_integer be bs = i" "sz \<noteq> 0 \<Longrightarrow> int (length bs) = sz" by simp_all
qed

lemma write_bits_indices:
  "write_bits bs is set_to = Ok bs' \<Longrightarrow> length bs' = length bs \<and> (\<forall>i \<in> set is. 0 \<le> i \<and> nat i < 8 * length bs)"
proof (induction "is" arbitrary: bs)
  case (Cons i "is")
  from Cons.prems obtain bs1 where one: "write_bit set_to i bs = Ok bs1" and rest: "write_bits bs1 is set_to = Ok bs'"
    by (auto simp: write_bits_def res_bind_ok_iff)
  have "0 \<le> i \<and> nat i < 8 * length bs" "length bs1 = length bs"
    using one unfolding write_bit_ok_iff by (auto simp: Let_def)
  then show ?case using Cons.IH [OF rest] by simp
qed (simp add: write_bits_def)

lemma read_bit_error: "\<not> (0 \<le> i \<and> nat i < 8 * length bs) \<Longrightarrow> length bs' = length bs \<Longrightarrow> read_bit bs' i = read_bit bs i"
  by (cases "bs = []"; cases "bs' = []") (auto simp: read_bit_def)

section \<open>Properties\<close>

text \<open>
  C12. Shifting a byte string by whole and partial bytes shifts its string of bits and fills
  with zeros; rotating it rotates the bits, by the shift modulo the number of bits.
\<close>

theorem shifts_and_rotations_act_on_bits:
  "to_bits (shift_byte_string bs n) = shift_bits n (to_bits bs) \<and>
   to_bits (rotate_byte_string bs n) = rotate (nat (n mod int (8 * length bs))) (to_bits bs)"
  by (simp only: to_bits_shift to_bits_rotate)

text \<open>
  C16. After bits are written the written indices read as what was written and all others,
  also those out of bounds, as before.
\<close>

theorem written_bits_read_back:
  assumes "write_bits_bounded sem bs is b = Ok bs'"
  shows "length bs' = length bs \<and> read_bit bs' i = (if i \<in> set is then Ok b else read_bit bs i)"
proof -
  have w: "write_bits bs is b = Ok bs'" using assms by (auto simp: write_bits_bounded_def split: if_splits)
  note ok = write_bits_indices [OF w]
  show ?thesis
  proof (cases "0 \<le> i \<and> nat i < 8 * length bs")
    case True
    then have "read_bit bs' i = Ok (bit_at bs' (nat i))" "read_bit bs i = Ok (bit_at bs (nat i))"
      using ok by (simp_all add: read_bit_iff)
    then show ?thesis using True ok bit_at_write_bits [OF w, of "nat i"] by simp
  next
    case False
    then have "i \<notin> set is" using ok by blast
    then show ?thesis using read_bit_error [OF False, of bs'] ok by simp
  qed
qed

theorem written_bits_read_back_witness:
  "\<exists>bs'. write_bits_bounded SemE [0, 0x80] [1, 9] True = Ok bs' \<and> read_bit bs' 9 = Ok True \<and> read_bit bs' 7 = Ok True \<and>
    read_bit bs' 16 = Err (ReadBitOutOfBounds 16 16)"
proof -
  have w: "write_bits_bounded SemE [0, 0x80] [1, 9] True = Ok [2, 0x82]"
    and r: "read_bit [0, 0x80] 7 = Ok True" "read_bit [0, 0x80] 16 = Err (ReadBitOutOfBounds 16 16)" by code_simp+
  show ?thesis
    using w r written_bits_read_back [OF w, of 9] written_bits_read_back [OF w, of 7] written_bits_read_back [OF w, of 16]
    by simp
qed

text \<open>
  C38. An integer converted to bytes of either endianness converts back to itself and has the
  requested size; the conversion fails only for a negative or too great size, for negative
  integers and for those that do not fit in the size, or in the greatest size if none is
  requested.
\<close>

theorem integer_bytes_round_trip:
  "case integer_to_byte_string be sz i of
      Inr bs \<Rightarrow> byte_string_to_integer be bs = i \<and> (sz = 0 \<or> int (length bs) = sz)
    | Inl e \<Rightarrow> sz < 0 \<or> max_byte_string_output_length < sz \<or> i < 0 \<or>
        256 ^ nat (if sz = 0 then max_byte_string_output_length else sz) \<le> i"
proof (cases "integer_to_byte_string be sz i")
  case (Inr bs)
  then show ?thesis using integer_to_bytes_roundtrip [OF Inr] by auto
next
  case (Inl e)
  show ?thesis
  proof (cases "i < 0 \<or> sz < 0 \<or> max_byte_string_output_length < sz")
    case False
    let ?m = "nat max_byte_string_output_length"
    have big: "256 ^ k \<le> i" if "\<not> nat i < 256 ^ k" for k
      using that False by (simp add: nat_less_iff not_less)
    consider (none) "sz = 0" "8 * max_byte_string_output_length \<le> integer_log2 i"
      | (small) "sz \<noteq> 0" "nat sz < length (le_bytes (nat i))"
      using Inl False by (auto simp: integer_to_byte_string_def to_bytes_def Let_def split: if_splits)
    then show ?thesis
    proof cases
      case none
      then have "\<not> int_bits i \<le> 8 * ?m"
        by (auto simp: integer_log2_def max_byte_string_output_length_def split: if_splits)
      then have "\<not> nat \<bar>i\<bar> < 2 ^ (8 * ?m)" unfolding int_bits_def nat_bits_le .
      then have "\<not> nat i < 256 ^ ?m" using False by (simp add: power_mult)
      then show ?thesis using Inl none(1) big by simp
    next
      case small
      then have "\<not> nat i < 256 ^ nat sz" using le_bytes_bound [of "nat i" "nat sz"] by linarith
      then show ?thesis using Inl small(1) big by simp
    qed
  qed (auto simp: Inl)
qed

end
