(* ===== verification/Uplc_Ledger_Value.thy ===== *)
theory Uplc_Ledger_Value
  imports Uplc_Bytes "HOL-Library.List_Lexorder" "HOL-Library.Product_Lexorder" "HOL-Library.Code_Target_Nat"
begin

text \<open>
  Values of many currencies as the builtins see them (\<open>amaru-uplc/src/ledger_value.rs\<close>):
  entries sorted by currency, each with its tokens sorted by name, with the number of
  tokens and of negative quantities kept beside them.  They implement finitely supported
  functions from a currency and a token to an integer.
\<close>

section \<open>Operations\<close>

definition check_quantity_range :: "int \<Rightarrow> (value_error, unit) result" where
  "check_quantity_range i =
    (let bits = int_bits i in
     if bits \<le> 127 then Ok ()
     else if 128 < bits then Err QuantityOutOfBounds
     else if \<not> i < 0 then Err QuantityOutOfBounds
     else if nat \<bar>i\<bar> = 2 ^ 127 then Ok () else Err QuantityOutOfBounds)"

definition map_err :: "('e \<Rightarrow> 'f) \<Rightarrow> ('e, 'a) result \<Rightarrow> ('f, 'a) result" where
  "map_err f r = (case r of Inl e \<Rightarrow> Inl (f e) | Inr a \<Rightarrow> Inr a)"

definition count_token :: "nat \<times> nat \<Rightarrow> token_entry \<Rightarrow> nat \<times> nat" where
  "count_token stats t =
    (fst stats + 1, if tk_quantity t < 0 then snd stats + 1 else snd stats)"

definition count_stats :: "currency_entry list \<Rightarrow> nat \<times> nat" where
  "count_stats entries = foldl (\<lambda>stats e. foldl count_token stats (cy_tokens e)) (0, 0) entries"

definition mk_value :: "currency_entry list \<Rightarrow> ledger_value" where
  "mk_value entries = (let (sz, negatives) = count_stats entries in
     \<lparr>lv_entries = entries, lv_size = sz, lv_negative_count = negatives\<rparr>)"

definition empty_value :: ledger_value where
  "empty_value = \<lparr>lv_entries = [], lv_size = 0, lv_negative_count = 0\<rparr>"

fun lookup_token :: "byte list \<Rightarrow> token_entry list \<Rightarrow> int" where
  "lookup_token tok [] = 0" |
  "lookup_token tok (t # ts) =
    (if tk_name t = tok then tk_quantity t else if tk_name t > tok then 0 else lookup_token tok ts)"

fun lookup_entries :: "byte list \<Rightarrow> byte list \<Rightarrow> currency_entry list \<Rightarrow> int" where
  "lookup_entries ccy tok [] = 0" |
  "lookup_entries ccy tok (e # es) =
    (if cy_currency e = ccy then lookup_token tok (cy_tokens e)
     else if cy_currency e > ccy then 0 else lookup_entries ccy tok es)"

definition lookup_coin :: "ledger_value \<Rightarrow> byte list \<Rightarrow> byte list \<Rightarrow> int" where
  "lookup_coin v ccy tok = lookup_entries ccy tok (lv_entries v)"

text \<open>
  The insertion loop over entries sorted by a key, at the currencies and at the tokens of one:
  \<open>on_equal\<close> is what replaces an entry with the key, \<open>fresh\<close> what is put where there is none.
\<close>

definition push_some :: "'a option \<Rightarrow> 'a list \<Rightarrow> 'a list" where
  "push_some entry xs = (case entry of None \<Rightarrow> xs | Some x \<Rightarrow> x # xs)"

fun insert_loop :: "('a \<Rightarrow> 'k::linorder) \<Rightarrow> 'k \<Rightarrow> ('a \<Rightarrow> 'a option) \<Rightarrow> 'a option \<Rightarrow> bool \<Rightarrow> 'a list \<Rightarrow> 'a list" where
  "insert_loop key k on_equal fresh found [] = push_some (if \<not> found then fresh else None) []" |
  "insert_loop key k on_equal fresh found (x # xs) =
    (if key x < k then x # insert_loop key k on_equal fresh found xs
     else if key x = k then push_some (on_equal x) (insert_loop key k on_equal fresh True xs)
     else push_some (if \<not> found then fresh else None) (x # insert_loop key k on_equal fresh True xs))"

definition fresh_token :: "byte list \<Rightarrow> int \<Rightarrow> token_entry option" where
  "fresh_token tok qty = (if qty \<noteq> 0 then Some \<lparr>tk_name = tok, tk_quantity = qty\<rparr> else None)"

definition insert_token :: "byte list \<Rightarrow> int \<Rightarrow> token_entry list \<Rightarrow> token_entry list" where
  "insert_token tok qty ts = insert_loop tk_name tok (\<lambda>_. fresh_token tok qty) (fresh_token tok qty) False ts"

definition non_empty_entry :: "byte list \<Rightarrow> token_entry list \<Rightarrow> currency_entry option" where
  "non_empty_entry ccy ts = (if ts \<noteq> [] then Some \<lparr>cy_currency = ccy, cy_tokens = ts\<rparr> else None)"

definition insert_coin :: "byte list \<Rightarrow> byte list \<Rightarrow> int \<Rightarrow> ledger_value \<Rightarrow> ledger_value" where
  "insert_coin ccy tok qty v = mk_value (insert_loop cy_currency ccy
     (\<lambda>e. non_empty_entry (cy_currency e) (insert_token tok qty (cy_tokens e)))
     (case fresh_token tok qty of None \<Rightarrow> None | Some t \<Rightarrow> Some \<lparr>cy_currency = ccy, cy_tokens = [t]\<rparr>)
     False (lv_entries v))"

text \<open>The merge of two lists sorted by a key, at both levels; two equal keys may fail or cancel.\<close>

fun merge_loop :: "('a \<Rightarrow> 'k::linorder) \<Rightarrow> ('a \<Rightarrow> 'a \<Rightarrow> ('e, 'a option) result) \<Rightarrow> 'a list \<Rightarrow> 'a list \<Rightarrow> ('e, 'a list) result" where
  "merge_loop key f (x # xs) (y # ys) =
    (if key x < key y then res_bind (merge_loop key f xs (y # ys)) (\<lambda>zs. Ok (x # zs))
     else if key y < key x then res_bind (merge_loop key f (x # xs) ys) (\<lambda>zs. Ok (y # zs))
     else res_bind (f x y) (\<lambda>z. res_bind (merge_loop key f xs ys) (\<lambda>zs. Ok (push_some z zs))))" |
  "merge_loop key f [] ys = Ok ys" |
  "merge_loop key f xs [] = Ok xs"

definition add_tokens :: "token_entry \<Rightarrow> token_entry \<Rightarrow> (value_error, token_entry option) result" where
  "add_tokens t1 t2 =
    (let sum_qty = tk_quantity t1 + tk_quantity t2 in
     res_bind (map_err (\<lambda>_. UnionValueQuantityOutOfBounds) (check_quantity_range sum_qty)) (\<lambda>_.
     Ok (if sum_qty \<noteq> 0 then Some \<lparr>tk_name = tk_name t1, tk_quantity = sum_qty\<rparr> else None)))"

definition merge_tokens :: "token_entry list \<Rightarrow> token_entry list \<Rightarrow> (value_error, token_entry list) result" where
  "merge_tokens = merge_loop tk_name add_tokens"

definition union_value :: "ledger_value \<Rightarrow> ledger_value \<Rightarrow> (value_error, ledger_value) result" where
  "union_value v1 v2 =
    res_bind (merge_loop cy_currency (\<lambda>e1 e2.
        res_bind (merge_tokens (cy_tokens e1) (cy_tokens e2)) (\<lambda>merged. Ok (non_empty_entry (cy_currency e1) merged)))
      (lv_entries v1) (lv_entries v2)) (\<lambda>entries. Ok (mk_value entries))"

definition flat_value :: "ledger_value \<Rightarrow> ((byte list \<times> byte list) \<times> int) list" where
  "flat_value v = concat (map (\<lambda>e. map (\<lambda>t. ((cy_currency e, tk_name t), tk_quantity t)) (cy_tokens e)) (lv_entries v))"

fun contains_loop :: "('k::linorder \<times> int) list \<Rightarrow> ('k \<times> int) list \<Rightarrow> bool" where
  "contains_loop xs [] = True" |
  "contains_loop [] (y # ys) = False" |
  "contains_loop (x # xs) (y # ys) =
    (if fst x < fst y then contains_loop xs (y # ys)
     else if fst x = fst y then (if snd x < snd y then False else contains_loop xs ys)
     else False)"

definition value_contains :: "ledger_value \<Rightarrow> ledger_value \<Rightarrow> (value_error, bool) result" where
  "value_contains v1 v2 =
    (if 0 < lv_negative_count v1 then Err ValueContainsFirstNegative
     else if 0 < lv_negative_count v2 then Err ValueContainsSecondNegative
     else if lv_size v1 < lv_size v2 then Ok False
     else Ok (contains_loop (flat_value v1) (flat_value v2)))"

fun scale_tokens :: "int \<Rightarrow> token_entry list \<Rightarrow> (value_error, token_entry list) result" where
  "scale_tokens k [] = Ok []" |
  "scale_tokens k (t # ts) =
    (let scaled = tk_quantity t * k in
     res_bind (map_err (\<lambda>_. ScaleValueQuantityOutOfBounds) (check_quantity_range scaled)) (\<lambda>_.
     res_bind (scale_tokens k ts) (\<lambda>rest.
     Ok (push_some (if scaled \<noteq> 0 then Some \<lparr>tk_name = tk_name t, tk_quantity = scaled\<rparr> else None) rest))))"

fun scale_entries :: "int \<Rightarrow> currency_entry list \<Rightarrow> (value_error, currency_entry list) result" where
  "scale_entries k [] = Ok []" |
  "scale_entries k (e # es) =
    res_bind (scale_tokens k (cy_tokens e)) (\<lambda>ts.
    res_bind (scale_entries k es) (\<lambda>rest. Ok (push_some (non_empty_entry (cy_currency e) ts) rest)))"

definition scale_value :: "int \<Rightarrow> ledger_value \<Rightarrow> (value_error, ledger_value) result" where
  "scale_value k v =
    (if k = 0 then Ok empty_value
     else res_bind (scale_entries k (lv_entries v)) (\<lambda>entries. Ok (mk_value entries)))"

definition value_data :: "ledger_value \<Rightarrow> (value_error, plutus_data) result" where
  "value_data v =
    (if 40000 < lv_size v then Err (ValueDataMaxSizeExceeded 40000)
     else Ok (DMap (map (\<lambda>e. (DByteString (cy_currency e),
       DMap (map (\<lambda>t. (DByteString (tk_name t), DInteger (tk_quantity t))) (cy_tokens e)))) (lv_entries v))))"

fun un_tokens :: "byte list option \<Rightarrow> (plutus_data \<times> plutus_data) list \<Rightarrow> (un_value_data_error, token_entry list) result" where
  "un_tokens prev [] = Ok []" |
  "un_tokens prev ((k, v) # rest) =
    (case k of
       DByteString tok \<Rightarrow>
         if 32 < length tok then Err InvalidKey
         else if (case prev of Some p \<Rightarrow> \<not> p < tok | None \<Rightarrow> False) then Err TokenNotAscending
         else (case v of
             DInteger qty \<Rightarrow>
               if qty = 0 then Err InvalidQuantity
               else res_bind (map_err (\<lambda>_. InvalidQuantity) (check_quantity_range qty)) (\<lambda>_.
                 res_bind (un_tokens (Some tok) rest) (\<lambda>ts. Ok (\<lparr>tk_name = tok, tk_quantity = qty\<rparr> # ts)))
           | _ \<Rightarrow> Err NonIntegerConstructor)
     | _ \<Rightarrow> Err NonByteStringConstructor)"

fun un_entries :: "byte list option \<Rightarrow> (plutus_data \<times> plutus_data) list \<Rightarrow> (un_value_data_error, currency_entry list) result" where
  "un_entries prev [] = Ok []" |
  "un_entries prev ((k, v) # rest) =
    (case k of
       DByteString ccy \<Rightarrow>
         if 32 < length ccy then Err InvalidKey
         else if (case prev of Some p \<Rightarrow> \<not> p < ccy | None \<Rightarrow> False) then Err CurrencyNotAscending
         else (case v of
             DMap inner_map \<Rightarrow>
               if inner_map = [] then Err EmptyInnerMap
               else res_bind (un_tokens None inner_map) (\<lambda>ts.
                 res_bind (un_entries (Some ccy) rest) (\<lambda>es. Ok (\<lparr>cy_currency = ccy, cy_tokens = ts\<rparr> # es)))
           | _ \<Rightarrow> Err NonMapConstructor)
     | _ \<Rightarrow> Err NonByteStringConstructor)"

definition un_value_data :: "plutus_data \<Rightarrow> (value_error, ledger_value) result" where
  "un_value_data d =
    (case d of
       DMap outer_map \<Rightarrow> res_bind (map_err UnValueData (un_entries None outer_map)) (\<lambda>entries. Ok (mk_value entries))
     | _ \<Rightarrow> Err (UnValueData NonMapConstructor))"

section \<open>Lists sorted by a key\<close>

definition keyed :: "('a \<Rightarrow> 'k::linorder) \<Rightarrow> 'a list \<Rightarrow> bool" where
  "keyed key xs = sorted_wrt (<) (map key xs)"

definition assoc :: "('a \<Rightarrow> 'k) \<Rightarrow> 'a list \<Rightarrow> 'k \<Rightarrow> 'a option" where
  "assoc key xs k = find (\<lambda>x. key x = k) xs"

lemma keyed_simps [simp]: "keyed key []" "keyed key (x # xs) \<longleftrightarrow> keyed key xs \<and> (\<forall>y \<in> set xs. key x < key y)"
  by (auto simp: keyed_def)

lemma assoc_simps [simp]: "assoc key [] k = None" "assoc key (x # xs) k = (if key x = k then Some x else assoc key xs k)"
  by (simp_all add: assoc_def)

lemma assoc_None_iff: "assoc key xs k = None \<longleftrightarrow> (\<forall>x \<in> set xs. key x \<noteq> k)"
  by (induction xs) auto

lemma assoc_SomeD: "assoc key xs k = Some x \<Longrightarrow> x \<in> set xs \<and> key x = k"
  by (induction xs) (auto split: if_splits)

lemma assoc_Some_iff: "keyed key xs \<Longrightarrow> assoc key xs k = Some x \<longleftrightarrow> x \<in> set xs \<and> key x = k"
  by (induction xs) auto

lemma assoc_below: "\<forall>y \<in> set xs. k < key y \<Longrightarrow> assoc key xs k = None" for k :: "'k::linorder"
  unfolding assoc_None_iff by (metis less_irrefl)

text \<open>A list sorted by a key is determined by what it associates.\<close>

lemma keyed_eqI:
  assumes "keyed key xs" "keyed key ys" "\<And>k. assoc key xs k = assoc key ys k"
  shows "xs = ys"
proof -
  have s: "set xs = set ys" using assms by (auto simp: set_eq_iff) (metis assoc_Some_iff)+
  have keys: "map key xs = map key ys"
    using assms(1,2) s unfolding keyed_def by (intro strict_sorted_equal) auto
  have "map (\<lambda>k. the (assoc key zs k)) (map key zs) = zs" if "keyed key zs" for zs
    using that by (auto intro!: map_idI simp: assoc_Some_iff) (metis assoc_Some_iff option.sel)
  note rebuild = this
  have "assoc key xs = assoc key ys" using assms(3) by (rule ext)
  then show ?thesis using rebuild [OF assms(1)] rebuild [OF assms(2)] keys by simp
qed

lemma insert_loop_found: "\<forall>x \<in> set xs. k < key x \<Longrightarrow> insert_loop key k on_equal fresh True xs = xs"
  by (induction xs) (auto simp: push_some_def)

lemma insert_loop_correct:
  assumes "keyed key xs"
    and "\<And>x y. on_equal x = Some y \<Longrightarrow> key x = k \<Longrightarrow> key y = k" and "\<And>y. fresh = Some y \<Longrightarrow> key y = k"
  shows "keyed key (insert_loop key k on_equal fresh False xs) \<and>
    (\<forall>z \<in> set (insert_loop key k on_equal fresh False xs). z \<in> set xs \<or> key z = k) \<and>
    (\<forall>j. assoc key (insert_loop key k on_equal fresh False xs) j =
      (if j = k then (case assoc key xs k of None \<Rightarrow> fresh | Some x \<Rightarrow> on_equal x) else assoc key xs j))"
  using assms(1)
proof (induction xs)
  case Nil
  then show ?case using assms(3) by (auto simp: push_some_def split: option.splits)
next
  case (Cons x xs)
  consider "key x < k" | "key x = k" | "k < key x" by fastforce
  then show ?case
  proof cases
    case 1
    then show ?thesis using Cons by auto
  next
    case 2
    then have "insert_loop key k on_equal fresh True xs = xs" using Cons by (intro insert_loop_found) auto
    then show ?thesis using Cons.prems 2 assms(2) [of x] by (auto simp: push_some_def assoc_below split: option.splits)
  next
    case 3
    then have "insert_loop key k on_equal fresh True xs = xs" using Cons.prems by (intro insert_loop_found) auto
    moreover have "assoc key xs k = None" using 3 Cons.prems by (intro assoc_below) auto
    ultimately show ?thesis using Cons.prems 3 assms(3) by (auto simp: push_some_def split: option.splits)
  qed
qed

definition merged :: "('a \<Rightarrow> 'a \<Rightarrow> ('e, 'a option) result) \<Rightarrow> 'a option \<Rightarrow> 'a option \<Rightarrow> 'a option" where
  "merged f l r = (case l of None \<Rightarrow> r | Some x \<Rightarrow> (case r of None \<Rightarrow> l | Some y \<Rightarrow>
     (case f x y of Inl e \<Rightarrow> None | Inr z \<Rightarrow> z)))"

lemma merged_simps [simp]:
  "merged f None r = r" "merged f l None = l"
  "f x y = Inr z \<Longrightarrow> merged f (Some x) (Some y) = z"
  by (auto simp: merged_def split: option.splits)

lemma merged_SomeE:
  assumes "merged f l r = Some z"
  obtains "l = Some z" | "r = Some z" | x y where "l = Some x" "r = Some y" "f x y = Ok (Some z)"
  using assms by (auto simp: merged_def split: option.splits sum.splits)

definition keeps_key :: "('a \<Rightarrow> 'k) \<Rightarrow> ('a \<Rightarrow> 'a \<Rightarrow> ('e, 'a option) result) \<Rightarrow> bool" where
  "keeps_key key f \<longleftrightarrow> (\<forall>x y z. f x y = Ok (Some z) \<longrightarrow> key x = key y \<longrightarrow> key z = key x)"

lemma keeps_keyD: "keeps_key key f \<Longrightarrow> f x y = Ok (Some z) \<Longrightarrow> key x = key y \<Longrightarrow> key z = key x"
  unfolding keeps_key_def by blast

lemma merge_loop_keys:
  "merge_loop key f xs ys = Ok zs \<Longrightarrow> keeps_key key f \<Longrightarrow> key ` set zs \<subseteq> key ` set xs \<union> key ` set ys"
proof (induction key f xs ys arbitrary: zs rule: merge_loop.induct)
  case (1 key f x xs y ys)
  consider "key x < key y" | "key y < key x" | "key x = key y" by fastforce
  then show ?case
  proof cases
    case 1
    then obtain zs' where m: "merge_loop key f xs (y # ys) = Ok zs'" and zs: "zs = x # zs'"
      using "1.prems"(1) by (auto simp: res_bind_ok_iff)
    show ?thesis using "1.IH"(1) [OF 1 m "1.prems"(2)] zs by auto
  next
    case 2
    then have n: "\<not> key x < key y" by simp
    obtain zs' where m: "merge_loop key f (x # xs) ys = Ok zs'" and zs: "zs = y # zs'"
      using "1.prems"(1) 2 n by (auto simp: res_bind_ok_iff)
    show ?thesis using "1.IH"(2) [OF n 2 m "1.prems"(2)] zs by auto
  next
    case 3
    then obtain z zs' where f: "f x y = Ok z" and m: "merge_loop key f xs ys = Ok zs'" and zs: "zs = push_some z zs'"
      using "1.prems"(1) by (auto simp: res_bind_ok_iff)
    have "key ` set zs' \<subseteq> key ` set xs \<union> key ` set ys"
      using "1.IH"(3) [OF _ _ m "1.prems"(2)] 3 by simp
    moreover have "key z' = key x" if "z = Some z'" for z' using keeps_keyD [OF "1.prems"(2)] f 3 that by simp
    ultimately show ?thesis using zs by (cases z) (auto simp: push_some_def)
  qed
qed auto

lemma merge_loop_correct:
  assumes "merge_loop key f xs ys = Ok zs" "keyed key xs" "keyed key ys"
    "keeps_key key f"
  shows "keyed key zs \<and> (\<forall>k. assoc key zs k = merged f (assoc key xs k) (assoc key ys k))"
  using assms
proof (induction key f xs ys arbitrary: zs rule: merge_loop.induct)
  case (1 key f x xs y ys)
  consider "key x < key y" | "key y < key x" | "key x = key y" by fastforce
  then show ?case
  proof cases
    case 1
    then obtain zs' where m: "merge_loop key f xs (y # ys) = Ok zs'" and zs: "zs = x # zs'"
      using "1.prems"(1) by (auto simp: res_bind_ok_iff)
    have IH: "keyed key zs' \<and> (\<forall>k. assoc key zs' k = merged f (assoc key xs k) (assoc key (y # ys) k))"
      using "1.IH"(1) [OF 1 m] "1.prems" by simp
    have "\<forall>z \<in> set zs'. key x < key z"
      using merge_loop_keys [OF m "1.prems"(4)] "1.prems"(2,3) 1 by (auto dest!: subsetD intro: less_trans)
    moreover have "assoc key (y # ys) (key x) = None" using "1.prems"(3) 1 by (intro assoc_below) auto
    ultimately show ?thesis using IH zs by auto
  next
    case 2
    then have n: "\<not> key x < key y" by simp
    obtain zs' where m: "merge_loop key f (x # xs) ys = Ok zs'" and zs: "zs = y # zs'"
      using "1.prems"(1) 2 n by (auto simp: res_bind_ok_iff)
    have IH: "keyed key zs' \<and> (\<forall>k. assoc key zs' k = merged f (assoc key (x # xs) k) (assoc key ys k))"
      using "1.IH"(2) [OF n 2 m] "1.prems" by simp
    have "\<forall>z \<in> set zs'. key y < key z"
      using merge_loop_keys [OF m "1.prems"(4)] "1.prems"(2,3) 2 by (auto dest!: subsetD intro: less_trans)
    moreover have "assoc key (x # xs) (key y) = None" using "1.prems"(2) 2 by (intro assoc_below) auto
    ultimately show ?thesis using IH zs by auto
  next
    case 3
    then have n: "\<not> key x < key y" "\<not> key y < key x" by simp_all
    obtain z zs' where f: "f x y = Ok z" and m: "merge_loop key f xs ys = Ok zs'" and zs: "zs = push_some z zs'"
      using "1.prems"(1) n by (auto simp: res_bind_ok_iff)
    have IH: "keyed key zs' \<and> (\<forall>k. assoc key zs' k = merged f (assoc key xs k) (assoc key ys k))"
      using "1.IH"(3) [OF n m] "1.prems" by simp
    have above: "\<forall>z \<in> set zs'. key x < key z"
      using merge_loop_keys [OF m "1.prems"(4)] "1.prems"(2,3) 3 by (auto dest!: subsetD)
    have "assoc key zs' (key x) = None" using above by (rule assoc_below)
    moreover have "key z' = key x" if "z = Some z'" for z' using keeps_keyD [OF "1.prems"(4)] f 3 that by simp
    ultimately show ?thesis using IH zs f above 3 by (cases z) (auto simp: push_some_def)
  qed
qed auto

lemma res_bind_err_iff: "res_bind r f = Inl e \<longleftrightarrow> r = Inl e \<or> (\<exists>a. r = Inr a \<and> f a = Inl e)"
  by (cases r) simp_all

lemma merge_loop_error:
  "merge_loop key f xs ys = Err e \<Longrightarrow> \<exists>x \<in> set xs. \<exists>y \<in> set ys. key x = key y \<and> f x y = Err e"
proof (induction key f xs ys rule: merge_loop.induct)
  case (1 key f x xs y ys)
  consider "key x < key y" | "\<not> key x < key y" "key y < key x" | "\<not> key x < key y" "\<not> key y < key x" by blast
  then show ?case
  proof cases
    case 1
    then have "merge_loop key f xs (y # ys) = Err e" using "1.prems" by (simp add: res_bind_err_iff)
    from "1.IH"(1) [OF 1 this] show ?thesis by auto
  next
    case 2
    then have "merge_loop key f (x # xs) ys = Err e" using "1.prems" by (simp add: res_bind_err_iff)
    from "1.IH"(2) [OF 2 this] show ?thesis by auto
  next
    case 3
    then have "f x y = Err e \<or> merge_loop key f xs ys = Err e" using "1.prems" by (auto simp: res_bind_err_iff)
    then show ?thesis
    proof
      assume "merge_loop key f xs ys = Err e"
      from "1.IH"(3) [OF 3 this] show ?thesis by auto
    qed (use 3 in auto)
  qed
qed simp_all

lemma merge_loop_ok_pairs:
  "merge_loop key f xs ys = Ok zs \<Longrightarrow> keyed key xs \<Longrightarrow> keyed key ys \<Longrightarrow>
    assoc key xs k = Some x \<Longrightarrow> assoc key ys k = Some y \<Longrightarrow> is_ok (f x y)"
proof (induction key f xs ys arbitrary: zs rule: merge_loop.induct)
  case (1 key f a as b bs)
  consider "key a < key b" | "\<not> key a < key b" "key b < key a" | "\<not> key a < key b" "\<not> key b < key a" by blast
  then show ?case
  proof cases
    case 1
    then obtain zs' where m: "merge_loop key f as (b # bs) = Ok zs'" using "1.prems"(1) by (auto simp: res_bind_ok_iff)
    have "assoc key (b # bs) (key a) = None" using "1.prems"(3) 1 by (intro assoc_below) auto
    then have "k \<noteq> key a" using "1.prems"(5) by auto
    then show ?thesis using "1.IH"(1) [OF 1 m] "1.prems" by simp
  next
    case 2
    then obtain zs' where m: "merge_loop key f (a # as) bs = Ok zs'" using "1.prems"(1) by (auto simp: res_bind_ok_iff)
    have "assoc key (a # as) (key b) = None" using "1.prems"(2) 2 by (intro assoc_below) auto
    then have "k \<noteq> key b" using "1.prems"(4) by auto
    then show ?thesis using "1.IH"(2) [OF 2 m] "1.prems" by simp
  next
    case 3
    then obtain z zs' where m: "merge_loop key f as bs = Ok zs'" and f: "f a b = Ok z"
      using "1.prems"(1) by (auto simp: res_bind_ok_iff)
    show ?thesis using "1.IH"(3) [OF 3 m] "1.prems" 3 f by (cases "k = key a") auto
  qed
qed simp_all

section \<open>Values as functions\<close>

definition quantity_in_range :: "int \<Rightarrow> bool" where
  "quantity_in_range q = (- (2 ^ 127) \<le> q \<and> q < 2 ^ 127)"

definition token_ok :: "token_entry \<Rightarrow> bool" where
  "token_ok t = (length (tk_name t) \<le> 32 \<and> tk_quantity t \<noteq> 0 \<and> quantity_in_range (tk_quantity t))"

definition tokens_ok :: "token_entry list \<Rightarrow> bool" where
  "tokens_ok ts = (keyed tk_name ts \<and> (\<forall>t \<in> set ts. token_ok t))"

definition entry_ok :: "currency_entry \<Rightarrow> bool" where
  "entry_ok e = (length (cy_currency e) \<le> 32 \<and> cy_tokens e \<noteq> [] \<and> tokens_ok (cy_tokens e))"

definition entries_ok :: "currency_entry list \<Rightarrow> bool" where
  "entries_ok es = (keyed cy_currency es \<and> (\<forall>e \<in> set es. entry_ok e))"

definition value_ok :: "ledger_value \<Rightarrow> bool" where
  "value_ok v = (entries_ok (lv_entries v) \<and> v = mk_value (lv_entries v))"

definition token_amount :: "token_entry list \<Rightarrow> byte list \<Rightarrow> int" where
  "token_amount ts tok = (case assoc tk_name ts tok of None \<Rightarrow> 0 | Some t \<Rightarrow> tk_quantity t)"

definition entry_amount :: "currency_entry list \<Rightarrow> byte list \<Rightarrow> byte list \<Rightarrow> int" where
  "entry_amount es ccy tok = (case assoc cy_currency es ccy of None \<Rightarrow> 0 | Some e \<Rightarrow> token_amount (cy_tokens e) tok)"

definition amount :: "ledger_value \<Rightarrow> byte list \<Rightarrow> byte list \<Rightarrow> int" where
  "amount v = entry_amount (lv_entries v)"

lemma check_quantity_range_ok: "check_quantity_range q = Ok () \<longleftrightarrow> quantity_in_range q"
proof -
  have "check_quantity_range q = Ok () \<longleftrightarrow> fits_signed_range q 127"
    unfolding check_quantity_range_def fits_signed_range_def Let_def by (cases "int_bits q = 128") auto
  then show ?thesis by (simp add: fits_signed_range_iff quantity_in_range_def)
qed

lemma check_quantity_range_eq:
  "check_quantity_range q = (if quantity_in_range q then Ok () else Err QuantityOutOfBounds)"
  using check_quantity_range_ok [of q] by (auto simp: check_quantity_range_def Let_def split: if_splits)

lemma map_err_simps [simp]: "map_err f (Inl e) = Inl (f e)" "map_err f (Inr a) = Inr a"
  by (simp_all add: map_err_def)

lemma entries_mk_value [simp]: "lv_entries (mk_value es) = es"
  by (simp add: mk_value_def split: prod.splits)

lemma amount_mk_value [simp]: "amount (mk_value es) = entry_amount es"
  by (simp add: amount_def)

lemma value_ok_mk_value [simp]: "value_ok (mk_value es) \<longleftrightarrow> entries_ok es"
  by (simp add: value_ok_def)

lemma value_ok_empty: "value_ok empty_value"
  by (simp add: value_ok_def empty_value_def entries_ok_def mk_value_def count_stats_def)

lemma lookup_token_eq: "keyed tk_name ts \<Longrightarrow> lookup_token tok ts = token_amount ts tok"
proof (induction ts)
  case (Cons t ts)
  have "assoc tk_name ts tok = None" if "tok < tk_name t" using that Cons.prems by (intro assoc_below) auto
  then show ?case using Cons by (auto simp: token_amount_def)
qed (simp add: token_amount_def)

lemma lookup_entries_eq: "entries_ok es \<Longrightarrow> lookup_entries ccy tok es = entry_amount es ccy tok"
proof (induction es)
  case (Cons e es)
  have "assoc cy_currency es ccy = None" if "ccy < cy_currency e"
    using that Cons.prems by (intro assoc_below) (auto simp: entries_ok_def)
  then show ?case using Cons by (auto simp: entry_amount_def entries_ok_def entry_ok_def tokens_ok_def lookup_token_eq)
qed (simp add: entry_amount_def)

lemma lookup_coin_eq: "value_ok v \<Longrightarrow> lookup_coin v ccy tok = amount v ccy tok"
  by (simp add: value_ok_def lookup_coin_def amount_def lookup_entries_eq)

text \<open>Values that agree on all amounts are the same value.\<close>

lemma token_amount_inject:
  assumes "tokens_ok ts" "tokens_ok us" "\<And>tok. token_amount ts tok = token_amount us tok"
  shows "ts = us"
proof (rule keyed_eqI)
  show "keyed tk_name ts" "keyed tk_name us" using assms by (simp_all add: tokens_ok_def)
  fix k
  show "assoc tk_name ts k = assoc tk_name us k"
    using assms(1,2) assms(3) [of k]
    by (auto simp: token_amount_def tokens_ok_def token_ok_def intro: token_entry.equality
        split: option.splits dest!: assoc_SomeD)
qed

lemma token_amount_nonzero: "tokens_ok ts \<Longrightarrow> ts \<noteq> [] \<Longrightarrow> \<exists>tok. token_amount ts tok \<noteq> 0"
  by (cases ts) (auto simp: token_amount_def tokens_ok_def token_ok_def)

lemma entry_amount_inject:
  assumes "entries_ok es" "entries_ok fs" "\<And>ccy tok. entry_amount es ccy tok = entry_amount fs ccy tok"
  shows "es = fs"
proof (rule keyed_eqI)
  show "keyed cy_currency es" "keyed cy_currency fs" using assms by (simp_all add: entries_ok_def)
  fix k
  have ok: "entry_ok e \<and> cy_currency e = k" if "assoc cy_currency gs k = Some e" "entries_ok gs" for gs e
    using that by (auto simp: entries_ok_def dest: assoc_SomeD)
  show "assoc cy_currency es k = assoc cy_currency fs k"
  proof (cases "assoc cy_currency es k"; cases "assoc cy_currency fs k")
    fix e f assume e: "assoc cy_currency es k = Some e" and f: "assoc cy_currency fs k = Some f"
    have "token_amount (cy_tokens e) tok = token_amount (cy_tokens f) tok" for tok
      using assms(3) [of k tok] e f by (simp add: entry_amount_def)
    then have "cy_tokens e = cy_tokens f"
      using ok [OF e assms(1)] ok [OF f assms(2)] by (intro token_amount_inject) (auto simp: entry_ok_def)
    then show ?thesis using ok [OF e assms(1)] ok [OF f assms(2)] e f by (auto intro: currency_entry.equality)
  next
    fix f assume e: "assoc cy_currency es k = None" and f: "assoc cy_currency fs k = Some f"
    then have "token_amount (cy_tokens f) tok = 0" for tok using assms(3) [of k tok] by (simp add: entry_amount_def)
    then show ?thesis using ok [OF f assms(2)] token_amount_nonzero by (auto simp: entry_ok_def)
  next
    fix e assume e: "assoc cy_currency es k = Some e" and f: "assoc cy_currency fs k = None"
    then have "token_amount (cy_tokens e) tok = 0" for tok using assms(3) [of k tok] by (simp add: entry_amount_def)
    then show ?thesis using ok [OF e assms(1)] token_amount_nonzero by (auto simp: entry_ok_def)
  qed simp
qed

lemma value_eqI: "value_ok v \<Longrightarrow> value_ok w \<Longrightarrow> amount v = amount w \<Longrightarrow> v = w"
  unfolding value_ok_def amount_def using entry_amount_inject by metis

section \<open>Insertion\<close>

lemma fresh_token_ok:
  "length tok \<le> 32 \<Longrightarrow> quantity_in_range qty \<Longrightarrow> fresh_token tok qty = Some y \<Longrightarrow>
    token_ok y \<and> tk_name y = tok \<and> tk_quantity y = qty"
  by (auto simp: fresh_token_def token_ok_def split: if_splits)

lemma non_empty_entry_ok:
  "length ccy \<le> 32 \<Longrightarrow> tokens_ok ts \<Longrightarrow> non_empty_entry ccy ts = Some e \<Longrightarrow> entry_ok e"
  by (auto simp: non_empty_entry_def entry_ok_def split: if_splits)

lemma insert_token_correct:
  assumes "tokens_ok ts" "length tok \<le> 32" "quantity_in_range qty"
  shows "tokens_ok (insert_token tok qty ts) \<and>
    token_amount (insert_token tok qty ts) t = (if t = tok then qty else token_amount ts t)"
proof -
  have fresh: "fresh_token tok qty = Some y \<Longrightarrow> tk_name y = tok" for y by (auto simp: fresh_token_def split: if_splits)
  have k: "keyed tk_name (insert_token tok qty ts)"
    and a: "\<And>j. assoc tk_name (insert_token tok qty ts) j = (if j = tok then fresh_token tok qty else assoc tk_name ts j)"
    using insert_loop_correct [of tk_name ts "\<lambda>_. fresh_token tok qty" tok "fresh_token tok qty"] assms(1) fresh
    by (auto simp: insert_token_def tokens_ok_def split: option.splits)
  have "token_ok x" if "x \<in> set (insert_token tok qty ts)" for x
  proof -
    have "assoc tk_name (insert_token tok qty ts) (tk_name x) = Some x" using k that by (simp add: assoc_Some_iff)
    then show ?thesis using assms fresh_token_ok [OF assms(2,3), of x] unfolding a
      by (cases "tk_name x = tok") (auto simp: tokens_ok_def dest: assoc_SomeD)
  qed
  then show ?thesis using k a by (auto simp: tokens_ok_def token_amount_def fresh_token_def)
qed

lemma insert_coin_correct:
  assumes "value_ok v" "length ccy \<le> 32" "length tok \<le> 32" "quantity_in_range qty"
  shows "value_ok (insert_coin ccy tok qty v) \<and>
    amount (insert_coin ccy tok qty v) c t = (if c = ccy \<and> t = tok then qty else amount v c t)"
proof -
  define on_equal where "on_equal = (\<lambda>e :: currency_entry. non_empty_entry (cy_currency e) (insert_token tok qty (cy_tokens e)))"
  define fresh where "fresh = (case fresh_token tok qty of None \<Rightarrow> None | Some t \<Rightarrow> Some \<lparr>cy_currency = ccy, cy_tokens = [t]\<rparr>)"
  define es where "es = insert_loop cy_currency ccy on_equal fresh False (lv_entries v)"
  have es: "entries_ok (lv_entries v)" using assms(1) by (simp add: value_ok_def)
  have on_equal: "cy_currency y = ccy" if "on_equal x = Some y" "cy_currency x = ccy" for x y
    using that by (auto simp: on_equal_def non_empty_entry_def split: if_splits)
  have fresh: "cy_currency y = ccy" if "fresh = Some y" for y
    using that by (auto simp: fresh_def split: option.splits)
  have "keyed cy_currency es \<and> (\<forall>z \<in> set es. z \<in> set (lv_entries v) \<or> cy_currency z = ccy) \<and>
    (\<forall>j. assoc cy_currency es j = (if j = ccy then
        (case assoc cy_currency (lv_entries v) ccy of None \<Rightarrow> fresh | Some e \<Rightarrow> on_equal e)
        else assoc cy_currency (lv_entries v) j))"
    unfolding es_def by (rule insert_loop_correct) (use es in \<open>simp add: entries_ok_def\<close>, erule (1) on_equal, erule fresh)
  then have k: "keyed cy_currency es"
    and a: "\<And>j. assoc cy_currency es j = (if j = ccy then
        (case assoc cy_currency (lv_entries v) ccy of None \<Rightarrow> fresh | Some e \<Rightarrow> on_equal e)
        else assoc cy_currency (lv_entries v) j)" by (simp_all only:)
  have old: "entry_ok e \<and> cy_currency e = j" if "assoc cy_currency (lv_entries v) j = Some e" for e j
    using that es by (auto simp: entries_ok_def dest: assoc_SomeD)
  have tokens: "tokens_ok (insert_token tok qty (cy_tokens e)) \<and>
      token_amount (insert_token tok qty (cy_tokens e)) t = (if t = tok then qty else token_amount (cy_tokens e) t)"
    if "entry_ok e" for e t
    using insert_token_correct assms that by (simp add: entry_ok_def)
  have ok: "entry_ok x" if "x \<in> set es" for x
  proof -
    have x: "assoc cy_currency es (cy_currency x) = Some x" using k that by (simp add: assoc_Some_iff)
    consider "assoc cy_currency (lv_entries v) (cy_currency x) = Some x" | "fresh = Some x"
      | e where "assoc cy_currency (lv_entries v) ccy = Some e" "on_equal e = Some x"
      using x unfolding a by (cases "assoc cy_currency (lv_entries v) ccy") (auto split: if_splits)
    then show ?thesis
    proof cases
      case 1
      then show ?thesis using old by blast
    next
      case 2
      then obtain y where y: "fresh_token tok qty = Some y" and "x = \<lparr>cy_currency = ccy, cy_tokens = [y]\<rparr>"
        by (auto simp: fresh_def split: option.splits)
      then show ?thesis using fresh_token_ok [OF assms(3,4) y] assms(2) by (simp add: entry_ok_def tokens_ok_def)
    next
      case 3
      then show ?thesis using old [OF 3(1)] tokens [of e] non_empty_entry_ok assms(2) unfolding on_equal_def by metis
    qed
  qed
  have "entry_amount es c t = (if c = ccy \<and> t = tok then qty else entry_amount (lv_entries v) c t)"
  proof (cases "assoc cy_currency (lv_entries v) ccy")
    case None
    then show ?thesis by (simp add: entry_amount_def a fresh_def fresh_token_def token_amount_def)
  next
    case (Some e)
    note e = old [OF Some, THEN conjunct1, THEN tokens, of t]
    then have "insert_token tok qty (cy_tokens e) = [] \<Longrightarrow> (if t = tok then qty else token_amount (cy_tokens e) t) = 0"
      by (auto simp: token_amount_def)
    then show ?thesis using Some e by (auto simp: entry_amount_def a on_equal_def non_empty_entry_def)
  qed
  moreover have "insert_coin ccy tok qty v = mk_value es" by (simp add: insert_coin_def es_def on_equal_def fresh_def)
  ultimately show ?thesis using k ok by (simp add: entries_ok_def amount_def)
qed

section \<open>Union\<close>

lemma keeps_add_tokens: "keeps_key tk_name add_tokens"
  by (auto simp: keeps_key_def add_tokens_def Let_def res_bind_ok_iff split: if_splits)

lemma add_tokens_eq:
  "add_tokens t1 t2 = (let q = tk_quantity t1 + tk_quantity t2 in
    if quantity_in_range q then Ok (if q \<noteq> 0 then Some \<lparr>tk_name = tk_name t1, tk_quantity = q\<rparr> else None)
    else Err UnionValueQuantityOutOfBounds)"
  by (simp add: add_tokens_def check_quantity_range_eq Let_def)

lemma add_tokens_SomeD:
  "add_tokens t1 t2 = Ok (Some t) \<Longrightarrow> tk_name t = tk_name t1 \<and> tk_quantity t = tk_quantity t1 + tk_quantity t2 \<and>
    tk_quantity t \<noteq> 0 \<and> quantity_in_range (tk_quantity t)"
  unfolding add_tokens_eq Let_def
  by (cases "quantity_in_range (tk_quantity t1 + tk_quantity t2)"; cases "tk_quantity t1 + tk_quantity t2 = 0") auto

lemma merge_tokens_correct:
  assumes "merge_tokens ts us = Ok ws" "tokens_ok ts" "tokens_ok us"
  shows "tokens_ok ws \<and> token_amount ws tok = token_amount ts tok + token_amount us tok"
proof -
  have k: "keyed tk_name ws" and a: "\<And>k. assoc tk_name ws k = merged add_tokens (assoc tk_name ts k) (assoc tk_name us k)"
    using merge_loop_correct [of tk_name add_tokens ts us ws] assms keeps_add_tokens
    by (auto simp: merge_tokens_def tokens_ok_def)
  have pairs: "quantity_in_range (tk_quantity t + tk_quantity u)"
    if "assoc tk_name ts k = Some t" "assoc tk_name us k = Some u" for k t u
    using merge_loop_ok_pairs [of tk_name add_tokens ts us ws k t u] assms that
    by (auto simp: merge_tokens_def tokens_ok_def add_tokens_eq Let_def split: if_splits)
  have old: "token_ok x \<and> tk_name x = j" if "assoc tk_name xs j = Some x" "tokens_ok xs" for xs x j
    using that by (auto simp: tokens_ok_def dest: assoc_SomeD)
  have "token_ok x" if "x \<in> set ws" for x
  proof -
    have "merged add_tokens (assoc tk_name ts (tk_name x)) (assoc tk_name us (tk_name x)) = Some x"
      using k a that by (metis assoc_Some_iff)
    then show ?thesis
    proof (cases rule: merged_SomeE)
      case (3 t u)
      show ?thesis using old [OF 3(1) assms(2)] add_tokens_SomeD [OF 3(3)] unfolding token_ok_def by metis
    qed (use old assms in blast)+
  qed
  moreover have "token_amount ws tok = token_amount ts tok + token_amount us tok"
    using pairs by (auto simp: token_amount_def a merged_def add_tokens_eq Let_def split: option.splits)
  ultimately show ?thesis using k by (simp add: tokens_ok_def)
qed

lemma merge_tokens_fails:
  assumes "tokens_ok ts" "tokens_ok us"
  shows "(\<exists>ws. merge_tokens ts us = Ok ws \<and> (\<forall>tok. quantity_in_range (token_amount ts tok + token_amount us tok))) \<or>
    merge_tokens ts us = Err UnionValueQuantityOutOfBounds \<and>
      (\<exists>tok. \<not> quantity_in_range (token_amount ts tok + token_amount us tok))"
proof (cases "merge_tokens ts us")
  case (Inl e)
  then obtain t u where tu: "t \<in> set ts" "u \<in> set us" "tk_name t = tk_name u" "add_tokens t u = Err e"
    using merge_loop_error [of tk_name add_tokens ts us e] by (auto simp: merge_tokens_def)
  then have "assoc tk_name ts (tk_name t) = Some t" "assoc tk_name us (tk_name t) = Some u"
    using assms by (simp_all add: tokens_ok_def assoc_Some_iff)
  then show ?thesis using Inl tu
    by (auto simp: token_amount_def add_tokens_eq Let_def intro!: exI [of _ "tk_name t"] split: if_splits)
next
  case (Inr ws)
  have "quantity_in_range (token_amount ts tok + token_amount us tok)" for tok
  proof -
    have "token_amount ws tok = token_amount ts tok + token_amount us tok" "tokens_ok ws"
      using merge_tokens_correct [OF Inr assms] by simp_all
    then show ?thesis
      by (auto simp: token_amount_def tokens_ok_def token_ok_def quantity_in_range_def dest!: assoc_SomeD
          split: option.splits)
  qed
  then show ?thesis using Inr by blast
qed

definition merge_entry :: "currency_entry \<Rightarrow> currency_entry \<Rightarrow> (value_error, currency_entry option) result" where
  "merge_entry e1 e2 = res_bind (merge_tokens (cy_tokens e1) (cy_tokens e2)) (\<lambda>ts. Ok (non_empty_entry (cy_currency e1) ts))"

lemma union_value_eq:
  "union_value v1 v2 = res_bind (merge_loop cy_currency merge_entry (lv_entries v1) (lv_entries v2)) (\<lambda>es. Ok (mk_value es))"
proof -
  have "(\<lambda>e1 e2. res_bind (merge_tokens (cy_tokens e1) (cy_tokens e2)) (\<lambda>merged. Ok (non_empty_entry (cy_currency e1) merged)))
      = merge_entry" by (rule ext)+ (simp add: merge_entry_def)
  then show ?thesis by (simp add: union_value_def)
qed

lemma keeps_merge_entry: "keeps_key cy_currency merge_entry"
  by (auto simp: keeps_key_def merge_entry_def non_empty_entry_def res_bind_ok_iff split: if_splits)

lemma union_value_correct:
  assumes "union_value v w = Ok u" "value_ok v" "value_ok w"
  shows "value_ok u \<and> amount u c t = amount v c t + amount w c t"
proof -
  let ?vs = "lv_entries v" and ?ws = "lv_entries w"
  have ok: "entries_ok ?vs" "entries_ok ?ws" and keys: "keyed cy_currency ?vs" "keyed cy_currency ?ws"
    using assms by (simp_all add: value_ok_def entries_ok_def)
  obtain es where m: "merge_loop cy_currency merge_entry ?vs ?ws = Ok es" and u: "u = mk_value es"
    using assms(1) by (auto simp: union_value_eq res_bind_ok_iff)
  have k: "keyed cy_currency es"
    and a: "\<And>k. assoc cy_currency es k = merged merge_entry (assoc cy_currency ?vs k) (assoc cy_currency ?ws k)"
    using merge_loop_correct [OF m keys keeps_merge_entry] by blast+
  have old: "entry_ok x \<and> cy_currency x = j" if "assoc cy_currency xs j = Some x" "entries_ok xs" for xs x j
    using that by (auto simp: entries_ok_def dest: assoc_SomeD)
  have both: "\<exists>ts. merge_tokens (cy_tokens x) (cy_tokens y) = Ok ts \<and> tokens_ok ts \<and>
      (\<forall>t. token_amount ts t = token_amount (cy_tokens x) t + token_amount (cy_tokens y) t)"
    if "assoc cy_currency ?vs j = Some x" "assoc cy_currency ?ws j = Some y" for j x y
  proof -
    have "is_ok (merge_entry x y)" using merge_loop_ok_pairs [OF m keys that] .
    then obtain ts where "merge_tokens (cy_tokens x) (cy_tokens y) = Ok ts"
      by (cases "merge_tokens (cy_tokens x) (cy_tokens y)") (auto simp: merge_entry_def)
    moreover have "tokens_ok (cy_tokens x)" "tokens_ok (cy_tokens y)"
      using old [OF that(1) ok(1)] old [OF that(2) ok(2)] by (simp_all add: entry_ok_def)
    ultimately show ?thesis using merge_tokens_correct by blast
  qed
  have "entry_ok x" if "x \<in> set es" for x
  proof -
    have "merged merge_entry (assoc cy_currency ?vs (cy_currency x)) (assoc cy_currency ?ws (cy_currency x)) = Some x"
      using k a that by (metis assoc_Some_iff)
    then show ?thesis
    proof (cases rule: merged_SomeE)
      case (3 e f)
      then show ?thesis using both [OF 3(1,2)] old [OF 3(1) ok(1)] non_empty_entry_ok
        by (auto simp: merge_entry_def entry_ok_def)
    qed (use old ok in blast)+
  qed
  moreover have "entry_amount es c t = entry_amount ?vs c t + entry_amount ?ws c t"
  proof (cases "assoc cy_currency ?vs c"; cases "assoc cy_currency ?ws c")
    fix x y assume xy: "assoc cy_currency ?vs c = Some x" "assoc cy_currency ?ws c = Some y"
    from both [OF this] obtain ts where "merge_tokens (cy_tokens x) (cy_tokens y) = Ok ts"
      and ts: "token_amount ts t = token_amount (cy_tokens x) t + token_amount (cy_tokens y) t" by blast
    then have "assoc cy_currency es c = non_empty_entry (cy_currency x) ts" using a xy by (simp add: merge_entry_def)
    moreover have "token_amount [] t = 0" by (simp add: token_amount_def)
    ultimately show ?thesis using ts xy by (cases "ts = []") (simp_all add: entry_amount_def non_empty_entry_def)
  qed (simp_all add: entry_amount_def a)
  ultimately show ?thesis using k u by (simp add: entries_ok_def amount_def)
qed

text \<open>The union fails exactly when a sum leaves the range.\<close>

lemma amount_in_range: "value_ok v \<Longrightarrow> quantity_in_range (amount v c t)"
proof -
  assume v: "value_ok v"
  have zero: "quantity_in_range 0" by (simp add: quantity_in_range_def)
  have "quantity_in_range (token_amount ts t)" if "tokens_ok ts" for ts
    using that zero by (auto simp: token_amount_def tokens_ok_def token_ok_def split: option.splits dest: assoc_SomeD)
  then show ?thesis using v zero
    by (auto simp: amount_def entry_amount_def value_ok_def entries_ok_def entry_ok_def split: option.splits
        dest: assoc_SomeD)
qed

lemma union_value_fails:
  assumes "value_ok v" "value_ok w" "union_value v w = Err e"
  shows "e = UnionValueQuantityOutOfBounds \<and> (\<exists>c t. \<not> quantity_in_range (amount v c t + amount w c t))"
proof -
  let ?vs = "lv_entries v" and ?ws = "lv_entries w"
  have ok: "entries_ok ?vs" "entries_ok ?ws" using assms by (simp_all add: value_ok_def)
  obtain x y where xy: "x \<in> set ?vs" "y \<in> set ?ws" "cy_currency x = cy_currency y" "merge_entry x y = Err e"
    using assms(3) merge_loop_error unfolding union_value_eq res_bind_err_iff by fastforce
  have tok: "tokens_ok (cy_tokens x)" "tokens_ok (cy_tokens y)"
    using xy ok by (auto simp: entries_ok_def entry_ok_def)
  have "merge_tokens (cy_tokens x) (cy_tokens y) = Err e" using xy(4) by (auto simp: merge_entry_def res_bind_err_iff)
  then obtain t where t: "\<not> quantity_in_range (token_amount (cy_tokens x) t + token_amount (cy_tokens y) t)"
    and e: "e = UnionValueQuantityOutOfBounds" using merge_tokens_fails [OF tok] by auto
  have "assoc cy_currency ?vs (cy_currency x) = Some x" "assoc cy_currency ?ws (cy_currency x) = Some y"
    using xy ok by (simp_all add: entries_ok_def assoc_Some_iff)
  then have "\<not> quantity_in_range (amount v (cy_currency x) t + amount w (cy_currency x) t)"
    using t by (simp add: amount_def entry_amount_def)
  then show ?thesis using e by blast
qed

lemma union_value_iff:
  assumes "value_ok v" "value_ok w"
  shows "union_value v w = (if \<forall>c t. quantity_in_range (amount v c t + amount w c t) then Ok (projr (union_value v w))
    else Err UnionValueQuantityOutOfBounds)"
proof (cases "union_value v w")
  case (Inl e)
  then show ?thesis using union_value_fails [OF assms Inl] by auto
next
  case (Inr u)
  then have "quantity_in_range (amount v c t + amount w c t)" for c t
    using union_value_correct [OF Inr assms, of c t] amount_in_range [of u c t] by simp
  then show ?thesis using Inr by simp
qed

section \<open>Containment\<close>

lemma flat_value_iff:
  assumes "value_ok v"
  shows "((c, t), q) \<in> set (flat_value v) \<longleftrightarrow> q \<noteq> 0 \<and> amount v c t = q"
proof -
  have es: "entries_ok (lv_entries v)" using assms by (simp add: value_ok_def)
  have tok: "q \<noteq> 0 \<and> token_amount ts t = q \<longleftrightarrow> \<lparr>tk_name = t, tk_quantity = q\<rparr> \<in> set ts" if "tokens_ok ts" for ts
  proof -
    have "token_amount ts t = q \<and> q \<noteq> 0 \<longleftrightarrow> (\<exists>x. assoc tk_name ts t = Some x \<and> tk_quantity x = q)"
      using that by (auto simp: token_amount_def tokens_ok_def token_ok_def split: option.splits dest: assoc_SomeD)
    also have "\<dots> \<longleftrightarrow> (\<exists>x \<in> set ts. tk_name x = t \<and> tk_quantity x = q)"
      using that by (auto simp: tokens_ok_def assoc_Some_iff)
    also have "\<dots> \<longleftrightarrow> \<lparr>tk_name = t, tk_quantity = q\<rparr> \<in> set ts"
      by (metis token_entry.equality token_entry.select_convs(1,2) old.unit.exhaust)
    finally show ?thesis by blast
  qed
  have "((c, t), q) \<in> set (flat_value v) \<longleftrightarrow>
      (\<exists>e \<in> set (lv_entries v). cy_currency e = c \<and> \<lparr>tk_name = t, tk_quantity = q\<rparr> \<in> set (cy_tokens e))"
    by (auto simp: flat_value_def image_iff) (metis token_entry.equality token_entry.select_convs(1,2) old.unit.exhaust)+
  also have "\<dots> \<longleftrightarrow> (\<exists>e. assoc cy_currency (lv_entries v) c = Some e \<and> q \<noteq> 0 \<and> token_amount (cy_tokens e) t = q)"
    using es tok by (auto simp: entries_ok_def assoc_Some_iff entry_ok_def)
  also have "\<dots> \<longleftrightarrow> q \<noteq> 0 \<and> amount v c t = q"
    by (auto simp: amount_def entry_amount_def split: option.splits)
  finally show ?thesis .
qed

lemma keyed_append: "keyed key (xs @ ys) \<longleftrightarrow> keyed key xs \<and> keyed key ys \<and> (\<forall>x \<in> set xs. \<forall>y \<in> set ys. key x < key y)"
  by (simp add: keyed_def sorted_wrt_append)

lemma keyed_map: "keyed key (map f xs) \<longleftrightarrow> keyed (key \<circ> f) xs"
  by (simp add: keyed_def)

lemma keyed_flat_value:
  assumes "value_ok v"
  shows "keyed fst (flat_value v)"
proof -
  have "keyed fst (concat (map (\<lambda>e. map (\<lambda>t. ((cy_currency e, tk_name t), tk_quantity t)) (cy_tokens e)) es))"
    if "entries_ok es" for es
    using that
  proof (induction es)
    case (Cons e es)
    have "keyed (\<lambda>t. (cy_currency e, tk_name t)) (cy_tokens e)"
      using Cons.prems by (simp add: entries_ok_def entry_ok_def tokens_ok_def keyed_def sorted_wrt_map)
    then show ?case using Cons by (fastforce simp: keyed_append keyed_map comp_def entries_ok_def)
  qed simp
  then show ?thesis using assms by (simp add: flat_value_def value_ok_def)
qed

definition covered :: "('k \<times> int) list \<Rightarrow> 'k \<times> int \<Rightarrow> bool" where
  "covered xs y = (\<exists>x \<in> set xs. fst x = fst y \<and> snd y \<le> snd x)"

lemma covered_simps:
  "covered (x # xs) y \<longleftrightarrow> (fst x = fst y \<and> snd y \<le> snd x) \<or> covered xs y"
  "\<forall>x \<in> set xs. fst x \<noteq> fst y \<Longrightarrow> \<not> covered xs y"
  by (auto simp: covered_def)

lemma contains_loop_iff:
  "keyed fst xs \<Longrightarrow> keyed fst ys \<Longrightarrow> contains_loop xs ys \<longleftrightarrow> (\<forall>y \<in> set ys. covered xs y)"
proof (induction xs ys rule: contains_loop.induct)
  case (3 x xs y ys)
  consider "fst x < fst y" | "fst x = fst y" | "fst y < fst x" by fastforce
  then show ?case
  proof cases
    case 1
    then have "\<forall>z \<in> set (y # ys). fst x \<noteq> fst z" using "3.prems"(2) by fastforce
    then have "\<forall>z \<in> set (y # ys). covered (x # xs) z \<longleftrightarrow> covered xs z" by (auto simp: covered_simps(1))
    moreover have "contains_loop (x # xs) (y # ys) = contains_loop xs (y # ys)" using 1 by simp
    ultimately show ?thesis using "3.IH"(1) [OF 1] "3.prems" by simp
  next
    case 2
    then have "\<forall>z \<in> set ys. fst x \<noteq> fst z" using "3.prems"(2) by fastforce
    then have tl: "\<forall>z \<in> set ys. covered (x # xs) z \<longleftrightarrow> covered xs z" by (auto simp: covered_simps(1))
    have "\<not> covered xs y" using "3.prems"(1) 2 by (intro covered_simps(2)) fastforce
    then have hd: "covered (x # xs) y \<longleftrightarrow> snd y \<le> snd x" using 2 by (simp add: covered_simps(1))
    have "\<not> fst x < fst y" using 2 by simp
    then show ?thesis using "3.IH"(2) [OF _ 2] "3.prems" tl hd 2 by (cases "snd x < snd y") auto
  next
    case 3
    then have "\<forall>z \<in> set (x # xs). fst z \<noteq> fst y" using "3.prems"(1) by fastforce
    then have "\<not> covered (x # xs) y" by (rule covered_simps(2))
    moreover have "\<not> fst x < fst y" "fst x \<noteq> fst y" using 3 by auto
    ultimately show ?thesis by simp
  qed
qed (auto simp: covered_def)

lemma count_stats_eq:
  "count_stats (lv_entries v) = (length (flat_value v), length (filter (\<lambda>x. snd x < 0) (flat_value v)))"
proof -
  have inner: "foldl count_token (a, b) ts = (a + length ts, b + length (filter (\<lambda>t. tk_quantity t < 0) ts))" for a b ts
    by (induction ts arbitrary: a b) (simp_all add: count_token_def)
  have "foldl (\<lambda>stats e. foldl count_token stats (cy_tokens e)) (a, b) es =
    (a + length (concat (map cy_tokens es)), b + length (filter (\<lambda>t. tk_quantity t < 0) (concat (map cy_tokens es))))"
    for a b and es :: "currency_entry list"
    by (induction es arbitrary: a b) (simp_all add: inner)
  moreover have "map snd (flat_value v) = map tk_quantity (concat (map cy_tokens (lv_entries v)))"
    by (simp add: flat_value_def map_concat comp_def)
  then have "length (flat_value v) = length (concat (map cy_tokens (lv_entries v)))"
    "length (filter (\<lambda>q. q < 0) (map snd (flat_value v))) = length (filter (\<lambda>q. q < 0) (map tk_quantity (concat (map cy_tokens (lv_entries v)))))"
    by (metis length_map, simp)
  ultimately show ?thesis by (simp add: count_stats_def filter_map comp_def)
qed

lemma value_counts:
  assumes "value_ok v"
  shows "lv_size v = length (flat_value v)" "lv_negative_count v = length (filter (\<lambda>x. snd x < 0) (flat_value v))"
proof -
  have "v = mk_value (lv_entries v)" using assms by (simp add: value_ok_def)
  then have "lv_size v = fst (count_stats (lv_entries v)) \<and> lv_negative_count v = snd (count_stats (lv_entries v))"
    by (metis (no_types, lifting) mk_value_def case_prod_beta ledger_value.select_convs(2,3))
  then show "lv_size v = length (flat_value v)" "lv_negative_count v = length (filter (\<lambda>x. snd x < 0) (flat_value v))"
    unfolding count_stats_eq by simp_all
qed

lemma no_negatives_iff: "value_ok v \<Longrightarrow> lv_negative_count v = 0 \<longleftrightarrow> (\<forall>c t. 0 \<le> amount v c t)"
proof -
  assume v: "value_ok v"
  have "lv_negative_count v = 0 \<longleftrightarrow> (\<forall>c t q. ((c, t), q) \<in> set (flat_value v) \<longrightarrow> 0 \<le> q)"
    using value_counts [OF v] by (auto simp: filter_empty_conv not_less)
  also have "\<dots> \<longleftrightarrow> (\<forall>c t. 0 \<le> amount v c t)" unfolding flat_value_iff [OF v] by (metis order_refl)
  finally show ?thesis .
qed

lemma covered_flat_iff:
  assumes "value_ok v"
  shows "covered (flat_value v) ((c, t), q) \<longleftrightarrow> amount v c t \<noteq> 0 \<and> q \<le> amount v c t"
proof -
  have "covered (flat_value v) ((c, t), q) \<longleftrightarrow> (\<exists>q'. ((c, t), q') \<in> set (flat_value v) \<and> q \<le> q')"
    by (force simp: covered_def)
  then show ?thesis unfolding flat_value_iff [OF assms] by metis
qed

lemma contains_loop_flat_iff:
  assumes "value_ok v" "value_ok w" "\<forall>c t. 0 \<le> amount v c t" "\<forall>c t. 0 \<le> amount w c t"
  shows "contains_loop (flat_value v) (flat_value w) \<longleftrightarrow> (\<forall>c t. amount w c t \<le> amount v c t)"
proof -
  have "contains_loop (flat_value v) (flat_value w) \<longleftrightarrow>
      (\<forall>c t q. ((c, t), q) \<in> set (flat_value w) \<longrightarrow> covered (flat_value v) ((c, t), q))"
    unfolding contains_loop_iff [OF keyed_flat_value [OF assms(1)] keyed_flat_value [OF assms(2)]]
    by (simp add: Ball_def split_paired_all)
  also have "\<dots> \<longleftrightarrow> (\<forall>c t. amount w c t \<noteq> 0 \<longrightarrow> amount v c t \<noteq> 0 \<and> amount w c t \<le> amount v c t)"
    unfolding covered_flat_iff [OF assms(1)] flat_value_iff [OF assms(2)] by blast
  also have "\<dots> \<longleftrightarrow> (\<forall>c t. amount w c t \<le> amount v c t)"
    using assms(3,4) by (metis order_antisym)
  finally show ?thesis .
qed

lemma contained_is_smaller:
  assumes "value_ok v" "value_ok w" "contains_loop (flat_value v) (flat_value w)"
  shows "length (flat_value w) \<le> length (flat_value v)"
proof -
  have d: "distinct (map fst (flat_value u))" if "value_ok u" for u
    using keyed_flat_value [OF that] by (simp add: keyed_def strict_sorted_iff)
  have "\<forall>y \<in> set (flat_value w). covered (flat_value v) y"
    using assms(3) contains_loop_iff keyed_flat_value assms(1,2) by blast
  then have "set (map fst (flat_value w)) \<subseteq> set (map fst (flat_value v))"
    unfolding covered_def by force
  then have "card (set (map fst (flat_value w))) \<le> card (set (map fst (flat_value v)))" by (intro card_mono) auto
  then show ?thesis using d [OF assms(1)] d [OF assms(2)] by (simp only: distinct_card length_map)
qed

section \<open>Scaling\<close>

lemma scale_tokens_eq:
  assumes "k \<noteq> 0" "\<forall>t \<in> set ts. token_ok t"
  shows "scale_tokens k ts = (if \<forall>t \<in> set ts. quantity_in_range (tk_quantity t * k)
    then Ok (map (\<lambda>t. t\<lparr>tk_quantity := tk_quantity t * k\<rparr>) ts) else Err ScaleValueQuantityOutOfBounds)"
  using assms(2)
proof (induction ts)
  case (Cons t ts)
  have "t\<lparr>tk_quantity := q\<rparr> = \<lparr>tk_name = tk_name t, tk_quantity = q\<rparr>" for q by (cases t) simp
  then show ?case using Cons assms(1) by (auto simp: check_quantity_range_eq Let_def push_some_def token_ok_def)
qed simp

definition scaled_entry :: "int \<Rightarrow> currency_entry \<Rightarrow> currency_entry" where
  "scaled_entry k e = \<lparr>cy_currency = cy_currency e, cy_tokens = map (\<lambda>t. t\<lparr>tk_quantity := tk_quantity t * k\<rparr>) (cy_tokens e)\<rparr>"

lemma scale_entries_eq:
  assumes "k \<noteq> 0" "\<forall>e \<in> set es. entry_ok e"
  shows "scale_entries k es = (if \<forall>e \<in> set es. \<forall>t \<in> set (cy_tokens e). quantity_in_range (tk_quantity t * k)
    then Ok (map (scaled_entry k) es) else Err ScaleValueQuantityOutOfBounds)"
  using assms(2)
proof (induction es)
  case (Cons e es)
  have "\<forall>t \<in> set (cy_tokens e). token_ok t" "cy_tokens e \<noteq> []" using Cons.prems by (simp_all add: entry_ok_def tokens_ok_def)
  note tok = scale_tokens_eq [OF assms(1) this(1)] this(2)
  then show ?case using Cons by (simp add: tok(1) push_some_def non_empty_entry_def scaled_entry_def)
qed simp

lemma assoc_map: "(\<And>x. key (f x) = key x) \<Longrightarrow> assoc key (map f xs) k = map_option f (assoc key xs k)"
  by (induction xs) auto

lemma entry_amount_scaled: "entry_amount (map (scaled_entry k) es) c t = k * entry_amount es c t"
proof -
  have "token_amount (map (\<lambda>t. t\<lparr>tk_quantity := tk_quantity t * k\<rparr>) ts) t = k * token_amount ts t" for ts
    by (auto simp: token_amount_def assoc_map split: option.splits)
  moreover have "assoc cy_currency (map (scaled_entry k) es) c = map_option (scaled_entry k) (assoc cy_currency es c)"
    by (rule assoc_map) (simp add: scaled_entry_def)
  ultimately show ?thesis by (auto simp: entry_amount_def scaled_entry_def split: option.splits)
qed

lemma all_quantities_iff:
  assumes "value_ok v" "P 0"
  shows "(\<forall>e \<in> set (lv_entries v). \<forall>t \<in> set (cy_tokens e). P (tk_quantity t)) \<longleftrightarrow> (\<forall>c t. P (amount v c t))"
proof -
  have "(\<forall>e \<in> set (lv_entries v). \<forall>t \<in> set (cy_tokens e). P (tk_quantity t)) \<longleftrightarrow> (\<forall>x \<in> set (flat_value v). P (snd x))"
    by (auto simp: flat_value_def)
  also have "\<dots> \<longleftrightarrow> (\<forall>c t q. ((c, t), q) \<in> set (flat_value v) \<longrightarrow> P q)" by (simp add: Ball_def split_paired_all)
  also have "\<dots> \<longleftrightarrow> (\<forall>c t. P (amount v c t))" unfolding flat_value_iff [OF assms(1)] using assms(2) by metis
  finally show ?thesis .
qed

lemma scale_value_correct:
  assumes "value_ok v"
  shows "if \<forall>c t. quantity_in_range (k * amount v c t)
    then \<exists>u. scale_value k v = Ok u \<and> value_ok u \<and> (\<forall>c t. amount u c t = k * amount v c t)
    else scale_value k v = Err ScaleValueQuantityOutOfBounds"
proof (cases "k = 0")
  case True
  then show ?thesis using value_ok_empty
    by (simp add: scale_value_def amount_def entry_amount_def empty_value_def quantity_in_range_def)
next
  case False
  let ?es = "lv_entries v"
  have es: "entries_ok ?es" "\<forall>e \<in> set ?es. entry_ok e" using assms by (simp_all add: value_ok_def entries_ok_def)
  have iff: "(\<forall>e \<in> set ?es. \<forall>t \<in> set (cy_tokens e). quantity_in_range (tk_quantity t * k)) \<longleftrightarrow>
      (\<forall>c t. quantity_in_range (k * amount v c t))"
    using all_quantities_iff [OF assms, of "\<lambda>q. quantity_in_range (q * k)"]
    by (simp add: quantity_in_range_def mult.commute)
  note eq = scale_entries_eq [OF False es(2), unfolded iff]
  have "entries_ok (map (scaled_entry k) ?es)" if all: "\<forall>e \<in> set ?es. \<forall>t \<in> set (cy_tokens e). quantity_in_range (tk_quantity t * k)"
    using es all False
    by (auto simp: entries_ok_def entry_ok_def tokens_ok_def token_ok_def scaled_entry_def keyed_map comp_def)
  then show ?thesis using eq False unfolding iff
    by (auto simp: scale_value_def entry_amount_scaled amount_def)
qed

section \<open>Values as data\<close>

definition after :: "'k::linorder option \<Rightarrow> 'k list \<Rightarrow> bool" where
  "after prev ks = (case prev of None \<Rightarrow> True | Some p \<Rightarrow> \<forall>k \<in> set ks. p < k)"

lemma after_simps [simp]: "after prev []" "after None ks" "after (Some p) ks \<longleftrightarrow> (\<forall>k \<in> set ks. p < k)"
  by (simp_all add: after_def split: option.splits)

abbreviation token_data :: "token_entry \<Rightarrow> plutus_data \<times> plutus_data" where
  "token_data t \<equiv> (DByteString (tk_name t), DInteger (tk_quantity t))"

abbreviation entry_data :: "currency_entry \<Rightarrow> plutus_data \<times> plutus_data" where
  "entry_data e \<equiv> (DByteString (cy_currency e), DMap (map token_data (cy_tokens e)))"

lemma un_tokens_iff:
  "un_tokens prev kvs = Ok ts \<longleftrightarrow> kvs = map token_data ts \<and> tokens_ok ts \<and> after prev (map tk_name ts)"
proof (induction kvs arbitrary: prev ts)
  case Nil
  then show ?case by (auto simp: tokens_ok_def)
next
  case (Cons kv kvs)
  obtain k v where kv: "kv = (k, v)" by fastforce
  show ?case
  proof (cases "\<exists>tok qty. k = DByteString tok \<and> v = DInteger qty")
    case True
    then obtain tok qty where "k = DByteString tok" "v = DInteger qty" by blast
    then show ?thesis using Cons [of "Some tok"] kv
      by (cases ts; cases prev) (auto simp: res_bind_ok_iff check_quantity_range_eq tokens_ok_def token_ok_def
          intro: token_entry.equality split: if_splits)
  next
    case False
    then show ?thesis using kv by (cases k; cases v; cases ts) (auto split: if_splits)
  qed
qed

lemma un_entries_iff:
  "un_entries prev kvs = Ok es \<longleftrightarrow> kvs = map entry_data es \<and> entries_ok es \<and> after prev (map cy_currency es)"
proof (induction kvs arbitrary: prev es)
  case Nil
  then show ?case by (auto simp: entries_ok_def)
next
  case (Cons kv kvs)
  obtain k v where kv: "kv = (k, v)" by fastforce
  show ?case
  proof (cases "\<exists>ccy inner. k = DByteString ccy \<and> v = DMap inner")
    case True
    then obtain ccy inner where "k = DByteString ccy" "v = DMap inner" by blast
    then show ?thesis using Cons [of "Some ccy"] kv
      by (cases es; cases prev) (auto simp: res_bind_ok_iff un_tokens_iff entries_ok_def entry_ok_def
          intro: currency_entry.equality split: if_splits)
  next
    case False
    then show ?thesis using kv by (cases k; cases v; cases es) (auto split: if_splits)
  qed
qed

lemma un_value_data_iff:
  "un_value_data d = Ok v \<longleftrightarrow> value_ok v \<and> d = DMap (map entry_data (lv_entries v))"
proof (cases d)
  case (DMap kvs)
  have "un_value_data d = Ok v \<longleftrightarrow> (\<exists>es. un_entries None kvs = Ok es \<and> v = mk_value es)"
    unfolding un_value_data_def DMap by (cases "un_entries None kvs") auto
  also have "\<dots> \<longleftrightarrow> value_ok v \<and> d = DMap (map entry_data (lv_entries v))"
    unfolding un_entries_iff using DMap by (auto simp: value_ok_def)
  finally show ?thesis .
qed (auto simp: un_value_data_def)

section \<open>Properties\<close>

definition sample_value :: "byte list \<Rightarrow> byte list \<Rightarrow> int \<Rightarrow> ledger_value" where
  "sample_value ccy tok qty = mk_value [\<lparr>cy_currency = ccy, cy_tokens = [\<lparr>tk_name = tok, tk_quantity = qty\<rparr>]\<rparr>]"

text \<open>
  C6. The union of two well-formed values is well-formed and adds their amounts, and it fails
  exactly when one of these sums leaves the range of signed 128-bit integers.
\<close>

theorem union_value_adds_amounts:
  assumes "value_ok v" "value_ok w"
  shows "case union_value v w of
      Inr u \<Rightarrow> value_ok u \<and> (\<forall>c t. amount u c t = amount v c t + amount w c t)
    | Inl e \<Rightarrow> e = UnionValueQuantityOutOfBounds \<and> (\<exists>c t. \<not> quantity_in_range (amount v c t + amount w c t))"
proof (cases "union_value v w")
  case (Inl e)
  then show ?thesis using union_value_fails [OF assms] by simp
next
  case (Inr u)
  then show ?thesis using union_value_correct [OF _ assms] by simp
qed

theorem union_value_adds_amounts_witness:
  "\<exists>u. union_value (sample_value [1] [7] 5) (sample_value [1] [7] (- 8)) = Ok u \<and> amount u [1] [7] = - 3"
proof -
  have ok: "value_ok (sample_value [1] [7] 5)" "value_ok (sample_value [1] [7] (- 8))" by code_simp+
  have "is_ok (union_value (sample_value [1] [7] 5) (sample_value [1] [7] (- 8)))" by code_simp
  moreover have "amount (sample_value [1] [7] 5) [1] [7] = 5" "amount (sample_value [1] [7] (- 8)) [1] [7] = - 8" by code_simp+
  ultimately show ?thesis using union_value_adds_amounts [OF ok] by (auto simp: is_ok_def split: sum.splits)
qed

text \<open>The union does not depend on the order of its arguments, errors included.\<close>

theorem union_value_commutes:
  assumes "value_ok v" "value_ok w"
  shows "union_value v w = union_value w v"
proof (cases "\<forall>c t. quantity_in_range (amount v c t + amount w c t)")
  case True
  then obtain u u' where u: "union_value v w = Ok u" and u': "union_value w v = Ok u'"
    using union_value_iff [OF assms] union_value_iff [OF assms(2,1)] by (metis add.commute)
  have "amount u = amount u'" using union_value_correct [OF u assms] union_value_correct [OF u' assms(2,1)]
    by (intro ext) (simp add: add.commute)
  then show ?thesis using u u' union_value_correct [OF u assms] union_value_correct [OF u' assms(2,1)] value_eqI by simp
next
  case False
  then have "union_value v w = Err UnionValueQuantityOutOfBounds" "union_value w v = Err UnionValueQuantityOutOfBounds"
    using union_value_iff [OF assms] union_value_iff [OF assms(2,1)] by (simp_all only: add.commute if_False)
  then show ?thesis by simp
qed

text \<open>C37. A coin that was inserted is found again, and no other amount changes.\<close>

theorem insert_coin_then_lookup:
  assumes "value_ok v" "length ccy \<le> 32" "length tok \<le> 32" "quantity_in_range qty"
  shows "value_ok (insert_coin ccy tok qty v) \<and>
    lookup_coin (insert_coin ccy tok qty v) c t = (if c = ccy \<and> t = tok then qty else lookup_coin v c t)"
  using insert_coin_correct [OF assms] assms(1) by (simp add: lookup_coin_eq)

theorem insert_coin_then_lookup_witness:
  "lookup_coin (insert_coin [1] [7] 0 (sample_value [1] [7] 5)) [1] [7] = 0 \<and>
   lookup_coin (insert_coin [1] [8] 9 (sample_value [1] [7] 5)) [1] [7] = 5"
proof -
  have "value_ok (sample_value [1] [7] 5)" "lookup_coin (sample_value [1] [7] 5) [1] [7] = 5" by code_simp+
  then show ?thesis
    using insert_coin_then_lookup [of "sample_value [1] [7] 5" "[1]" "[7]" 0 "[1]" "[7]"]
      insert_coin_then_lookup [of "sample_value [1] [7] 5" "[1]" "[8]" 9 "[1]" "[7]"]
    by (simp add: quantity_in_range_def)
qed

text \<open>
  C36. The lockstep walk decides whether a value holds at least as much as another of every
  token; negative amounts in either are an error.
\<close>

theorem value_contains_is_pointwise:
  assumes "value_ok v" "value_ok w"
  shows "value_contains v w =
    (if \<exists>c t. amount v c t < 0 then Err ValueContainsFirstNegative
     else if \<exists>c t. amount w c t < 0 then Err ValueContainsSecondNegative
     else Ok (\<forall>c t. amount w c t \<le> amount v c t))"
proof -
  have neg: "0 < lv_negative_count u \<longleftrightarrow> (\<exists>c t. amount u c t < 0)" if "value_ok u" for u
    using no_negatives_iff [OF that] by (metis gr0I less_irrefl not_less)
  show ?thesis
  proof (cases "(\<exists>c t. amount v c t < 0) \<or> (\<exists>c t. amount w c t < 0)")
    case False
    then have p: "\<forall>c t. 0 \<le> amount v c t" "\<forall>c t. 0 \<le> amount w c t" by (simp_all add: not_less)
    show ?thesis
      using False contained_is_smaller [OF assms] contains_loop_flat_iff [OF assms p]
      by (auto simp: value_contains_def neg assms value_counts(1))
  qed (auto simp: value_contains_def neg assms)
qed

text \<open>
  C35. A well-formed value of at most 40000 tokens and its data determine each other: the data
  that decode to a value are those it encodes to, so no value has two encodings.
\<close>

theorem value_data_round_trip:
  "value_ok v \<and> value_data v = Ok d \<longleftrightarrow> un_value_data d = Ok v \<and> lv_size v \<le> 40000"
  unfolding un_value_data_iff by (auto simp: value_data_def)

text \<open>
  C34. Every operation that gives a value gives a well-formed one: currencies and the tokens of
  each strictly sorted with keys of at most 32 bytes, no empty currency, quantities that
  are not zero and fit in 128 bits, and counts that are those of the entries.
\<close>

theorem value_operations_keep_well_formed:
  assumes "value_ok v" "value_ok w" "length ccy \<le> 32" "length tok \<le> 32" "quantity_in_range qty"
  shows "value_ok empty_value \<and> value_ok (insert_coin ccy tok qty v) \<and>
    (\<forall>u. union_value v w = Ok u \<longrightarrow> value_ok u) \<and> (\<forall>k u. scale_value k v = Ok u \<longrightarrow> value_ok u) \<and>
    (\<forall>d u. un_value_data d = Ok u \<longrightarrow> value_ok u)"
proof (intro conjI allI impI)
  show "value_ok empty_value" by (rule value_ok_empty)
  show "value_ok (insert_coin ccy tok qty v)" using insert_coin_correct [OF assms(1,3-5)] by blast
  show "value_ok u" if "union_value v w = Ok u" for u using union_value_correct [OF that assms(1,2)] by blast
  show "value_ok u" if "scale_value k v = Ok u" for k u
    using scale_value_correct [OF assms(1), of k] that by (auto split: if_splits)
  show "value_ok u" if "un_value_data d = Ok u" for d u using that by (simp add: un_value_data_iff)
qed

theorem value_operations_keep_well_formed_witness:
  "value_ok (insert_coin [2] [7] (- 9) (sample_value [1] [7] 5)) \<and>
   (\<exists>u. scale_value (- 3) (sample_value [1] [7] 5) = Ok u \<and> value_ok u)"
proof -
  have v: "value_ok (sample_value [1] [7] 5)" by code_simp
  have s: "is_ok (scale_value (- 3) (sample_value [1] [7] 5))" by code_simp
  show ?thesis
    using value_operations_keep_well_formed [OF v v, of "[2]" "[7]" "- 9"] s
    by (auto simp: quantity_in_range_def is_ok_def split: sum.splits)
qed

theorem value_contains_is_pointwise_witness:
  "value_contains (sample_value [1] [7] (- 5)) (sample_value [1] [7] 5) = Err ValueContainsFirstNegative \<and>
   value_contains (sample_value [1] [7] 5) empty_value = Ok True"
proof -
  have ok: "value_ok (sample_value [1] [7] (- 5))" "value_ok (sample_value [1] [7] 5)" by code_simp+
  have neg: "amount (sample_value [1] [7] (- 5)) [1] [7] = - 5" by code_simp
  have pos: "0 \<le> amount (sample_value [1] [7] 5) c t" for c t
    by (simp add: sample_value_def entry_amount_def token_amount_def)
  have empty: "amount empty_value c t = 0" for c t by (simp add: amount_def entry_amount_def empty_value_def)
  have "\<exists>c t. amount (sample_value [1] [7] (- 5)) c t < 0"
    by (rule exI [of _ "[1]"], rule exI [of _ "[7]"]) (simp add: neg)
  then show ?thesis
    using value_contains_is_pointwise [OF ok] value_contains_is_pointwise [OF ok(2) value_ok_empty] pos
    by (auto simp: empty not_less)
qed

end
