(* ===== verification/Spec2Isabelle.thy ===== *)
theory Spec2Isabelle
  imports Compact_Collections Protocol_Parameters Volatile_Aggregate Era_History Rewards Governance_Updates
    Uplc_Ledger_Value
begin

text \<open>
  Verification of the ledger and of parts of the script evaluator of Amaru, a Cardano node
  written in Rust (\<open>src/crates\<close>).

  \<^bold>\<open>The program.\<close>  Blocks enter the ledger through a volatile window.  Each block leaves a
  fragment of diffs; an aggregate over the fragments answers what the window says of a
  key.  When a block is stable, its fragment is written to the columns of the store.  At
  an epoch boundary the ledger computes the stake distribution and the rewards, applies
  the pending certificates of pools and ratifies governance proposals; an overlay holds
  the outcome until the boundary is stable, and is then flushed to the store in three
  transactions.  Scripts of transactions are evaluated by \<open>amaru-uplc\<close>.

  \<^bold>\<open>Conventions.\<close>  A structure is a record with the fields of the code under a prefix, an
  enumeration a datatype.  A fallible function returns \<open>('e, 'a) result\<close>; a panic is an
  error value or \<open>None\<close>.  Unsigned 64-bit amounts are natural numbers, with \<open>u64_add\<close>,
  \<open>u64_sub\<close> and \<open>u64_mul\<close> where the code can wrap around; signed 64-bit costs are integers with
  saturating operations; bytes are \<open>8 word\<close>; rationals and integers of any size are those
  of HOL.  Code outside the repository (hash functions, curve groups, iteration order of
  the parts of the store that are input) is a parameter.  A \<open>BTreeMap\<close> is \<open>omap\<close>, the
  type of strictly sorted association lists.

  \<^bold>\<open>Theories.\<close>  Paths are below \<open>src/crates\<close>.

  \<^item> \<^verbatim>\<open>Amaru_Prelude\<close>: results and their binding, \<open>try_fold\<close>, 64-bit arithmetic, the
    binary search of the standard library, shared facts on lists and folds.
  \<^item> \<^verbatim>\<open>Ordered_Map\<close>: \<open>BTreeMap\<close> and \<open>BTreeSet\<close>, and the locales \<open>insert_map\<close>, \<open>ordered_map\<close>
    and \<open>ordered_set\<close> of what clients rely on.
  \<^item> \<^verbatim>\<open>Compact_Collections\<close>: \<open>CompactMap\<close>, \<open>CompactSet\<close> and \<open>SortedPairs\<close> of
    \<open>amaru-kernel/src/data_structures\<close>; they interpret those locales and so refine the
    trees across the promotion from the buffer to a tree.
  \<^item> \<^verbatim>\<open>Kernel_Types\<close>, \<^verbatim>\<open>Protocol_Parameters\<close>: identifiers, rational numbers, treasury
    deltas, parameters with their updates and groups, governance actions and the
    priority of their ratification (\<open>amaru-kernel/src/cardano\<close>).
  \<^item> \<^verbatim>\<open>Era_History\<close>: conversions between slots, epochs and time (\<open>era_history.rs\<close> and the
    modules beside it).  Lemmas: every slot of a well-formed history has an epoch whose
    bounds contain it, the horizon is exact, also when its 64-bit bound wraps around, time
    and slot are inverse, and which of the
    built-in histories are well-formed.
  \<^item> \<^verbatim>\<open>Volatile_Diff\<close>, \<^verbatim>\<open>Volatile_Aggregate\<close>: the diffs of a block and the aggregate of the
    window (\<open>amaru-ledger/src/state/volatile\<close>).  The locale \<open>mergeable_diff\<close> states that
    merging diffs is replaying their operations; it is interpreted on the three diffs.
    Retracting the oldest fragment leaves the fold of the remaining ones.
  \<^item> \<^verbatim>\<open>Pool_Updates\<close>: pending certificates of pools at a boundary
    (\<open>epoch_transition/pools_updates\<close>), against replaying them one by one.
  \<^item> \<^verbatim>\<open>Stake_Summary\<close>, \<^verbatim>\<open>Rewards\<close>: \<open>amaru-ledger/src/summary\<close> and the life of rewards
    (\<open>epoch_transition/rewards_state.rs\<close>).  The stakes add up, the calculation does not
    panic and pays no more than there is, and after any sequence of parameter updates it
    follows their two expansion rates, each in the place of the other.
  \<^item> \<^verbatim>\<open>Ledger_Store\<close>: the columns of the store and the saving of a block (\<open>store.rs\<close>,
    \<open>store/columns\<close>, \<open>amaru-stores\<close>), a refinement of the verdicts of the window.
  \<^item> \<^verbatim>\<open>Epoch_Boundary\<close>: \<open>store/epoch_transition.rs\<close>, the overlay (\<open>overlay.rs\<close>) and its
    flush.  The step relation \<open>disk_run\<close> generates the reachable disks.  The flush pays
    the pending credits, leaves the treasury that was reported before it but for payouts
    to unknown accounts, resumes after an interruption and is undone by a rollback.
  \<^item> \<^verbatim>\<open>Proposals_Tree\<close>, \<^verbatim>\<open>Proposals_Forest\<close>, \<^verbatim>\<open>Ratification\<close>, \<^verbatim>\<open>Ratification_Laws\<close>,
    \<^verbatim>\<open>Governance_Updates\<close>: pending proposals, votes, thresholds and tallies, the loop that
    ratifies and enacts (\<open>amaru-ledger/src/governance\<close>), and the refunds of a boundary
    (\<open>epoch_transition/ratification.rs\<close>).  The locale \<open>proposal_lineage\<close> is the contract of
    a tree of proposals.  The loop terminates and fails only on bad candidates;
    what expires is stated for every order in which an unstable sort may visit the forest.
  \<^item> \<^verbatim>\<open>Uplc_Types\<close>, \<^verbatim>\<open>Uplc_Costs\<close>, \<^verbatim>\<open>Uplc_Integers\<close>, \<^verbatim>\<open>Uplc_Bytes\<close>, \<^verbatim>\<open>Uplc_Ledger_Value\<close>: data of
    the evaluator (\<open>amaru-uplc/src\<close>), costs (\<open>machine/cost_model\<close>), integers
    (\<open>integer.rs\<close>), the bitwise and conversion builtins (\<open>machine/runtime.rs\<close>) and values of
    many currencies (\<open>ledger_value.rs\<close>).  Paying a cost never adds to a budget; the byte
    loops act on strings of bits as a shift and a rotation; conversions are inverse;
    values implement functions from currency and token to an amount, and equal amounts
    mean equal values.

  \<^bold>\<open>Bounds and termination.\<close>  No definition needs fuel.  Recursions that are not structural
  have a termination proof: binary search, the fold of verdicts, the ratification loop
  (the number of pending proposals decreases), the extended Euclidean algorithm and the
  modular power.  The sizes and limits of the code (promotion threshold as a parameter,
  32-byte keys, 128-bit quantities, 40000 tokens, 8192 and 4096 bytes) are kept.

  \<^bold>\<open>Not modelled.\<close>  Of the evaluator: the CEK machine with its budget accounting and
  discharging, the builtins other than those named above, cryptography, the flat codec,
  the parser of the textual syntax and the construction of cost models from parameters;
  the modelled builtins are their work on arguments of the right types, without the
  spending of budget before it.  Of the integers, the libraries that represent them.  Of
  the ledger: phase-one and phase-two rules and validation contexts, the sequence and
  rollback of the volatile database, the views of pools and proposals, background jobs,
  metrics and start-up, serialisation and RocksDB.  The mempool, consensus, header
  validation, network protocols, the stage runtime, CBOR helpers, bootstrap, observability,
  the command line and user interface and the simulator are left out: they are input and
  output, rest on cryptography or concurrency outside the repository, or are yet to be
  modelled.
\<close>

end
